(* ===== verification/Prelude.thy ===== *)
theory Prelude
  imports Main "HOL-Library.Word" "HOL-Library.Monad_Syntax"
begin

text \<open>
  Shared vocabulary of the development: the machine integer types of the C code, the
  rounding macros of \<^verbatim>\<open>include/math.h\<close>, the convention for code that does not return, and the
  generic lemmas on words, lists and options that the component theories rest on.

  Conventions used by every theory.
  \<^item> \<open>u8\<close>, \<open>u32\<close>, \<open>u64\<close> are the unsigned C types of that width; addition, subtraction and
    multiplication wrap around as in C. \<open>size_t\<close>, \<open>uintmax_t\<close> and \<open>uintptr_t\<close> are \<open>u64\<close>.
  \<^item> A computation of type \<open>'a option\<close> that is \<open>None\<close> is one that does not continue normally in
    the kernel: a failed \<open>assert\<close>, a \<open>panic\<close>, an \<open>unimplemented()\<close> path, a null or
    out-of-bounds access, or a spin on a lock that is never released.
  \<^item> Error codes of \<^verbatim>\<open>include/errno.h\<close> are ordinary values of type \<open>errno\<close>.
\<close>

unbundle bit_operations_syntax

type_synonym u8 = "8 word"
type_synonym u32 = "32 word"
type_synonym u64 = "64 word"
type_synonym errno = nat

named_theorems word_nat \<open>rewriting of word operations to natural numbers under a range condition\<close>
named_theorems kernel_defs \<open>definitions of the model that proofs unfold together\<close>

subsection \<open>Error codes (include/errno.h)\<close>

abbreviation (input) EPERM :: errno where "EPERM \<equiv> 1"
abbreviation (input) ENOENT :: errno where "ENOENT \<equiv> 2"
abbreviation (input) EINTR :: errno where "EINTR \<equiv> 4"
abbreviation (input) EIO :: errno where "EIO \<equiv> 5"
abbreviation (input) EBADF :: errno where "EBADF \<equiv> 9"
abbreviation (input) ECHILD :: errno where "ECHILD \<equiv> 10"
abbreviation (input) EAGAIN :: errno where "EAGAIN \<equiv> 11"
abbreviation (input) ENOMEM :: errno where "ENOMEM \<equiv> 12"
abbreviation (input) EACCES :: errno where "EACCES \<equiv> 13"
abbreviation (input) EFAULT :: errno where "EFAULT \<equiv> 14"
abbreviation (input) EBUSY :: errno where "EBUSY \<equiv> 16"
abbreviation (input) EEXIST :: errno where "EEXIST \<equiv> 17"
abbreviation (input) ENODEV :: errno where "ENODEV \<equiv> 19"
abbreviation (input) ENOTDIR :: errno where "ENOTDIR \<equiv> 20"
abbreviation (input) EISDIR :: errno where "EISDIR \<equiv> 21"
abbreviation (input) EINVAL :: errno where "EINVAL \<equiv> 22"
abbreviation (input) EMFILE :: errno where "EMFILE \<equiv> 24"
abbreviation (input) ENOTTY :: errno where "ENOTTY \<equiv> 25"
abbreviation (input) ESPIPE :: errno where "ESPIPE \<equiv> 29"
abbreviation (input) EROFS :: errno where "EROFS \<equiv> 30"
abbreviation (input) ERANGE :: errno where "ERANGE \<equiv> 34"
abbreviation (input) ENAMETOOLONG :: errno where "ENAMETOOLONG \<equiv> 78"
abbreviation (input) EOVERFLOW :: errno where "EOVERFLOW \<equiv> 79"
abbreviation (input) ENOSYS :: errno where "ENOSYS \<equiv> 89"
abbreviation (input) ELOOP :: errno where "ELOOP \<equiv> 90"
abbreviation (input) ENOTEMPTY :: errno where "ENOTEMPTY \<equiv> 93"
abbreviation (input) ENOTSUP :: errno where "ENOTSUP \<equiv> 122"
abbreviation (input) ETIMEDOUT :: errno where "ETIMEDOUT \<equiv> 145"

subsection \<open>Assertions\<close>

text \<open>\<open>assert(e)\<close> of \<^verbatim>\<open>include/assert.h\<close>: \<open>panic\<close>, which never returns, when \<open>e\<close> is false.\<close>

definition kassert :: "bool \<Rightarrow> unit option" where
  "kassert e = (if e then Some () else None)"

lemma kassert_simps [simp]: "kassert True = Some ()" "kassert False = None"
  by (simp_all add: kassert_def)

lemma kassert_Some_iff [simp]: "kassert e = Some u \<longleftrightarrow> e"
  by (simp add: kassert_def)

lemma bind_kassert_Some_iff [simp]: "(kassert e \<bind> f = Some y) \<longleftrightarrow> (e \<and> f () = Some y)"
  by (simp add: kassert_def)

subsection \<open>Spinlocks (include/sys/spinlock.h)\<close>

text \<open>A lock is true while it is held. Acquiring a held lock spins; nobody releases it in a sequential
  run, so the result is \<open>None\<close>.\<close>

type_synonym spinlock = bool

definition spinlock_acquire :: "spinlock \<Rightarrow> spinlock option" where
  "spinlock_acquire lock = (if lock then None else Some True)"

definition spinlock_try :: "spinlock \<Rightarrow> bool \<times> spinlock" where
  "spinlock_try lock = (\<not> lock, True)"

definition spinlock_release :: "spinlock \<Rightarrow> spinlock" where
  "spinlock_release lock = False"

lemma spinlock_simps [simp]:
  "spinlock_acquire False = Some True" "spinlock_acquire True = None" "spinlock_release l = False"
  by (simp_all add: spinlock_acquire_def spinlock_release_def)

lemma spinlock_acquire_Some_iff [simp]: "spinlock_acquire l = Some l' \<longleftrightarrow> \<not> l \<and> l'"
  by (auto simp: spinlock_acquire_def)

subsection \<open>Rounding macros (include/math.h)\<close>

definition ROUND_DOWN :: "u64 \<Rightarrow> u64 \<Rightarrow> u64" where
  "ROUND_DOWN v n = v - v mod n"

definition ROUND_UP :: "u64 \<Rightarrow> u64 \<Rightarrow> u64" where
  "ROUND_UP v n = ROUND_DOWN (v + n - 1) n"

definition ROUND_UP_DIV :: "u64 \<Rightarrow> u64 \<Rightarrow> u64" where
  "ROUND_UP_DIV n d = (n + d - 1) div d"

subsection \<open>Words as natural numbers\<close>

lemma unat_add_lem' [word_nat]:
  fixes a b :: "'a::len word"
  assumes "unat a + unat b < 2 ^ LENGTH('a)"
  shows "unat (a + b) = unat a + unat b"
  using assms by (simp add: unat_word_ariths)

lemma unat_suc [word_nat]:
  fixes i n :: "'a::len word"
  assumes "i < n"
  shows "unat (i + 1) = Suc (unat i)"
proof -
  have "unat i < unat n" using assms by (simp add: word_less_nat_alt)
  moreover have "unat n < 2 ^ LENGTH('a)" by (rule unsigned_less)
  ultimately have "Suc (unat i) < 2 ^ LENGTH('a)" by linarith
  then show ?thesis by (simp add: unat_word_ariths)
qed

lemma unat_sub' [word_nat]: "b \<le> a \<Longrightarrow> unat (a - b) = unat a - unat (b :: 'a::len word)"
  by (simp add: unat_sub)

lemma unat_of_nat_u64 [word_nat]: "n < 2 ^ 64 \<Longrightarrow> unat (of_nat n :: u64) = n"
  by (simp add: unsigned_of_nat take_bit_nat_eq_self)

lemma unat_u64_less: "unat (w :: u64) < 2 ^ 64"
proof -
  have "unat w < 2 ^ LENGTH(64)" by (rule unsigned_less)
  then show ?thesis by simp
qed

lemma unat_ROUND_DOWN: "unat (ROUND_DOWN v n) = unat v - unat v mod unat n"
proof -
  have "v mod n \<le> v" by (simp add: word_le_nat_alt unat_mod_distrib)
  then show ?thesis by (simp add: ROUND_DOWN_def unat_sub unat_mod_distrib)
qed

lemma unat_add_pred:
  fixes v n :: u64
  assumes "unat v + unat n \<le> 2 ^ 64" "0 < n"
  shows "unat (v + n - 1) = unat v + unat n - 1"
proof -
  have n1: "1 \<le> n" using assms(2) by (simp add: word_le_nat_alt word_less_nat_alt)
  then have p: "unat (n - 1) = unat n - 1" by (simp add: unat_sub)
  have "0 < unat n" using assms(2) by (simp add: word_less_nat_alt)
  then have "unat v + unat (n - 1) < 2 ^ 64" using assms(1) p by linarith
  then have "unat (v + (n - 1)) = unat v + unat (n - 1)" by (simp add: unat_add_lem')
  then show ?thesis using p \<open>0 < unat n\<close> by (simp add: add_diff_eq)
qed

lemma unat_ROUND_UP:
  assumes "unat v + unat n \<le> 2 ^ 64" "0 < n"
  shows "unat (ROUND_UP v n) = (unat v + unat n - 1) div unat n * unat n"
  by (simp add: ROUND_UP_def unat_ROUND_DOWN unat_add_pred [OF assms] minus_mod_eq_div_mult)

lemma unat_ROUND_UP_DIV:
  assumes "unat v + unat n \<le> 2 ^ 64" "0 < n"
  shows "unat (ROUND_UP_DIV v n) = (unat v + unat n - 1) div unat n"
  by (simp add: ROUND_UP_DIV_def unat_div_distrib unat_add_pred [OF assms])

subsection \<open>Options\<close>

lemma bind_eq_SomeE:
  assumes "m \<bind> f = Some y"
  obtains x where "m = Some x" "f x = Some y"
  using assms by (cases m) auto

lemmas option_bind_SomeD = bind_eq_Some_conv [THEN iffD1]

subsection \<open>Lists\<close>

lemma in_set_concat_nth: "a \<in> set (concat bs) \<longleftrightarrow> (\<exists>i < length bs. a \<in> set (bs ! i))"
  by (metis UN_iff in_set_conv_nth set_concat)

lemma nth_in_concat: "i < length bs \<Longrightarrow> a \<in> set (bs ! i) \<Longrightarrow> a \<in> set (concat bs)"
  by (auto simp: in_set_concat_nth simp del: set_concat)

lemma distinct_concat_nth: "distinct (concat bs) \<Longrightarrow> i < length bs \<Longrightarrow> distinct (bs ! i)"
  by (simp add: distinct_concat_iff)

lemma find_SomeD: "List.find P xs = Some x \<Longrightarrow> x \<in> set xs \<and> P x"
  by (auto simp: find_Some_iff)

lemma find_None_notin: "List.find P xs = None \<longleftrightarrow> (\<forall>x \<in> set xs. \<not> P x)"
  by (auto simp: find_None_iff)

subsection \<open>Copying between separate objects\<close>

text \<open>\<open>slice_at\<close> reads and \<open>blit_at\<close> overwrites a range of an object; they are \<open>None\<close> out of bounds.\<close>

definition slice_at :: "'a list \<Rightarrow> nat \<Rightarrow> nat \<Rightarrow> 'a list option" where
  "slice_at xs off n = (if off + n \<le> length xs then Some (take n (drop off xs)) else None)"

definition blit_at :: "'a list \<Rightarrow> nat \<Rightarrow> 'a list \<Rightarrow> 'a list option" where
  "blit_at xs off ys =
     (if off + length ys \<le> length xs then Some (take off xs @ ys @ drop (off + length ys) xs) else None)"

lemma slice_at_Some: "off + n \<le> length xs \<Longrightarrow> slice_at xs off n = Some (map (\<lambda>i. xs ! (off + i)) [0..<n])"
  by (auto simp: slice_at_def intro: nth_equalityI)

lemma blit_at_Some:
  assumes "off + length ys \<le> length xs"
  obtains zs where "blit_at xs off ys = Some zs" "length zs = length xs"
    "\<And>i. i < length xs \<Longrightarrow> zs ! i = (if off \<le> i \<and> i < off + length ys then ys ! (i - off) else xs ! i)"
proof
  show "blit_at xs off ys = Some (take off xs @ ys @ drop (off + length ys) xs)" using assms by (simp add: blit_at_def)
qed (use assms in \<open>auto simp: nth_append\<close>)

end
