(* ===== verification/Bitmap.thy ===== *)
theory Bitmap
  imports Prelude
begin

text \<open>
  The block bitmap of \<^verbatim>\<open>kernel/lib/bitmap.c\<close>: one bit per 4 KiB block, first-fit search with a
  hint (\<open>last_deep_fragmented\<close>) below which every block is known to be in use. Accesses outside
  the backing bytes are \<open>None\<close>. The lemmas show that the search is a correct and complete first
  fit, that marking changes exactly the requested blocks, and that the hint invariant is kept by
  every operation.
\<close>

subsection \<open>Model\<close>

record bitmap =
  bm_bitmap :: "u8 list"
  bm_block_cnt :: u64
  bm_byte_cnt :: u64
  bm_last_deep_fragmented :: u64
  bm_mem_start :: u64

abbreviation (input) BLOCK_SIZE :: u64 where "BLOCK_SIZE \<equiv> 4096"
abbreviation (input) BLOCKS_PER_BYTE :: u64 where "BLOCKS_PER_BYTE \<equiv> 8"
abbreviation (input) INVALID_BLOCK :: u64 where "INVALID_BLOCK \<equiv> - 1"

definition to_ptr :: "bitmap \<Rightarrow> u64 \<Rightarrow> u64" where
  "to_ptr b block = bm_mem_start b + block * BLOCK_SIZE"

definition to_block :: "bitmap \<Rightarrow> u64 \<Rightarrow> u64" where
  "to_block b ptr = (ptr - bm_mem_start b) div BLOCK_SIZE"

definition to_block_rounded :: "bitmap \<Rightarrow> u64 \<Rightarrow> u64" where
  "to_block_rounded b ptr = ROUND_UP_DIV (ptr - bm_mem_start b) BLOCK_SIZE"

definition bitmap_get :: "bitmap \<Rightarrow> u64 \<Rightarrow> bool option" where
  "bitmap_get b block =
     (let addr = block div BLOCKS_PER_BYTE; offset = block mod BLOCKS_PER_BYTE
      in if unat addr < length (bm_bitmap b)
         then Some (bm_bitmap b ! unat addr AND push_bit (unat offset) 1 \<noteq> 0)
         else None)"

definition bitmap_set :: "bitmap \<Rightarrow> u64 \<Rightarrow> bool \<Rightarrow> bitmap option" where
  "bitmap_set b block value =
     (let addr = block div BLOCKS_PER_BYTE; offset = block mod BLOCKS_PER_BYTE
      in if unat addr < length (bm_bitmap b)
         then (let byte = bm_bitmap b ! unat addr
               in Some (b\<lparr>bm_bitmap := (bm_bitmap b)[unat addr :=
                    if value then byte OR push_bit (unat offset) 1
                    else byte AND NOT (push_bit (unat offset) 1)]\<rparr>))
         else None)"

text \<open>The \<open>for\<close> loop of \<open>find_free_region\<close>; its result is the region and the updated bitmap.\<close>

function find_free_loop :: "bitmap \<Rightarrow> u64 \<Rightarrow> u64 \<Rightarrow> u64 \<Rightarrow> u64 \<Rightarrow> (u64 \<times> bitmap) option" where
  "find_free_loop b blocks i start sz =
     (if i < bm_block_cnt b then
        (case bitmap_get b i of
           None \<Rightarrow> None
         | Some True \<Rightarrow> find_free_loop b blocks (i + 1) (i + 1) 0
         | Some False \<Rightarrow>
             (let b' = (if blocks = 1 then b\<lparr>bm_last_deep_fragmented := start + 1\<rparr> else b)
              in if sz + 1 \<ge> blocks then Some (start, b')
                 else find_free_loop b' blocks (i + 1) start (sz + 1)))
      else Some (INVALID_BLOCK, b))"
  by pat_completeness auto
termination
proof (relation "measure (\<lambda>(b, blocks, i, start, sz). unat (bm_block_cnt b) - unat i)", goal_cases)
  case 1
  then show ?case by simp
next
  case (2 b blocks i start sz x)
  then show ?case by (auto simp: word_nat word_less_nat_alt)
next
  case (3 b blocks i start sz x b')
  then show ?case by (auto simp: word_nat word_less_nat_alt)
qed

declare find_free_loop.simps [simp del]

definition find_free_region :: "bitmap \<Rightarrow> u64 \<Rightarrow> (u64 \<times> bitmap) option" where
  "find_free_region b blocks =
     find_free_loop b blocks (bm_last_deep_fragmented b) (bm_last_deep_fragmented b) 0"

function mark_loop :: "bitmap \<Rightarrow> u64 \<Rightarrow> u64 \<Rightarrow> bool \<Rightarrow> bitmap option" where
  "mark_loop b i stop value =
     (if i < stop then
        (case bitmap_set b i value of
           None \<Rightarrow> None
         | Some b' \<Rightarrow> mark_loop b' (i + 1) stop value)
      else Some b)"
  by pat_completeness auto
termination
  by (relation "measure (\<lambda>(b, i, stop, value). unat stop - unat i)")
     (auto simp: word_nat word_less_nat_alt)

declare mark_loop.simps [simp del]

definition bitmap_mark_blocks :: "bitmap \<Rightarrow> u64 \<Rightarrow> u64 \<Rightarrow> bool \<Rightarrow> bitmap option" where
  "bitmap_mark_blocks b start sz value =
     (let b' = (if \<not> value \<and> start < bm_last_deep_fragmented b
                then b\<lparr>bm_last_deep_fragmented := start\<rparr> else b)
      in mark_loop b' start (start + sz) value)"

definition bitmap_mark_region :: "bitmap \<Rightarrow> u64 \<Rightarrow> u64 \<Rightarrow> bool \<Rightarrow> bitmap option" where
  "bitmap_mark_region b base_ptr byte_cnt value =
     (let base = (if value then to_block b base_ptr else to_block_rounded b base_ptr);
          sz = (if value then ROUND_UP_DIV byte_cnt BLOCK_SIZE else byte_cnt div BLOCK_SIZE)
      in bitmap_mark_blocks b base sz value)"

text \<open>Pointers are addresses; the null pointer is 0.\<close>

definition bitmap_allocate :: "bitmap \<Rightarrow> u64 \<Rightarrow> (u64 \<times> bitmap) option" where
  "bitmap_allocate b blocks =
     (if blocks = 0 then Some (0, b)
      else do {
        (region, b1) \<leftarrow> find_free_region b blocks;
        if region = INVALID_BLOCK then Some (0, b1)
        else do {
          b2 \<leftarrow> bitmap_mark_blocks b1 region blocks True;
          Some (to_ptr b2 region, b2)
        }
      })"

subsection \<open>Abstraction and invariant\<close>

text \<open>\<open>bm_bit b i\<close>: block \<open>i\<close> is in use.\<close>

definition bm_bit :: "bitmap \<Rightarrow> nat \<Rightarrow> bool" where
  "bm_bit b i = bit (bm_bitmap b ! (i div 8)) (i mod 8)"

definition bm_sized :: "bitmap \<Rightarrow> bool" where
  "bm_sized b \<longleftrightarrow> unat (bm_block_cnt b) \<le> 8 * length (bm_bitmap b)"

definition bm_wf :: "bitmap \<Rightarrow> bool" where
  "bm_wf b \<longleftrightarrow> bm_sized b \<and> bm_last_deep_fragmented b \<le> bm_block_cnt b \<and>
     (\<forall>i < unat (bm_last_deep_fragmented b). bm_bit b i)"

definition free_run :: "bitmap \<Rightarrow> nat \<Rightarrow> nat \<Rightarrow> bool" where
  "free_run b s k \<longleftrightarrow> (\<forall>j. s \<le> j \<and> j < s + k \<longrightarrow> \<not> bm_bit b j)"

lemma bm_bit_hint [simp]: "bm_bit (b\<lparr>bm_last_deep_fragmented := l\<rparr>) = bm_bit b"
  by (simp add: bm_bit_def fun_eq_iff)

lemma unat_div8 [simp]: "unat (w div 8 :: u64) = unat w div 8"
  by (simp add: unat_div_distrib)

lemma unat_mod8 [simp]: "unat (w mod 8 :: u64) = unat w mod 8"
  by (simp add: unat_mod_distrib)

lemma bitmap_get_eq:
  "unat w < 8 * length (bm_bitmap b) \<Longrightarrow> bitmap_get b w = Some (bm_bit b (unat w))"
  by (simp add: bitmap_get_def bm_bit_def Let_def bit_iff_and_push_bit_not_eq_0 less_mult_imp_div_less
      mult.commute)

definition set_byte :: "bitmap \<Rightarrow> nat \<Rightarrow> bool \<Rightarrow> bitmap" where
  "set_byte b i value = b\<lparr>bm_bitmap := (bm_bitmap b)[i div 8 :=
     if value then set_bit (i mod 8) (bm_bitmap b ! (i div 8))
     else unset_bit (i mod 8) (bm_bitmap b ! (i div 8))]\<rparr>"

lemma bitmap_set_eq:
  "unat w < 8 * length (bm_bitmap b) \<Longrightarrow> bitmap_set b w v = Some (set_byte b (unat w) v)"
  by (simp add: bitmap_set_def set_byte_def Let_def set_bit_eq_or unset_bit_eq_and_not
      less_mult_imp_div_less mult.commute)

lemma set_byte_fields [simp]:
  "length (bm_bitmap (set_byte b i v)) = length (bm_bitmap b)"
  "bm_block_cnt (set_byte b i v) = bm_block_cnt b"
  "bm_byte_cnt (set_byte b i v) = bm_byte_cnt b"
  "bm_last_deep_fragmented (set_byte b i v) = bm_last_deep_fragmented b"
  "bm_mem_start (set_byte b i v) = bm_mem_start b"
  by (simp_all add: set_byte_def)

lemma bm_bit_set_byte:
  assumes "i < 8 * length (bm_bitmap b)"
  shows "bm_bit (set_byte b i v) j = (if j = i then v else bm_bit b j)"
proof (cases "j div 8 = i div 8")
  case True
  have l: "i div 8 < length (bm_bitmap b)" using assms by (simp add: less_mult_imp_div_less mult.commute)
  have m: "j mod 8 = i mod 8 \<longleftrightarrow> j = i" using True by (metis div_mult_mod_eq)
  show ?thesis using True l m
    by (auto simp: bm_bit_def set_byte_def bit_set_bit_iff bit_unset_bit_iff)
next
  case False
  then show ?thesis by (auto simp: bm_bit_def set_byte_def)
qed

text \<open>Reading back a bit that was written: the accessors agree with an array of booleans.\<close>

lemma get_set:
  assumes "unat w < 8 * length (bm_bitmap b)" "unat x < 8 * length (bm_bitmap b)"
  shows "(bitmap_set b w v \<bind> (\<lambda>b'. bitmap_get b' x)) = (if x = w then Some v else bitmap_get b x)"
  using assms by (auto simp: bitmap_set_eq bitmap_get_eq bm_bit_set_byte unsigned_word_eqI)

subsection \<open>Marking\<close>

lemma mark_loop_Some:
  assumes "i \<le> stop" "unat stop \<le> 8 * length (bm_bitmap b)"
  shows "\<exists>b'. mark_loop b i stop v = Some b' \<and>
    (\<forall>j. bm_bit b' j = (if unat i \<le> j \<and> j < unat stop then v else bm_bit b j)) \<and>
    length (bm_bitmap b') = length (bm_bitmap b) \<and> bm_block_cnt b' = bm_block_cnt b \<and>
    bm_byte_cnt b' = bm_byte_cnt b \<and> bm_mem_start b' = bm_mem_start b \<and>
    bm_last_deep_fragmented b' = bm_last_deep_fragmented b"
  using assms
proof (induction b i stop v rule: mark_loop.induct)
  case (1 b i stop v)
  show ?case
  proof (cases "i < stop")
    case False
    then show ?thesis using "1.prems" by (auto simp: mark_loop.simps [of b] word_less_nat_alt)
  next
    case True
    then have lt: "unat i < unat stop" by (simp add: word_less_nat_alt)
    with "1.prems" have r: "unat i < 8 * length (bm_bitmap b)" by simp
    have su: "unat (i + 1) = Suc (unat i)" by (rule unat_suc [OF True])
    then have "i + 1 \<le> stop" using lt by (simp add: word_le_nat_alt)
    then obtain b' where b': "mark_loop (set_byte b (unat i) v) (i + 1) stop v = Some b'"
      "\<forall>j. bm_bit b' j = (if unat (i + 1) \<le> j \<and> j < unat stop then v else bm_bit (set_byte b (unat i) v) j)"
      "length (bm_bitmap b') = length (bm_bitmap b)" "bm_block_cnt b' = bm_block_cnt b"
      "bm_byte_cnt b' = bm_byte_cnt b" "bm_mem_start b' = bm_mem_start b"
      "bm_last_deep_fragmented b' = bm_last_deep_fragmented b"
      using "1.IH" [OF True bitmap_set_eq [OF r]] "1.prems" by auto
    then show ?thesis using True lt r
      by (auto simp: mark_loop.simps [of b] bitmap_set_eq su bm_bit_set_byte)
  qed
qed

definition in_range :: "u64 \<Rightarrow> u64 \<Rightarrow> nat \<Rightarrow> bool" where
  "in_range start sz j \<longleftrightarrow> unat start \<le> j \<and> j < unat start + unat sz"

text \<open>Marking \<open>sz\<close> blocks from \<open>start\<close> changes exactly these blocks and keeps the invariant.\<close>

lemma bitmap_mark_blocks_Some:
  assumes wf: "bm_wf b" and r: "unat start + unat sz \<le> unat (bm_block_cnt b)"
  shows "\<exists>b'. bitmap_mark_blocks b start sz v = Some b' \<and> bm_wf b' \<and>
    (\<forall>j. bm_bit b' j = (if in_range start sz j then v else bm_bit b j)) \<and>
    length (bm_bitmap b') = length (bm_bitmap b) \<and> bm_block_cnt b' = bm_block_cnt b \<and>
    bm_byte_cnt b' = bm_byte_cnt b \<and> bm_mem_start b' = bm_mem_start b"
proof -
  let ?b = "if \<not> v \<and> start < bm_last_deep_fragmented b
    then b\<lparr>bm_last_deep_fragmented := start\<rparr> else b"
  have s: "unat (start + sz) = unat start + unat sz"
    using r unat_u64_less [of "bm_block_cnt b"] by (intro unat_add_lem') simp
  have "unat (start + sz) \<le> 8 * length (bm_bitmap ?b)"
    using wf r s by (auto simp: bm_wf_def bm_sized_def)
  moreover have "start \<le> start + sz" using s by (simp add: word_le_nat_alt)
  ultimately obtain b' where b': "mark_loop ?b start (start + sz) v = Some b'"
    "\<forall>j. bm_bit b' j = (if unat start \<le> j \<and> j < unat (start + sz) then v else bm_bit ?b j)"
    "length (bm_bitmap b') = length (bm_bitmap ?b)" "bm_block_cnt b' = bm_block_cnt ?b"
    "bm_byte_cnt b' = bm_byte_cnt ?b" "bm_mem_start b' = bm_mem_start ?b"
    "bm_last_deep_fragmented b' = bm_last_deep_fragmented ?b"
    using mark_loop_Some by blast
  have bits: "bm_bit b' j = (if in_range start sz j then v else bm_bit b j)" for j
    using b'(2) s by (auto simp: in_range_def)
  have "bm_wf b'"
    using wf b'(3-7) bits
    by (auto simp: bm_wf_def bm_sized_def in_range_def word_less_nat_alt word_le_nat_alt split: if_splits)
  then show ?thesis using b' bits by (auto simp: bitmap_mark_blocks_def Let_def)
qed

subsection \<open>First-fit search\<close>

definition search_inv :: "bitmap \<Rightarrow> u64 \<Rightarrow> u64 \<Rightarrow> u64 \<Rightarrow> u64 \<Rightarrow> bool" where
  "search_inv b blocks i start sz \<longleftrightarrow>
     i \<le> bm_block_cnt b \<and> unat start + unat sz = unat i \<and> sz < blocks \<and>
     free_run b (unat start) (unat sz) \<and> (0 < unat start \<longrightarrow> bm_bit b (unat start - 1)) \<and>
     (\<forall>s. s + unat blocks \<le> unat i \<longrightarrow> \<not> free_run b s (unat blocks))"

definition first_fit :: "bitmap \<Rightarrow> u64 \<Rightarrow> u64 \<Rightarrow> bool" where
  "first_fit b blocks r \<longleftrightarrow>
     unat r + unat blocks \<le> unat (bm_block_cnt b) \<and> free_run b (unat r) (unat blocks) \<and>
     (\<forall>s < unat r. \<not> free_run b s (unat blocks))"

lemma free_run_snoc: "free_run b s (Suc k) \<longleftrightarrow> free_run b s k \<and> \<not> bm_bit b (s + k)"
  by (auto simp: free_run_def less_Suc_eq)

lemma free_runD: "free_run b s k \<Longrightarrow> s \<le> j \<Longrightarrow> j < s + k \<Longrightarrow> \<not> bm_bit b j"
  by (simp add: free_run_def)

lemma free_run_one: "free_run b s (Suc 0) \<longleftrightarrow> \<not> bm_bit b s"
  by (auto simp: free_run_def less_Suc_eq_le dest: le_antisym)

lemma search_inv_used:
  assumes inv: "search_inv b blocks i start sz" and lt: "i < bm_block_cnt b" and u: "bm_bit b (unat i)"
  shows "search_inv b blocks (i + 1) (i + 1) 0"
proof -
  have su: "unat (i + 1) = Suc (unat i)" by (rule unat_suc [OF lt])
  have bl: "0 < unat blocks" using inv by (simp add: search_inv_def word_less_nat_alt)
  have "\<not> free_run b s (unat blocks)" if s: "s + unat blocks \<le> Suc (unat i)" for s
  proof
    assume f: "free_run b s (unat blocks)"
    then have "s + unat blocks = Suc (unat i)" using inv s le_Suc_eq by (auto simp: search_inv_def)
    then show False using free_runD [OF f, of "unat i"] u bl by simp
  qed
  then show ?thesis using inv lt su u bl
    by (auto simp: search_inv_def free_run_def word_less_nat_alt word_le_nat_alt)
qed

lemma search_inv_free:
  assumes inv: "search_inv b blocks i start sz" and lt: "i < bm_block_cnt b"
    and u: "\<not> bm_bit b (unat i)" and go: "\<not> blocks \<le> sz + 1"
  shows "search_inv b blocks (i + 1) start (sz + 1)"
proof -
  have su: "unat (i + 1) = Suc (unat i)" by (rule unat_suc [OF lt])
  have szb: "sz < blocks" using inv by (simp add: search_inv_def)
  have ss: "unat (sz + 1) = Suc (unat sz)" by (rule unat_suc [OF szb])
  have eq: "unat start + unat sz = unat i" using inv by (simp add: search_inv_def)
  have sb: "Suc (unat sz) < unat blocks" using go ss by (simp add: word_le_nat_alt)
  have "\<not> free_run b s (unat blocks)" if s: "s + unat blocks \<le> Suc (unat i)" for s
  proof
    assume f: "free_run b s (unat blocks)"
    then have e: "s + unat blocks = Suc (unat i)" using inv s le_Suc_eq by (auto simp: search_inv_def)
    then have "s < unat start" using eq sb by linarith
    then have "s \<le> unat start - 1 \<and> unat start - 1 < s + unat blocks" "bm_bit b (unat start - 1)"
      using e eq inv by (auto simp: search_inv_def)
    then show False using free_runD [OF f] by blast
  qed
  then show ?thesis using inv lt su ss eq sb u
    by (auto simp: search_inv_def free_run_snoc word_less_nat_alt word_le_nat_alt)
qed

lemma search_inv_found:
  assumes inv: "search_inv b blocks i start sz" and lt: "i < bm_block_cnt b"
    and u: "\<not> bm_bit b (unat i)" and stop: "blocks \<le> sz + 1"
  shows "first_fit b blocks start"
proof -
  have szb: "sz < blocks" using inv by (simp add: search_inv_def)
  have ss: "unat (sz + 1) = Suc (unat sz)" by (rule unat_suc [OF szb])
  have eq: "unat start + unat sz = unat i" using inv by (simp add: search_inv_def)
  have bl: "unat blocks = Suc (unat sz)"
    using szb stop ss by (simp add: word_le_nat_alt word_less_nat_alt)
  show ?thesis using inv lt u eq bl
    by (auto simp: search_inv_def first_fit_def free_run_snoc word_less_nat_alt)
qed

lemma find_free_loop_used:
  assumes "i < bm_block_cnt b" "bitmap_get b i = Some True"
  shows "find_free_loop b blocks i start sz = find_free_loop b blocks (i + 1) (i + 1) 0"
  using assms by (simp add: find_free_loop.simps [of b blocks i start sz])

lemma find_free_loop_next:
  assumes "i < bm_block_cnt b" "bitmap_get b i = Some False" "blocks \<noteq> 1" "\<not> blocks \<le> sz + 1"
  shows "find_free_loop b blocks i start sz = find_free_loop b blocks (i + 1) start (sz + 1)"
  using assms by (simp add: find_free_loop.simps [of b blocks i start sz] Let_def)

lemma find_free_loop_Some:
  assumes "search_inv b blocks i start sz" "bm_sized b"
  shows "(\<exists>r. find_free_loop b blocks i start sz =
            Some (r, if blocks = 1 then b\<lparr>bm_last_deep_fragmented := r + 1\<rparr> else b) \<and>
            first_fit b blocks r) \<or>
         find_free_loop b blocks i start sz = Some (INVALID_BLOCK, b) \<and>
            (\<forall>s. s + unat blocks \<le> unat (bm_block_cnt b) \<longrightarrow> \<not> free_run b s (unat blocks))"
  using assms
proof (induction b blocks i start sz rule: find_free_loop.induct)
  case (1 b blocks i start sz)
  show ?case
  proof (cases "i < bm_block_cnt b")
    case False
    then have "i = bm_block_cnt b" using "1.prems" by (simp add: search_inv_def)
    then show ?thesis using "1.prems"
      by (auto simp: find_free_loop.simps [of b] search_inv_def)
  next
    case lt: True
    have g: "bitmap_get b i = Some (bm_bit b (unat i))"
      using lt "1.prems" by (intro bitmap_get_eq) (simp add: bm_sized_def word_less_nat_alt)
    show ?thesis
    proof (cases "bm_bit b (unat i)")
      case True
      then have "search_inv b blocks (i + 1) (i + 1) 0"
        using "1.prems" lt by (blast intro: search_inv_used)
      then show ?thesis
        using "1.IH"(1) [OF lt g] True "1.prems"(2)
        by (simp add: find_free_loop_used lt g)
    next
      case False
      show ?thesis
      proof (cases "blocks \<le> sz + 1")
        case stop: True
        then have "first_fit b blocks start"
          using "1.prems" lt False by (blast intro: search_inv_found)
        then show ?thesis
          using g lt False stop by (auto simp: find_free_loop.simps [of b blocks i start sz] Let_def)
      next
        case go: False
        then have inv': "search_inv b blocks (i + 1) start (sz + 1)"
          using "1.prems" lt False by (blast intro: search_inv_free)
        have "blocks \<noteq> 1" using go "1.prems"(1)
          by (auto simp: search_inv_def word_less_1)
        then show ?thesis
          using "1.IH"(2) [OF lt g] inv' False go "1.prems"(2)
          by (simp add: find_free_loop_next lt g)
      qed
    qed
  qed
qed

lemma search_inv_start:
  assumes "bm_wf b" "0 < blocks"
  shows "search_inv b blocks (bm_last_deep_fragmented b) (bm_last_deep_fragmented b) 0"
proof -
  have "\<not> free_run b s (unat blocks)" if "s + unat blocks \<le> unat (bm_last_deep_fragmented b)" for s
    using that assms free_runD [of b s "unat blocks" s]
    by (auto simp: bm_wf_def word_less_nat_alt)
  then show ?thesis using assms by (auto simp: search_inv_def bm_wf_def free_run_def)
qed

lemma first_fit_valid: "first_fit b blocks r \<Longrightarrow> 0 < blocks \<Longrightarrow> r \<noteq> INVALID_BLOCK"
proof
  assume f: "first_fit b blocks r" "0 < blocks" and r: "r = INVALID_BLOCK"
  then have "unat r = 2 ^ 64 - 1" by (simp add: unsigned_minus_1_eq_mask mask_eq_exp_minus_1)
  moreover have "0 < unat blocks" using f by (simp add: word_less_nat_alt)
  ultimately show False using f unat_u64_less [of "bm_block_cnt b"] by (simp add: first_fit_def)
qed

lemma find_free_region_cases:
  assumes "bm_wf b" "0 < blocks"
  obtains (found) r where "first_fit b blocks r"
      "find_free_region b blocks =
         Some (r, if blocks = 1 then b\<lparr>bm_last_deep_fragmented := r + 1\<rparr> else b)"
    | (full) "find_free_region b blocks = Some (INVALID_BLOCK, b)"
      "\<forall>s. s + unat blocks \<le> unat (bm_block_cnt b) \<longrightarrow> \<not> free_run b s (unat blocks)"
  using find_free_loop_Some [OF search_inv_start [OF assms]] assms(1)
  unfolding find_free_region_def bm_wf_def by blast

text \<open>After the hint was moved past a single free block, marking that block restores the invariant.\<close>

lemma mark_single:
  assumes wf: "bm_wf b" and ff: "first_fit b 1 r"
  shows "\<exists>b'. bitmap_mark_blocks (b\<lparr>bm_last_deep_fragmented := r + 1\<rparr>) r 1 True = Some b' \<and> bm_wf b' \<and>
    (\<forall>j. bm_bit b' j = (in_range r 1 j \<or> bm_bit b j)) \<and>
    bm_block_cnt b' = bm_block_cnt b \<and> bm_mem_start b' = bm_mem_start b"
proof -
  let ?b = "b\<lparr>bm_last_deep_fragmented := r + 1\<rparr>"
  have le: "unat r + 1 \<le> unat (bm_block_cnt b)" and low: "\<forall>s < unat r. bm_bit b s"
    using ff by (auto simp: first_fit_def free_run_one)
  have lt: "r < bm_block_cnt b" using le by (simp add: word_less_nat_alt)
  have su: "unat (r + 1) = Suc (unat r)" by (rule unat_suc [OF lt])
  have "unat (r + 1) \<le> 8 * length (bm_bitmap ?b)" using wf le su by (simp add: bm_wf_def bm_sized_def)
  moreover have "r \<le> r + 1" using su by (simp add: word_le_nat_alt)
  ultimately obtain b' where b': "mark_loop ?b r (r + 1) True = Some b'"
    "\<forall>j. bm_bit b' j = (if unat r \<le> j \<and> j < unat (r + 1) then True else bm_bit ?b j)"
    "length (bm_bitmap b') = length (bm_bitmap ?b)" "bm_block_cnt b' = bm_block_cnt ?b"
    "bm_mem_start b' = bm_mem_start ?b" "bm_last_deep_fragmented b' = bm_last_deep_fragmented ?b"
    using mark_loop_Some by blast
  have "bm_wf b'" using wf b' le low su
    by (auto simp: bm_wf_def bm_sized_def word_le_nat_alt less_Suc_eq)
  then show ?thesis using b' su by (auto simp: bitmap_mark_blocks_def in_range_def)
qed

lemma bitmap_allocate_cases:
  assumes wf: "bm_wf b" and pos: "0 < blocks"
  obtains (found) r b' where "first_fit b blocks r" "bitmap_allocate b blocks = Some (to_ptr b r, b')"
      "bm_wf b'" "\<forall>j. bm_bit b' j = (in_range r blocks j \<or> bm_bit b j)"
      "bm_block_cnt b' = bm_block_cnt b" "bm_mem_start b' = bm_mem_start b"
    | (full) "bitmap_allocate b blocks = Some (0, b)"
      "\<forall>s. s + unat blocks \<le> unat (bm_block_cnt b) \<longrightarrow> \<not> free_run b s (unat blocks)"
  using wf pos
proof (cases rule: find_free_region_cases)
  case (found r)
  have nv: "r \<noteq> INVALID_BLOCK" using first_fit_valid [OF found(1) pos] .
  have "\<exists>b'. bitmap_mark_blocks (if blocks = 1 then b\<lparr>bm_last_deep_fragmented := r + 1\<rparr> else b) r blocks True
          = Some b' \<and> bm_wf b' \<and> (\<forall>j. bm_bit b' j = (in_range r blocks j \<or> bm_bit b j)) \<and>
      bm_block_cnt b' = bm_block_cnt b \<and> bm_mem_start b' = bm_mem_start b"
    using mark_single [OF wf] bitmap_mark_blocks_Some [OF wf, of r blocks True] found(1)
    by (auto simp: first_fit_def)
  then obtain b' where b': "bitmap_mark_blocks (if blocks = 1 then b\<lparr>bm_last_deep_fragmented := r + 1\<rparr> else b) r
      blocks True = Some b'" "bm_wf b'" "\<forall>j. bm_bit b' j = (in_range r blocks j \<or> bm_bit b j)"
      "bm_block_cnt b' = bm_block_cnt b" "bm_mem_start b' = bm_mem_start b"
    by blast
  have "blocks \<noteq> 0" using pos by auto
  then have "bitmap_allocate b blocks = Some (to_ptr b r, b')"
    using found(2) nv b'(1,5)
    by (simp add: bitmap_allocate_def to_ptr_def split del: if_split)
  then show ?thesis using found(1) b'(2-5) that(1) by blast
next
  case full
  then show ?thesis using that(2) pos by (simp add: bitmap_allocate_def)
qed

subsection \<open>The interface the page allocator relies on\<close>

text \<open>
  A block allocator hands out runs of blocks that were free, marks exactly them as used, and
  returns 0 only when no run of that length is free. Clients of the interface prove once that
  regions that are live at the same time never overlap.
\<close>

text \<open>A sequence of allocations, with the pointers handed out and their lengths.\<close>

primrec alloc_all :: "('s \<Rightarrow> u64 \<Rightarrow> (u64 \<times> 's) option) \<Rightarrow> 's \<Rightarrow> u64 list \<Rightarrow> ((u64 \<times> u64) list \<times> 's) option"
  where
  "alloc_all al s [] = Some ([], s)"
| "alloc_all al s (n # ns) = (case al s n of None \<Rightarrow> None
     | Some (p, s') \<Rightarrow> (case alloc_all al s' ns of None \<Rightarrow> None
         | Some (ps, s'') \<Rightarrow> Some ((p, n) # ps, s'')))"

definition region :: "(u64 \<Rightarrow> nat) \<Rightarrow> u64 \<times> u64 \<Rightarrow> nat set" where
  "region blk x = {blk (fst x) ..< blk (fst x) + unat (snd x)}"

locale block_allocator =
  fixes wf :: "'s \<Rightarrow> bool"
    and used :: "'s \<Rightarrow> nat \<Rightarrow> bool"
    and alloc :: "'s \<Rightarrow> u64 \<Rightarrow> (u64 \<times> 's) option"
    and block_of :: "'s \<Rightarrow> u64 \<Rightarrow> nat"
  assumes alloc_returns: "wf s \<Longrightarrow> 0 < n \<Longrightarrow> \<exists>p s'. alloc s n = Some (p, s') \<and> wf s'"
    and alloc_fresh: "wf s \<Longrightarrow> 0 < n \<Longrightarrow> alloc s n = Some (p, s') \<Longrightarrow> p \<noteq> 0 \<Longrightarrow>
      block_of s p \<le> j \<Longrightarrow> j < block_of s p + unat n \<Longrightarrow> \<not> used s j \<and> used s' j"
    and alloc_mono: "wf s \<Longrightarrow> 0 < n \<Longrightarrow> alloc s n = Some (p, s') \<Longrightarrow> used s j \<Longrightarrow> used s' j"
    and block_of_stable: "wf s \<Longrightarrow> 0 < n \<Longrightarrow> alloc s n = Some (p, s') \<Longrightarrow> block_of s' = block_of s"
begin

lemma alloc_wf: "wf s \<Longrightarrow> 0 < n \<Longrightarrow> alloc s n = Some (p, s') \<Longrightarrow> wf s'"
  using alloc_returns [of s n] by auto

lemma alloc_all_fresh:
  assumes "wf s" "\<forall>n \<in> set ns. 0 < n" "alloc_all alloc s ns = Some (ps, s')"
  shows "\<forall>x \<in> set ps. fst x \<noteq> 0 \<longrightarrow> (\<forall>j \<in> region (block_of s) x. \<not> used s j)"
  using assms
proof (induction ns arbitrary: s ps)
  case Nil
  then show ?case by simp
next
  case (Cons n ns)
  then obtain p s1 qs where a: "alloc s n = Some (p, s1)" and r: "alloc_all alloc s1 ns = Some (qs, s')"
    and ps: "ps = (p, n) # qs" by (auto split: option.splits)
  have n: "0 < n" and wf1: "wf s1" using Cons.prems a alloc_wf by auto
  have same: "region (block_of s1) = region (block_of s)"
    using block_of_stable [OF Cons.prems(1) n a] by (simp add: region_def fun_eq_iff)
  have "\<forall>x \<in> set qs. fst x \<noteq> 0 \<longrightarrow> (\<forall>j \<in> region (block_of s1) x. \<not> used s1 j)"
    using Cons.IH [OF wf1 _ r] Cons.prems by simp
  then have "\<forall>x \<in> set qs. fst x \<noteq> 0 \<longrightarrow> (\<forall>j \<in> region (block_of s) x. \<not> used s j)"
    using alloc_mono [OF Cons.prems(1) n a] same by auto
  moreover have "p \<noteq> 0 \<longrightarrow> (\<forall>j \<in> region (block_of s) (p, n). \<not> used s j)"
    using alloc_fresh [OF Cons.prems(1) n a] by (auto simp: region_def)
  ultimately show ?case using ps by auto
qed

lemma alloc_all_disjoint:
  assumes "wf s" "\<forall>n \<in> set ns. 0 < n" "alloc_all alloc s ns = Some (ps, s')" "i < k" "k < length ps"
    "fst (ps ! i) \<noteq> 0" "fst (ps ! k) \<noteq> 0"
  shows "region (block_of s) (ps ! i) \<inter> region (block_of s) (ps ! k) = {}"
  using assms
proof (induction ns arbitrary: s ps i k)
  case Nil
  then show ?case by simp
next
  case (Cons n ns)
  then obtain p s1 qs where a: "alloc s n = Some (p, s1)" and r: "alloc_all alloc s1 ns = Some (qs, s')"
    and ps: "ps = (p, n) # qs" by (auto split: option.splits)
  have n: "0 < n" and wf1: "wf s1" using Cons.prems a alloc_wf by auto
  have same: "region (block_of s1) = region (block_of s)"
    using block_of_stable [OF Cons.prems(1) n a] by (simp add: region_def fun_eq_iff)
  obtain k' where k: "k = Suc k'" "k' < length qs" using Cons.prems(4,5) ps by (cases k) auto
  show ?case
  proof (cases i)
    case 0
    have "\<forall>j \<in> region (block_of s) (p, n). used s1 j"
      using alloc_fresh [OF Cons.prems(1) n a] Cons.prems(6) 0 ps by (auto simp: region_def)
    moreover have "\<forall>j \<in> region (block_of s) (qs ! k'). \<not> used s1 j"
      using alloc_all_fresh [OF wf1 _ r] Cons.prems(2,7) k ps same by auto
    ultimately show ?thesis using 0 k ps by auto
  next
    case (Suc i')
    then show ?thesis using Cons.IH [OF wf1 _ r, of i' k'] Cons.prems k ps same by auto
  qed
qed

end

text \<open>Block numbers and addresses.\<close>

lemma to_block_to_ptr:
  assumes "unat r * 4096 < 2 ^ 64"
  shows "to_block b (to_ptr b r) = r"
proof -
  have "unat (r * 4096) = unat r * 4096" using assms by (simp add: unat_word_ariths)
  then have "unat (r * 4096 div 4096) = unat r" by (simp add: unat_div_distrib)
  then show ?thesis by (simp add: to_block_def to_ptr_def word_unat_eq_iff)
qed

lemma to_block_rounded_to_ptr:
  assumes "unat r * 4096 + 4096 \<le> 2 ^ 64"
  shows "to_block_rounded b (to_ptr b r) = r"
proof -
  have m: "unat (r * 4096) = unat r * 4096" using assms by (simp add: unat_word_ariths)
  then have "unat (ROUND_UP_DIV (r * 4096) 4096) = unat r"
    using assms unat_ROUND_UP_DIV [of "r * 4096" 4096] by simp
  then show ?thesis by (simp add: to_block_rounded_def to_ptr_def word_unat_eq_iff)
qed

text \<open>\<open>bm_addressable\<close>: every block lies below the address \<open>2^64\<close>, so that addresses of blocks do not wrap around.\<close>

definition bm_addressable :: "bitmap \<Rightarrow> bool" where
  "bm_addressable b \<longleftrightarrow> unat (bm_mem_start b) + unat (bm_block_cnt b) * 4096 < 2 ^ 64"

definition bm_block_of :: "bitmap \<Rightarrow> u64 \<Rightarrow> nat" where
  "bm_block_of b p = unat (to_block b p)"

lemma addressable_block:
  assumes "bm_addressable b" "first_fit b blocks r" "0 < blocks"
  shows "unat r * 4096 + 4096 \<le> 2 ^ 64" "bm_block_of b (to_ptr b r) = unat r"
proof -
  have "unat r + 1 \<le> unat (bm_block_cnt b)"
    using assms(2,3) by (simp add: first_fit_def word_less_nat_alt)
  then have "(unat r + 1) * 4096 \<le> unat (bm_block_cnt b) * 4096" by (intro mult_le_mono1)
  then show a: "unat r * 4096 + 4096 \<le> 2 ^ 64" using assms(1) by (simp add: bm_addressable_def)
  have "unat r * 4096 < 2 ^ 64" using a by linarith
  then show "bm_block_of b (to_ptr b r) = unat r" by (simp add: bm_block_of_def to_block_to_ptr)
qed

interpretation bm: block_allocator "\<lambda>b. bm_wf b \<and> bm_addressable b" bm_bit bitmap_allocate bm_block_of
proof (unfold_locales, goal_cases)
  case (1 s n)
  then have "bm_wf s" by simp
  then show ?case using 1(2)
    by (cases rule: bitmap_allocate_cases) (use 1 in \<open>auto simp: bm_addressable_def\<close>)
next
  case (2 s n p s' j)
  then have wf: "bm_wf s" and ad: "bm_addressable s" by auto
  from wf 2(2) show ?case
  proof (cases rule: bitmap_allocate_cases)
    case (found r b')
    then have p: "p = to_ptr s r" "s' = b'" using 2 by auto
    then have b: "bm_block_of s p = unat r" using addressable_block(2) [OF ad found(1) 2(2)] by simp
    then have "in_range r n j" using 2 by (simp add: in_range_def)
    moreover have "\<not> bm_bit s j"
      using found(1) 2 b free_runD [of s "unat r" "unat n" j] by (auto simp: first_fit_def)
    ultimately show ?thesis using found p by auto
  next
    case full
    then show ?thesis using 2 by simp
  qed
next
  case (3 s n p s' j)
  then show ?case by (auto elim!: bitmap_allocate_cases [of s n])
next
  case (4 s n p s')
  then show ?case
    by (auto simp: bm_block_of_def to_block_def fun_eq_iff elim!: bitmap_allocate_cases [of s n])
qed

subsection \<open>Properties\<close>

lemma bitmap_mark_region_free:
  assumes wf: "bm_wf b" and ad: "unat r * 4096 + 4096 \<le> 2 ^ 64"
    and r: "unat r + unat n \<le> unat (bm_block_cnt b)" and n: "unat n * 4096 < 2 ^ 64"
  shows "\<exists>b'. bitmap_mark_region b (to_ptr b r) (n * 4096) False = Some b' \<and> bm_wf b' \<and>
    (\<forall>j. bm_bit b' j = (\<not> in_range r n j \<and> bm_bit b j)) \<and> bm_block_cnt b' = bm_block_cnt b \<and>
    bm_mem_start b' = bm_mem_start b"
proof -
  have "unat (n * 4096) = unat n * 4096" using n by (simp add: unat_word_ariths)
  then have "n * 4096 div 4096 = n" by (simp add: word_unat_eq_iff unat_div_distrib)
  then show ?thesis
    using bitmap_mark_blocks_Some [OF wf r, of False] to_block_rounded_to_ptr [OF ad, of b]
    by (auto simp: bitmap_mark_region_def Let_def)
qed

text \<open>C1. \<open>bitmap_allocate\<close> is a correct and complete first fit: on a well-formed bitmap a request for
  \<open>blocks > 0\<close> blocks either returns the address of the lowest run of that many free blocks and
  marks exactly these blocks as used, keeping the search-hint invariant, or returns the null pointer
  and leaves the bitmap alone, and then no run of that length is free anywhere.\<close>

theorem bitmap_allocate_first_fit:
  assumes "bm_wf b" and "0 < blocks"
  shows "(\<exists>r b'. first_fit b blocks r \<and> bitmap_allocate b blocks = Some (to_ptr b r, b') \<and> bm_wf b' \<and>
            (\<forall>j. bm_bit b' j = (in_range r blocks j \<or> bm_bit b j))) \<or>
         (bitmap_allocate b blocks = Some (0, b) \<and>
            (\<forall>s. s + unat blocks \<le> unat (bm_block_cnt b) \<longrightarrow> \<not> free_run b s (unat blocks)))"
  using assms by (cases rule: bitmap_allocate_cases) blast+

abbreviation bm_example :: bitmap where
  "bm_example \<equiv> \<lparr>bm_bitmap = [3, 0], bm_block_cnt = 12, bm_byte_cnt = 2,
     bm_last_deep_fragmented = 1, bm_mem_start = 0\<rparr>"

lemma bm_example_wf: "bm_wf bm_example"
  by (simp add: bm_wf_def bm_sized_def bm_bit_def bit_numeral_simps)

theorem bitmap_allocate_first_fit_witness:
  "bm_wf bm_example \<and> (0 :: u64) < 3 \<and>
   (\<exists>p b'. bitmap_allocate bm_example 3 = Some (p, b'))"
  using bm_example_wf bitmap_allocate_first_fit [OF bm_example_wf, of 3] by auto

text \<open>C2. Regions handed out by any sequence of allocations are pairwise disjoint: no block is given
  to two callers while both hold it.\<close>

theorem bitmap_live_regions_disjoint:
  assumes "bm_wf b" and "bm_addressable b" and "\<forall>n \<in> set ns. 0 < n"
    and "alloc_all bitmap_allocate b ns = Some (ps, b')"
    and "i < k" and "k < length ps" and "fst (ps ! i) \<noteq> 0" and "fst (ps ! k) \<noteq> 0"
  shows "region (bm_block_of b) (ps ! i) \<inter> region (bm_block_of b) (ps ! k) = {}"
  using assms by (intro bm.alloc_all_disjoint) auto

text \<open>C3. Freeing what was allocated restores the bitmap: marking the returned region as free after a
  successful allocation gives back exactly the old set of used blocks.\<close>

theorem bitmap_alloc_free_roundtrip:
  assumes wf: "bm_wf b" and ad: "bm_addressable b" and n: "0 < n"
    and al: "bitmap_allocate b n = Some (p, b')" and p: "p \<noteq> 0"
  shows "\<exists>b''. bitmap_mark_region b' p (n * 4096) False = Some b'' \<and> bm_wf b'' \<and> bm_bit b'' = bm_bit b"
  using wf n
proof (cases rule: bitmap_allocate_cases)
  case (found r b1)
  then have eq: "p = to_ptr b' r" "b' = b1" using al by (auto simp: to_ptr_def)
  have fit: "unat r + unat n \<le> unat (bm_block_cnt b')" using found eq by (simp add: first_fit_def)
  have "unat n * 4096 \<le> unat (bm_block_cnt b) * 4096"
    using found(1) by (intro mult_le_mono1) (simp add: first_fit_def)
  then have n': "unat n * 4096 < 2 ^ 64" using ad by (simp add: bm_addressable_def)
  have "\<not> bm_bit b j" if "in_range r n j" for j
    using found(1) that free_runD [of b "unat r" "unat n" j] by (simp add: first_fit_def in_range_def)
  then show ?thesis
    using bitmap_mark_region_free [OF _ addressable_block(1) [OF ad found(1) n] fit n'] found eq
    by (auto simp: fun_eq_iff)
next
  case full
  then show ?thesis using al p by simp
qed

lemma bm_example_alloc:
  "bitmap_allocate bm_example 3 = Some (8192, bm_example\<lparr>bm_bitmap := [31, 0]\<rparr>)"
  by (simp add: bitmap_allocate_def find_free_region_def find_free_loop.simps bitmap_get_def bitmap_set_def
      bitmap_mark_blocks_def mark_loop.simps to_ptr_def Let_def)

theorem bitmap_live_regions_disjoint_witness:
  "\<exists>ps b'. alloc_all bitmap_allocate bm_example [3, 2] = Some (ps, b') \<and>
     region (bm_block_of bm_example) (ps ! 0) \<inter> region (bm_block_of bm_example) (ps ! 1) = {}"
proof -
  have a: "alloc_all bitmap_allocate bm_example [3, 2] =
      Some ([(8192, 3), (20480, 2)], bm_example\<lparr>bm_bitmap := [127, 0]\<rparr>)"
    by (simp add: bm_example_alloc) (simp add: bitmap_allocate_def find_free_region_def
      find_free_loop.simps bitmap_get_def bitmap_set_def bitmap_mark_blocks_def mark_loop.simps to_ptr_def Let_def)
  have "bm_addressable bm_example" by (simp add: bm_addressable_def)
  then show ?thesis
    using a bitmap_live_regions_disjoint [OF bm_example_wf _ _ a, of 0 1] by simp
qed

theorem bitmap_alloc_free_roundtrip_witness:
  "\<exists>b''. bitmap_mark_region (bm_example\<lparr>bm_bitmap := [31, 0]\<rparr>) 8192 (3 * 4096) False = Some b'' \<and>
     bm_wf b'' \<and> bm_bit b'' = bm_bit bm_example"
proof -
  have "bm_addressable bm_example" by (simp add: bm_addressable_def)
  then show ?thesis
    using bitmap_alloc_free_roundtrip [OF bm_example_wf _ _ bm_example_alloc] by simp
qed

end
