(* ===== verification/Links.thy ===== *)
theory Links
  imports Prelude "HOL-Library.Multiset"
begin

text \<open>
  Intrusive doubly linked lists. The kernel links its objects (threads, hash entries, slabs,
  deferred calls, address ranges) through \<open>next\<close> and \<open>prev\<close> fields of the objects
  themselves. A store is a function from addresses to objects; a null pointer is \<open>None\<close>.

  \<open>dseg nx pv pr xs suc\<close> says that the fields \<open>nx\<close> and \<open>pv\<close> link the objects \<open>xs\<close>, in
  this order, between the neighbour \<open>pr\<close> on the left and \<open>suc\<close> on the right. The lemmas
  give the effect of the pointer assignments the kernel performs (insertion at both ends and after a
  node, removal) on the list that the pointers represent, so that a component proves its pointer code
  against plain list operations.
\<close>

type_synonym 'p ptr = "'p option"

definition first_ptr :: "'p list \<Rightarrow> 'p ptr \<Rightarrow> 'p ptr" where
  "first_ptr xs suc = (case xs of [] \<Rightarrow> suc | x # _ \<Rightarrow> Some x)"

definition last_ptr :: "'p list \<Rightarrow> 'p ptr \<Rightarrow> 'p ptr" where
  "last_ptr xs pr = (if xs = [] then pr else Some (last xs))"

lemma first_ptr_simps [simp]:
  "first_ptr [] s = s" "first_ptr (x # xs) s = Some x"
  "first_ptr (xs @ ys) s = first_ptr xs (first_ptr ys s)"
  by (auto simp: first_ptr_def split: list.split)

lemma last_ptr_simps [simp]:
  "last_ptr [] p = p" "last_ptr (x # xs) p = last_ptr xs (Some x)"
  "last_ptr (xs @ ys) p = last_ptr ys (last_ptr xs p)" "last_ptr (xs @ [x]) p = Some x"
  by (auto simp: last_ptr_def)

lemma first_ptr_None_iff [simp]: "first_ptr xs None = None \<longleftrightarrow> xs = []"
  by (cases xs) auto

lemma last_ptr_None_iff [simp]: "last_ptr xs None = None \<longleftrightarrow> xs = []"
  by (auto simp: last_ptr_def)

lemma first_ptr_nonempty: "xs \<noteq> [] \<Longrightarrow> first_ptr xs s = Some (hd xs)"
  by (cases xs) auto

lemma last_ptr_nonempty: "xs \<noteq> [] \<Longrightarrow> last_ptr xs p = Some (last xs)"
  by (simp add: last_ptr_def)

primrec dseg :: "('p \<Rightarrow> 'p ptr) \<Rightarrow> ('p \<Rightarrow> 'p ptr) \<Rightarrow> 'p ptr \<Rightarrow> 'p list \<Rightarrow> 'p ptr \<Rightarrow> bool" where
  "dseg nx pv pr [] suc = True"
| "dseg nx pv pr (x # xs) suc =
     (pv x = pr \<and> nx x = first_ptr xs suc \<and> dseg nx pv (Some x) xs suc)"

lemma dseg_append [simp]:
  "dseg nx pv pr (xs @ ys) suc \<longleftrightarrow>
     dseg nx pv pr xs (first_ptr ys suc) \<and> dseg nx pv (last_ptr xs pr) ys suc"
  by (induction xs arbitrary: pr) auto

lemma dseg_nx_other [simp]: "a \<notin> set xs \<Longrightarrow> dseg (nx(a := v)) pv pr xs suc = dseg nx pv pr xs suc"
  by (induction xs arbitrary: pr) auto

lemma dseg_pv_other [simp]: "a \<notin> set xs \<Longrightarrow> dseg nx (pv(a := v)) pr xs suc = dseg nx pv pr xs suc"
  by (induction xs arbitrary: pr) auto

text \<open>Redirecting the outer pointer of the last and of the first object.\<close>

lemma dseg_set_suc:
  assumes "dseg nx pv pr xs suc" "distinct xs" "xs \<noteq> []"
  shows "dseg (nx(last xs := suc')) pv pr xs suc'"
  using assms
proof (induction xs arbitrary: pr)
  case Nil
  then show ?case by simp
next
  case (Cons x xs)
  then show ?case by (cases "xs = []") (auto simp: first_ptr_nonempty)
qed

lemma dseg_set_pr:
  assumes "dseg nx pv pr xs suc" "distinct xs" "xs \<noteq> []"
  shows "dseg nx (pv(hd xs := pr')) pr' xs suc"
  using assms by (cases xs) auto

subsection \<open>Insertion\<close>

lemma dseg_push_front:
  assumes "dseg nx pv None xs None" "distinct xs" "x \<notin> set xs"
  shows "dseg (nx(x := first_ptr xs None))
    (case first_ptr xs None of None \<Rightarrow> pv(x := None) | Some y \<Rightarrow> (pv(x := None))(y := Some x))
    None (x # xs) None"
proof (cases xs)
  case Nil
  then show ?thesis by simp
next
  case (Cons y ys)
  then show ?thesis using assms by auto
qed

lemma dseg_push_back:
  assumes "dseg nx pv None xs None" "distinct xs" "x \<notin> set xs"
  shows "dseg (case last_ptr xs None of None \<Rightarrow> nx(x := None) | Some y \<Rightarrow> (nx(y := Some x))(x := None))
    (pv(x := last_ptr xs None)) None (xs @ [x]) None"
proof (cases "xs = []")
  case True
  then show ?thesis by simp
next
  case False
  then have "dseg (nx(last xs := Some x)) pv None xs (Some x)"
    using assms dseg_set_suc by blast
  then show ?thesis using assms False by (auto simp: last_ptr_nonempty)
qed

lemma dseg_insert_after:
  assumes "dseg nx pv None (xs @ a # ys) None" "distinct (xs @ a # ys)" "x \<notin> set (xs @ a # ys)"
  shows "dseg (nx(x := first_ptr ys None, a := Some x))
    (case first_ptr ys None of None \<Rightarrow> pv(x := Some a) | Some y \<Rightarrow> pv(x := Some a, y := Some x))
    None (xs @ a # x # ys) None"
  using assms by (cases ys) auto

subsection \<open>Removal\<close>

lemma dseg_mid:
  assumes "dseg nx pv pr (xs @ x # ys) suc"
  shows "pv x = last_ptr xs pr" "nx x = first_ptr ys suc"
  using assms by auto

lemma dseg_unlink:
  assumes d: "dseg nx pv None (xs @ x # ys) None" and dist: "distinct (xs @ x # ys)"
  shows "dseg (case pv x of None \<Rightarrow> nx | Some p \<Rightarrow> nx(p := nx x))
    (case nx x of None \<Rightarrow> pv | Some n \<Rightarrow> pv(n := pv x)) None (xs @ ys) None"
proof -
  have m: "pv x = last_ptr xs None" "nx x = first_ptr ys None" using dseg_mid [OF d] by auto
  have l: "dseg (case pv x of None \<Rightarrow> nx | Some p \<Rightarrow> nx(p := nx x)) pv None xs (first_ptr ys None)"
  proof (cases "xs = []")
    case True
    then show ?thesis by simp
  next
    case False
    then have "dseg (nx(last xs := first_ptr ys None)) pv None xs (first_ptr ys None)"
      using d dist dseg_set_suc [of nx pv None xs "Some x"] by auto
    then show ?thesis using False m by (simp add: last_ptr_nonempty)
  qed
  have r: "dseg nx (case nx x of None \<Rightarrow> pv | Some n \<Rightarrow> pv(n := pv x)) (last_ptr xs None) ys None"
  proof (cases "ys = []")
    case True
    then show ?thesis by simp
  next
    case False
    then have "dseg nx (pv(hd ys := last_ptr xs None)) (last_ptr xs None) ys None"
      using d dist dseg_set_pr [of nx pv "Some x" ys None] by auto
    then show ?thesis using False m by (simp add: first_ptr_nonempty)
  qed
  have "last_ptr xs None = Some p \<Longrightarrow> p \<notin> set ys" "first_ptr ys None = Some q \<Longrightarrow> q \<notin> set xs" for p q
    using dist by (auto simp: last_ptr_def first_ptr_def disjoint_iff split: if_splits list.splits)
  then show ?thesis using l r m by (auto split: option.splits)
qed

subsection \<open>Walking a list\<close>

text \<open>The loop \<open>for(e = head; e && !p(e); e = e->next)\<close>, which does not return on a cyclic list.\<close>

partial_function (option) walk :: "('p \<Rightarrow> 'p ptr) \<Rightarrow> ('p \<Rightarrow> bool) \<Rightarrow> 'p ptr \<Rightarrow> 'p ptr option" where
  "walk nx p e =
     (case e of None \<Rightarrow> Some None | Some a \<Rightarrow> if p a then Some e else walk nx p (nx a))"

lemma walk_dseg:
  assumes "dseg nx pv pr xs None"
  shows "walk nx p (first_ptr xs None) = Some (List.find p xs)"
  using assms
proof (induction xs arbitrary: pr)
  case Nil
  then show ?case by (simp add: walk.simps)
next
  case (Cons x xs)
  then show ?case by (subst walk.simps) auto
qed

subsection \<open>Fields of the objects in a store\<close>

text \<open>A field of the objects of a store, seen as a function of the address: an assignment to an object
  updates the fields it names at that address and leaves the others.\<close>

lemma comp_upd_same: "(f \<circ> h)(a := f (h a)) = f \<circ> h"
  by (simp add: fun_eq_iff)

lemma comp_upd_same2: "a \<noteq> b \<Longrightarrow> (f \<circ> h)(a := v, b := f (h b)) = (f \<circ> h)(a := v)"
  by (auto simp: fun_eq_iff)

lemmas field_simps_store = fun_upd_comp comp_upd_same comp_upd_same2

subsection \<open>Arrays of lists\<close>

text \<open>Replacing one list of an array of lists by another.\<close>

lemma mset_concat_update:
  assumes "i < length bs"
  shows "mset (concat (bs[i := zs])) + mset (bs ! i) = mset (concat bs) + mset zs"
proof -
  have "concat bs = concat (take i bs) @ bs ! i @ concat (drop (Suc i) bs)"
    using id_take_nth_drop [OF assms] by (metis concat.simps(2) concat_append)
  moreover have "concat (bs[i := zs]) = concat (take i bs) @ zs @ concat (drop (Suc i) bs)"
    using assms by (simp add: upd_conv_take_nth_drop)
  ultimately show ?thesis by (simp add: ac_simps)
qed

lemma mset_concat_cons:
  "i < length bs \<Longrightarrow> mset (concat (bs[i := e # bs ! i])) = add_mset e (mset (concat bs))"
  using mset_concat_update [of i bs "e # bs ! i"] by simp

lemma mset_concat_unlink:
  assumes "i < length bs" "bs ! i = xs @ e # ys"
  shows "mset (concat bs) = add_mset e (mset (concat (bs[i := xs @ ys])))"
  using mset_concat_update [OF assms(1), of "xs @ ys"] assms(2) by simp

lemma set_concat_mset: "mset xs = add_mset e (mset ys) \<Longrightarrow> set xs = insert e (set ys)"
  by (metis set_mset_add_mset_insert set_mset_mset)

lemma distinct_map_mset:
  assumes "mset xs = add_mset e (mset ys)"
  shows "distinct (map f xs) \<longleftrightarrow> f e \<notin> f ` set ys \<and> distinct (map f ys)"
proof -
  have "mset (map f xs) = mset (map f (e # ys))" using assms by simp
  then have "distinct (map f xs) \<longleftrightarrow> distinct (map f (e # ys))" by (rule mset_eq_imp_distinct_iff)
  then show ?thesis by simp
qed

lemma mset_concat_snoc:
  "i < length bs \<Longrightarrow> mset (concat (bs[i := bs ! i @ [e]])) = add_mset e (mset (concat bs))"
  using mset_concat_update [of i bs "bs ! i @ [e]"] by simp

lemma distinct_mset_add:
  "mset xs = add_mset e (mset ys) \<Longrightarrow> distinct xs \<longleftrightarrow> e \<notin> set ys \<and> distinct ys"
  using distinct_map_mset [of xs e ys id] by simp

lemma distinct_concat_disjoint:
  assumes "distinct (concat bs)" "i < length bs" "j < length bs" "i \<noteq> j" "a \<in> set (bs ! i)"
  shows "a \<notin> set (bs ! j)"
proof
  assume "a \<in> set (bs ! j)"
  then obtain xs ys where b: "bs ! i = xs @ a # ys" using split_list [OF assms(5)] by blast
  let ?bs = "bs[i := xs @ ys]"
  have "a \<notin> set (concat ?bs)"
    using distinct_mset_add [OF mset_concat_unlink [OF assms(2) b]] assms(1) by blast
  moreover have "a \<in> set (?bs ! j)" using \<open>a \<in> set (bs ! j)\<close> assms(4) by simp
  ultimately show False using nth_in_concat [of j ?bs a] assms(3) by simp
qed

end
