(* ===== verification/Hashtable.thy ===== *)
theory Hashtable
  imports Links
begin

text \<open>
  The chained hash table of \<^verbatim>\<open>kernel/lib/hashtable.c\<close> with the FNV-1a hash of
  \<^verbatim>\<open>include/sys/hash.h\<close>. The entries live in a store; each bucket is a doubly linked chain of
  entries. The results of \<open>slab_alloc\<close> and \<open>kmalloc\<close> are arguments of the operations that call
  them. The lemmas show that the pointer code implements a finite map from byte strings to values.
\<close>

subsection \<open>Model\<close>

type_synonym bytes = "u8 list"

definition FNV1PRIME :: u64 where "FNV1PRIME = 0x100000001b3"
definition FNV1OFFSET :: u64 where "FNV1OFFSET = 0xcbf29ce484222325"

primrec fnv1a_loop :: "u64 \<Rightarrow> bytes \<Rightarrow> u64" where
  "fnv1a_loop h [] = h"
| "fnv1a_loop h (c # cs) = fnv1a_loop ((h XOR ucast c) * FNV1PRIME) cs"

definition fnv1ahash :: "bytes \<Rightarrow> u64" where
  "fnv1ahash buffer = fnv1a_loop FNV1OFFSET buffer"

record 'v hashentry =
  he_next :: "nat ptr"
  he_prev :: "nat ptr"
  he_hash :: u64
  he_keysize :: nat
  he_key :: bytes
  he_value :: 'v

text \<open>\<open>ht_store\<close> is the memory of the entries; \<open>ht_entries\<close> the array of bucket heads.\<close>

record 'v hashtable =
  ht_entry_count :: u64
  ht_capacity :: u64
  ht_entries :: "nat ptr list"
  ht_store :: "nat \<Rightarrow> 'v hashentry"

definition entry_matches :: "'v hashentry \<Rightarrow> bytes \<Rightarrow> u64 \<Rightarrow> bool" where
  "entry_matches e key hash \<longleftrightarrow>
     he_keysize e = length key \<and> he_hash e = hash \<and> he_key e = key"

definition bucket_of :: "'v hashtable \<Rightarrow> u64 \<Rightarrow> nat" where
  "bucket_of t hash = unat (hash mod ht_capacity t)"

text \<open>The result is \<open>None\<close> when the capacity is zero (a division trap), when the bucket index is outside
  the array, or when the walk does not end.\<close>

definition get_entry :: "'v hashtable \<Rightarrow> bytes \<Rightarrow> u64 \<Rightarrow> nat ptr option" where
  "get_entry t key hash =
     (let tableoffset = bucket_of t hash
      in if ht_capacity t \<noteq> 0 \<and> tableoffset < length (ht_entries t)
         then walk (he_next \<circ> ht_store t) (\<lambda>a. entry_matches (ht_store t a) key hash)
                (ht_entries t ! tableoffset)
         else None)"

text \<open>
  \<open>hashtable_set\<close>. The argument \<open>slot\<close> is the result of \<open>slab_alloc(hash_entry_cache)\<close> and
  \<open>keybuf\<close> says whether \<open>kmalloc(keysize)\<close> succeeded; if not, the code gives the entry back with
  \<open>slab_free\<close>, so what is in it is not the table's any more. The result is the error code and the table.
\<close>

definition hashtable_set ::
  "'v hashtable \<Rightarrow> 'v \<Rightarrow> bytes \<Rightarrow> bool \<Rightarrow> nat ptr \<Rightarrow> bool \<Rightarrow> (errno \<times> 'v hashtable) option" where
  "hashtable_set t val key allocate slot keybuf = do {
     let hash = fnv1ahash key;
     entry \<leftarrow> get_entry t key hash;
     case entry of
       Some e \<Rightarrow> Some (0, t\<lparr>ht_store := (ht_store t)(e := (ht_store t e)\<lparr>he_value := val\<rparr>)\<rparr>)
     | None \<Rightarrow>
         if \<not> allocate then Some (ENOENT, t)
         else (case slot of
             None \<Rightarrow> Some (ENOMEM, t)
           | Some e \<Rightarrow>
               if \<not> keybuf then Some (ENOMEM, t)
               else
                 let off = bucket_of t hash;
                     head = ht_entries t ! off;
                     h1 = (ht_store t)(e := (ht_store t e)\<lparr>he_key := key, he_prev := None, he_next := head\<rparr>);
                     h2 = (case head of None \<Rightarrow> h1 | Some n \<Rightarrow> h1(n := (h1 n)\<lparr>he_prev := Some e\<rparr>));
                     h3 = h2(e := (h2 e)\<lparr>he_value := val, he_keysize := length key, he_hash := hash\<rparr>)
                 in Some (0, t\<lparr>ht_store := h3, ht_entries := (ht_entries t)[off := Some e],
                      ht_entry_count := ht_entry_count t + 1\<rparr>))
   }"

definition hashtable_get :: "'v hashtable \<Rightarrow> bytes \<Rightarrow> (errno + 'v) option" where
  "hashtable_get t key = do {
     let hash = fnv1ahash key;
     entry \<leftarrow> get_entry t key hash;
     case entry of
       None \<Rightarrow> Some (Inl ENOENT)
     | Some e \<Rightarrow> Some (Inr (he_value (ht_store t e)))
   }"

definition hashtable_remove :: "'v hashtable \<Rightarrow> bytes \<Rightarrow> (errno \<times> 'v hashtable) option" where
  "hashtable_remove t key = do {
     let hash = fnv1ahash key;
     let off = bucket_of t hash;
     entry \<leftarrow> get_entry t key hash;
     case entry of
       None \<Rightarrow> Some (ENOENT, t)
     | Some e \<Rightarrow>
         let x = ht_store t e;
             t1 = (case he_prev x of
                 Some p \<Rightarrow> t\<lparr>ht_store := (ht_store t)(p := (ht_store t p)\<lparr>he_next := he_next x\<rparr>)\<rparr>
               | None \<Rightarrow> t\<lparr>ht_entries := (ht_entries t)[off := he_next x]\<rparr>);
             t2 = (case he_next x of
                 Some n \<Rightarrow> t1\<lparr>ht_store := (ht_store t1)(n := (ht_store t1 n)\<lparr>he_prev := he_prev x\<rparr>)\<rparr>
               | None \<Rightarrow> t1)
         in Some (0, t2\<lparr>ht_entry_count := ht_entry_count t2 - 1\<rparr>)
   }"

text \<open>
  \<open>hashtable_init\<close>. \<open>cache_ok\<close>: the entry cache exists or could be created; \<open>table\<close> is the memory
  \<open>kmalloc\<close> returned, of which \<open>memset\<close> clears the first pointer only. With a null \<open>table\<close> the
  \<open>memset\<close> writes through the null pointer.
\<close>

definition hashtable_init ::
  "'v hashtable \<Rightarrow> u64 \<Rightarrow> bool \<Rightarrow> nat ptr list option \<Rightarrow> (errno \<times> 'v hashtable) option" where
  "hashtable_init t sz cache_ok table =
     (if \<not> cache_ok then Some (ENOMEM, t)
      else case table of
          None \<Rightarrow> None
        | Some mem \<Rightarrow> Some (0, t\<lparr>ht_capacity := sz, ht_entries := mem[0 := None]\<rparr>))"

text \<open>\<open>HASHTABLE_FOREACH\<close>: the entries of all buckets, in bucket order.\<close>

partial_function (option) chain :: "('p \<Rightarrow> 'p ptr) \<Rightarrow> 'p ptr \<Rightarrow> 'p list option" where
  "chain nx e = (case e of None \<Rightarrow> Some []
     | Some a \<Rightarrow> chain nx (nx a) \<bind> (\<lambda>r. Some (a # r)))"

primrec chains :: "('p \<Rightarrow> 'p ptr) \<Rightarrow> 'p ptr list \<Rightarrow> 'p list option" where
  "chains nx [] = Some []"
| "chains nx (e # es) = chain nx e \<bind> (\<lambda>xs. chains nx es \<bind> (\<lambda>ys. Some (xs @ ys)))"

definition hashtable_foreach :: "'v hashtable \<Rightarrow> nat list option" where
  "hashtable_foreach t =
     (if unat (ht_capacity t) \<le> length (ht_entries t)
      then chains (he_next \<circ> ht_store t) (take (unat (ht_capacity t)) (ht_entries t)) else None)"

definition hashtable_size :: "'v hashtable \<Rightarrow> u64 option" where
  "hashtable_size t = hashtable_foreach t \<bind> (\<lambda>xs. Some (of_nat (length xs)))"

text \<open>\<open>hashtable_destroy\<close>: the entries passed to \<open>slab_free\<close>, in order, each after its key is given to \<open>kfree\<close>. Once an entry is
  freed its content is \<open>junk\<close>, whatever the allocator leaves there; the loop copies the entry before and reads \<open>next\<close> in the copy.\<close>

partial_function (option) destroy_chain ::
  "(nat \<Rightarrow> 'v hashentry) \<Rightarrow> (nat \<Rightarrow> 'v hashentry) \<Rightarrow> nat ptr \<Rightarrow> (nat list \<times> (nat \<Rightarrow> 'v hashentry)) option" where
  "destroy_chain junk st entry = (case entry of None \<Rightarrow> Some ([], st)
     | Some e \<Rightarrow> (let saved_entry = st e in
         destroy_chain junk (st(e := junk e)) (he_next saved_entry) \<bind> (\<lambda>r. Some (e # fst r, snd r))))"

primrec destroy_chains ::
  "(nat \<Rightarrow> 'v hashentry) \<Rightarrow> (nat \<Rightarrow> 'v hashentry) \<Rightarrow> nat ptr list \<Rightarrow> (nat list \<times> (nat \<Rightarrow> 'v hashentry)) option" where
  "destroy_chains junk st [] = Some ([], st)"
| "destroy_chains junk st (e # es) = do {
     (xs, st) \<leftarrow> destroy_chain junk st e;
     (ys, st) \<leftarrow> destroy_chains junk st es;
     Some (xs @ ys, st)
   }"

definition hashtable_destroy :: "(nat \<Rightarrow> 'v hashentry) \<Rightarrow> 'v hashtable \<Rightarrow> (errno \<times> nat list \<times> 'v hashtable) option" where
  "hashtable_destroy junk t =
     (if unat (ht_capacity t) \<le> length (ht_entries t)
      then do {
        (freed, st) \<leftarrow> destroy_chains junk (ht_store t) (take (unat (ht_capacity t)) (ht_entries t));
        Some (0, freed, t\<lparr>ht_store := st\<rparr>)
      } else None)"

subsection \<open>Representation\<close>

declare set_concat [simp del]

abbreviation key_at :: "'v hashtable \<Rightarrow> nat \<Rightarrow> bytes" where
  "key_at t a \<equiv> he_key (ht_store t a)"

text \<open>\<open>ht_rep t bs\<close>: the chains of the table \<open>t\<close> are the lists of addresses \<open>bs\<close>.\<close>

definition ht_entry_ok :: "'v hashtable \<Rightarrow> nat \<Rightarrow> nat \<Rightarrow> bool" where
  "ht_entry_ok t i a \<longleftrightarrow> he_keysize (ht_store t a) = length (key_at t a) \<and>
     he_hash (ht_store t a) = fnv1ahash (key_at t a) \<and> bucket_of t (fnv1ahash (key_at t a)) = i"

definition ht_rep :: "'v hashtable \<Rightarrow> nat list list \<Rightarrow> bool" where
  "ht_rep t bs \<longleftrightarrow> 0 < ht_capacity t \<and> length bs = unat (ht_capacity t) \<and>
     length (ht_entries t) = length bs \<and>
     (\<forall>i < length bs. ht_entries t ! i = first_ptr (bs ! i) None \<and>
        dseg (he_next \<circ> ht_store t) (he_prev \<circ> ht_store t) None (bs ! i) None) \<and>
     (\<forall>i < length bs. \<forall>a \<in> set (bs ! i). ht_entry_ok t i a) \<and>
     distinct (map (he_key \<circ> ht_store t) (concat bs)) \<and> ht_entry_count t = of_nat (length (concat bs))"

definition ht_inv :: "'v hashtable \<Rightarrow> bool" where
  "ht_inv t \<longleftrightarrow> (\<exists>bs. ht_rep t bs)"

text \<open>The finite map the table stands for, read with \<open>hashtable_get\<close>.\<close>

definition ht_lookup :: "'v hashtable \<Rightarrow> bytes \<Rightarrow> 'v option" where
  "ht_lookup t key = (case hashtable_get t key of Some (Inr v) \<Rightarrow> Some v | _ \<Rightarrow> None)"

text \<open>An address that holds no entry of the table.\<close>

definition ht_fresh :: "'v hashtable \<Rightarrow> nat \<Rightarrow> bool" where
  "ht_fresh t e \<longleftrightarrow> (case hashtable_foreach t of None \<Rightarrow> False | Some xs \<Rightarrow> e \<notin> set xs)"

text \<open>The address of the entry of a key, as the search finds it.\<close>

definition ht_slot :: "'v hashtable \<Rightarrow> bytes \<Rightarrow> nat option" where
  "ht_slot t key = (case get_entry t key (fnv1ahash key) of None \<Rightarrow> None | Some e \<Rightarrow> e)"

lemma bucket_less: "0 < ht_capacity t \<Longrightarrow> bucket_of t hash < unat (ht_capacity t)"
  by (simp add: bucket_of_def unat_mod_distrib word_less_nat_alt)

lemma chain_dseg: "dseg nx pv pr xs None \<Longrightarrow> chain nx (first_ptr xs None) = Some xs"
proof (induction xs arbitrary: pr)
  case Nil
  then show ?case by (simp add: chain.simps)
next
  case (Cons x xs)
  then show ?case by (subst chain.simps) auto
qed

lemma chains_eq:
  assumes "length es = length bs"
    "\<forall>i < length bs. es ! i = first_ptr (bs ! i) None \<and> dseg nx pv None (bs ! i) None"
  shows "chains nx es = Some (concat bs)"
  using assms
proof (induction es bs rule: list_induct2)
  case Nil
  then show ?case by simp
next
  case (Cons e es b bs)
  have "e = first_ptr b None" "dseg nx pv None b None" using Cons.prems by (auto dest: spec [of _ 0])
  moreover have "\<forall>i < length bs. es ! i = first_ptr (bs ! i) None \<and> dseg nx pv None (bs ! i) None"
    using Cons.prems by (auto dest: spec [of _ "Suc _"])
  ultimately show ?case using Cons.IH by (simp add: chain_dseg)
qed

lemma ht_foreach: "ht_rep t bs \<Longrightarrow> hashtable_foreach t = Some (concat bs)"
  using chains_eq [of "ht_entries t" bs "he_next \<circ> ht_store t" "he_prev \<circ> ht_store t"]
  by (simp add: ht_rep_def hashtable_foreach_def)

lemma dseg_cong: "(\<And>a. a \<in> set xs \<Longrightarrow> nx a = nx' a) \<Longrightarrow> dseg nx pv pr xs suc = dseg nx' pv pr xs suc"
  by (induction xs arbitrary: pr) auto

lemma destroy_chain_dseg:
  assumes "dseg (he_next \<circ> st) pv pr xs None" "distinct xs"
  shows "destroy_chain junk st (first_ptr xs None) = Some (xs, \<lambda>a. if a \<in> set xs then junk a else st a)"
  using assms
proof (induction xs arbitrary: pr st)
  case Nil
  then show ?case by (simp add: destroy_chain.simps)
next
  case (Cons x xs)
  let ?st = "st(x := junk x)"
  have "he_next \<circ> ?st = (he_next \<circ> st)(x := he_next (junk x))" by (auto simp: fun_eq_iff)
  moreover have "dseg (he_next \<circ> st) pv (Some x) xs None" "he_next (st x) = first_ptr xs None" "x \<notin> set xs" using Cons.prems by (auto simp: comp_def)
  ultimately have "dseg (he_next \<circ> ?st) pv (Some x) xs None" by simp
  moreover have "distinct xs" using Cons.prems(2) by simp
  ultimately have "destroy_chain junk ?st (first_ptr xs None) = Some (xs, \<lambda>a. if a \<in> set xs then junk a else ?st a)"
    by (rule Cons.IH)
  moreover have "(\<lambda>a. if a \<in> set xs then junk a else ?st a) = (\<lambda>a. if a \<in> set (x # xs) then junk a else st a)"
    by (auto simp: fun_eq_iff)
  ultimately show ?case using \<open>he_next (st x) = first_ptr xs None\<close> by (subst destroy_chain.simps) simp
qed

lemma destroy_chains_eq:
  assumes "length es = length bs" "distinct (concat bs)"
    "\<forall>i < length bs. es ! i = first_ptr (bs ! i) None \<and> dseg (he_next \<circ> st) pv None (bs ! i) None"
  shows "destroy_chains junk st es = Some (concat bs, \<lambda>a. if a \<in> set (concat bs) then junk a else st a)"
  using assms
proof (induction es bs arbitrary: st rule: list_induct2)
  case (Cons e es b bs)
  let ?st = "\<lambda>a. if a \<in> set b then junk a else st a"
  have "e = first_ptr b None" "dseg (he_next \<circ> st) pv None b None" using spec [OF Cons.prems(2), of 0] by (simp_all add: comp_def)
  then have one: "destroy_chain junk st e = Some (b, ?st)" using destroy_chain_dseg Cons.prems(1) by auto
  have chains: "\<forall>i < length bs. es ! i = first_ptr (bs ! i) None \<and> dseg (he_next \<circ> ?st) pv None (bs ! i) None"
  proof (intro allI impI)
    fix i assume i: "i < length bs"
    have "es ! i = first_ptr (bs ! i) None" "dseg (he_next \<circ> st) pv None (bs ! i) None"
      using spec [OF Cons.prems(2), of "Suc i"] i by (simp_all add: comp_def)
    moreover have "a \<notin> set b" if "a \<in> set (bs ! i)" for a using Cons.prems(1) nth_in_concat [OF i that] by auto
    then have "(he_next \<circ> ?st) a = (he_next \<circ> st) a" if "a \<in> set (bs ! i)" for a using that by simp
    then have "dseg (he_next \<circ> ?st) pv None (bs ! i) None = dseg (he_next \<circ> st) pv None (bs ! i) None" by (rule dseg_cong)
    ultimately show "es ! i = first_ptr (bs ! i) None \<and> dseg (he_next \<circ> ?st) pv None (bs ! i) None" by simp
  qed
  have "distinct (concat bs)" using Cons.prems(1) by simp
  then have "destroy_chains junk ?st es = Some (concat bs, \<lambda>a. if a \<in> set (concat bs) then junk a else ?st a)"
    using chains by (rule Cons.IH)
  then show ?case using one by (auto simp: fun_eq_iff)
qed simp

lemma ht_destroy:
  "ht_rep t bs \<Longrightarrow> hashtable_destroy junk t =
     Some (0, concat bs, t\<lparr>ht_store := \<lambda>a. if a \<in> set (concat bs) then junk a else ht_store t a\<rparr>)"
  using destroy_chains_eq [of "ht_entries t" bs "ht_store t" "he_prev \<circ> ht_store t" junk]
  by (simp add: ht_rep_def hashtable_destroy_def distinct_map)

lemma in_bucket:
  assumes rep: "ht_rep t bs" and a: "a \<in> set (concat bs)"
  shows "a \<in> set (bs ! bucket_of t (fnv1ahash (key_at t a)))"
proof -
  obtain i where "i < length bs" "a \<in> set (bs ! i)" using a by (auto simp: in_set_concat_nth)
  then show ?thesis using rep by (auto simp: ht_rep_def ht_entry_ok_def)
qed

lemma key_inj:
  assumes "ht_rep t bs" "a \<in> set (concat bs)" "b \<in> set (concat bs)" "key_at t a = key_at t b"
  shows "a = b"
  using assms by (auto simp: ht_rep_def distinct_map inj_on_def)

text \<open>The search terminates and finds the entry of the key, if there is one.\<close>

lemma get_entry_cases:
  assumes rep: "ht_rep t bs"
  obtains (found) a where "get_entry t key (fnv1ahash key) = Some (Some a)" "a \<in> set (concat bs)"
      "a \<in> set (bs ! bucket_of t (fnv1ahash key))" "key_at t a = key"
    | (absent) "get_entry t key (fnv1ahash key) = Some None" "\<forall>a \<in> set (concat bs). key_at t a \<noteq> key"
proof -
  let ?i = "bucket_of t (fnv1ahash key)"
  let ?p = "\<lambda>a. entry_matches (ht_store t a) key (fnv1ahash key)"
  have i: "?i < length bs" using rep bucket_less by (auto simp: ht_rep_def)
  have "walk (he_next \<circ> ht_store t) ?p (ht_entries t ! ?i) = Some (List.find ?p (bs ! ?i))"
    using rep i walk_dseg [of "he_next \<circ> ht_store t" "he_prev \<circ> ht_store t" None "bs ! ?i"]
    by (auto simp: ht_rep_def)
  then have g: "get_entry t key (fnv1ahash key) = Some (List.find ?p (bs ! ?i))"
    using rep i by (simp add: get_entry_def ht_rep_def word_neq_0_conv)
  have inc: "a \<in> set (bs ! ?i) \<Longrightarrow> a \<in> set (concat bs)" for a by (rule nth_in_concat [OF i])
  show ?thesis
  proof (cases "List.find ?p (bs ! ?i)")
    case None
    have "key_at t a \<noteq> key" if a: "a \<in> set (concat bs)" for a
    proof
      assume k: "key_at t a = key"
      then have "a \<in> set (bs ! ?i)" using in_bucket [OF rep a] by simp
      moreover from this have "?p a" using rep i k by (auto simp: entry_matches_def ht_rep_def ht_entry_ok_def)
      ultimately show False using None by (simp add: find_None_iff)
    qed
    then show ?thesis using None g absent by auto
  next
    case (Some a)
    then have "a \<in> set (bs ! ?i)" "?p a" by (auto simp: find_Some_iff)
    then show ?thesis using Some g inc found by (auto simp: entry_matches_def)
  qed
qed

lemma ht_get:
  assumes rep: "ht_rep t bs"
  shows "hashtable_get t key = (case List.find (\<lambda>a. key_at t a = key) (concat bs) of
     None \<Rightarrow> Some (Inl ENOENT) | Some a \<Rightarrow> Some (Inr (he_value (ht_store t a))))"
  using rep
proof (cases rule: get_entry_cases [where key = key])
  case (found a)
  obtain b where b: "List.find (\<lambda>a. key_at t a = key) (concat bs) = Some b"
    using found by (cases "List.find (\<lambda>a. key_at t a = key) (concat bs)") (auto simp: find_None_notin)
  then have "b \<in> set (concat bs)" "key_at t b = key" using find_SomeD [OF b] by auto
  then have "a = b" using found key_inj [OF rep] by blast
  then show ?thesis using found b by (simp add: hashtable_get_def)
next
  case absent
  then have "List.find (\<lambda>a. key_at t a = key) (concat bs) = None" by (auto simp: find_None_iff)
  then show ?thesis using absent by (simp add: hashtable_get_def)
qed

lemma ht_lookup_eq:
  "ht_rep t bs \<Longrightarrow> ht_lookup t key =
     map_option (\<lambda>a. he_value (ht_store t a)) (List.find (\<lambda>a. key_at t a = key) (concat bs))"
  by (simp add: ht_lookup_def ht_get split: option.split)

lemma ht_lookup_Some_iff:
  assumes rep: "ht_rep t bs"
  shows "ht_lookup t key = Some v \<longleftrightarrow>
    (\<exists>a. a \<in> set (concat bs) \<and> key_at t a = key \<and> he_value (ht_store t a) = v)"
proof (cases "List.find (\<lambda>a. key_at t a = key) (concat bs)")
  case None
  then have "\<forall>a \<in> set (concat bs). key_at t a \<noteq> key" by (simp add: find_None_notin)
  then show ?thesis unfolding ht_lookup_eq [OF rep] None by auto
next
  case (Some b)
  then have b: "b \<in> set (concat bs)" "key_at t b = key" using find_SomeD [OF Some] by auto
  then have "a = b" if "a \<in> set (concat bs)" "key_at t a = key" for a
    using key_inj [OF rep that(1) b(1)] that by simp
  then show ?thesis unfolding ht_lookup_eq [OF rep] Some option.map option.inject using b by blast
qed

lemma ht_get_lookup:
  "ht_inv t \<Longrightarrow> hashtable_get t key =
     Some (case ht_lookup t key of None \<Rightarrow> Inl ENOENT | Some v \<Rightarrow> Inr v)"
  by (auto simp: ht_inv_def ht_lookup_def ht_get split: option.splits)

lemma ht_fresh_iff: "ht_rep t bs \<Longrightarrow> ht_fresh t e \<longleftrightarrow> e \<notin> set (concat bs)"
  by (simp add: ht_fresh_def ht_foreach)

lemma ht_slot_iff:
  assumes rep: "ht_rep t bs"
  shows "ht_slot t k = Some a \<longleftrightarrow> a \<in> set (concat bs) \<and> key_at t a = k"
  using rep
proof (cases rule: get_entry_cases [where key = k])
  case (found b)
  then have "a = b" if "a \<in> set (concat bs)" "key_at t a = k" using key_inj [OF rep that(1)] that by blast
  then show ?thesis using found by (auto simp: ht_slot_def)
qed (auto simp: ht_slot_def)

lemma ht_slot_eqI:
  assumes "ht_rep t bs" "\<And>k a. m k = Some a \<longleftrightarrow> a \<in> set (concat bs) \<and> key_at t a = k"
  shows "ht_slot t = m"
proof
  fix k
  have "ht_slot t k = Some a \<longleftrightarrow> m k = Some a" for a using ht_slot_iff [OF assms(1)] assms(2) by blast
  then show "ht_slot t k = m k" by (metis not_Some_eq)
qed

lemma ht_fresh_slot: "ht_inv t \<Longrightarrow> ht_fresh t e \<longleftrightarrow> e \<notin> ran (ht_slot t)"
  by (auto simp: ht_inv_def ran_def ht_fresh_iff ht_slot_iff)

lemma ht_slot_lookup: "ht_inv t \<Longrightarrow> ht_slot t k = None \<longleftrightarrow> ht_lookup t k = None"
proof -
  assume "ht_inv t"
  then obtain bs where rep: "ht_rep t bs" by (auto simp: ht_inv_def)
  have "(\<exists>a. ht_slot t k = Some a) \<longleftrightarrow> (\<exists>v. ht_lookup t k = Some v)"
    unfolding ht_slot_iff [OF rep] ht_lookup_Some_iff [OF rep] by blast
  then show ?thesis by (metis not_Some_eq)
qed

lemma ht_set_existing:
  assumes rep: "ht_rep t bs"
  shows "ht_rep (t\<lparr>ht_store := (ht_store t)(e := (ht_store t e)\<lparr>he_value := v\<rparr>)\<rparr>) bs"
proof -
  let ?t = "t\<lparr>ht_store := (ht_store t)(e := (ht_store t e)\<lparr>he_value := v\<rparr>)\<rparr>"
  have "ht_entry_ok ?t = ht_entry_ok t" by (auto simp: fun_eq_iff ht_entry_ok_def bucket_of_def)
  then show ?thesis using rep by (simp add: ht_rep_def field_simps_store)
qed

lemma ht_set_new:
  assumes rep: "ht_rep t bs" and fr: "e \<notin> set (concat bs)" and ab: "\<forall>a \<in> set (concat bs). key_at t a \<noteq> key"
    and off: "off = bucket_of t (fnv1ahash key)" and hd: "head = ht_entries t ! off"
    and h1: "h1 = (ht_store t)(e := (ht_store t e)\<lparr>he_key := key, he_prev := None, he_next := head\<rparr>)"
    and h2: "h2 = (case head of None \<Rightarrow> h1 | Some n \<Rightarrow> h1(n := (h1 n)\<lparr>he_prev := Some e\<rparr>))"
    and h3: "h3 = h2(e := (h2 e)\<lparr>he_value := v, he_keysize := length key, he_hash := fnv1ahash key\<rparr>)"
    and t': "t' = t\<lparr>ht_store := h3, ht_entries := (ht_entries t)[off := Some e],
                 ht_entry_count := ht_entry_count t + 1\<rparr>"
  shows "ht_rep t' (bs[off := e # bs ! off])" "he_value (h3 e) = v" "he_key (h3 e) = key"
    "\<And>a. a \<noteq> e \<Longrightarrow> he_value (h3 a) = he_value (ht_store t a) \<and> he_key (h3 a) = he_key (ht_store t a)"
proof -
  let ?bs = "bs[off := e # bs ! off]"
  have l: "off < length bs" using rep off bucket_less by (auto simp: ht_rep_def)
  have head: "head = first_ptr (bs ! off) None" and chain: "dseg (he_next \<circ> ht_store t) (he_prev \<circ> ht_store t) None (bs ! off) None"
    using rep l hd by (auto simp: ht_rep_def)
  have ne: "head = Some n \<Longrightarrow> n \<in> set (bs ! off)" for n
    using head by (cases "bs ! off") auto
  have fr': "e \<notin> set (bs ! i)" if "i < length bs" for i using fr nth_in_concat [OF that] by blast
  have nxt: "he_next \<circ> h3 = (he_next \<circ> ht_store t)(e := head)"
    unfolding h3 h2 h1 by (auto simp: fun_eq_iff split: option.split)
  have prv: "he_prev \<circ> h3 = (case head of None \<Rightarrow> (he_prev \<circ> ht_store t)(e := None)
      | Some y \<Rightarrow> ((he_prev \<circ> ht_store t)(e := None))(y := Some e))"
    unfolding h3 h2 h1 using ne fr' [OF l] by (auto simp: fun_eq_iff split: option.split)
  show v: "he_value (h3 e) = v" "he_key (h3 e) = key"
    unfolding h3 h2 h1 by (auto split: option.split)
  show o: "he_value (h3 a) = he_value (ht_store t a) \<and> he_key (h3 a) = he_key (ht_store t a)" if "a \<noteq> e" for a
    unfolding h3 h2 h1 using that by (auto split: option.split)
  have o2: "he_hash (h3 a) = he_hash (ht_store t a) \<and> he_keysize (h3 a) = he_keysize (ht_store t a)" if "a \<noteq> e" for a
    unfolding h3 h2 h1 using that by (auto split: option.split)
  have e2: "he_hash (h3 e) = fnv1ahash key" "he_keysize (h3 e) = length key" unfolding h3 by auto
  have bk: "bucket_of t' = bucket_of t" by (simp add: fun_eq_iff bucket_of_def t')
  have st: "ht_store t' = h3" by (simp add: t')
  have dis: "distinct (bs ! off)"
    using rep l by (auto simp: ht_rep_def distinct_map intro: distinct_concat_nth)
  have ms: "mset (concat ?bs) = add_mset e (mset (concat bs))" using mset_concat_cons [OF l] .
  have "(ht_entries t)[off := Some e] ! i = first_ptr (?bs ! i) None \<and>
      dseg (he_next \<circ> h3) (he_prev \<circ> h3) None (?bs ! i) None" if i: "i < length bs" for i
  proof (cases "i = off")
    case True
    then show ?thesis
      using dseg_push_front [OF chain dis fr' [OF l]] l head nxt prv rep by (simp add: ht_rep_def)
  next
    case False
    have "y \<notin> set (bs ! i)" if "head = Some y" for y
    proof
      assume "y \<in> set (bs ! i)"
      then have "ht_entry_ok t i y" "ht_entry_ok t off y"
        using rep i l ne [OF that] by (auto simp: ht_rep_def)
      then show False using False by (simp add: ht_entry_ok_def)
    qed
    moreover have "dseg (he_next \<circ> ht_store t) (he_prev \<circ> ht_store t) None (bs ! i) None"
      "ht_entries t ! i = first_ptr (bs ! i) None" using rep i by (auto simp: ht_rep_def)
    ultimately show ?thesis using False fr' [OF i] nxt prv by (auto split: option.splits)
  qed
  moreover have "ht_entry_ok t' i a" if i: "i < length bs" and a: "a \<in> set (?bs ! i)" for i a
  proof (cases "a = e")
    case True
    then have "i = off" using a i fr' by (cases "i = off") auto
    then show ?thesis using True v e2 off bk st by (simp add: ht_entry_ok_def)
  next
    case False
    then have "a \<in> set (bs ! i)" using a i by (cases "i = off") auto
    then show ?thesis using False i rep o o2 bk st by (auto simp: ht_rep_def ht_entry_ok_def)
  qed
  moreover have "distinct (map (he_key \<circ> h3) (concat ?bs))"
  proof -
    have same: "he_key (h3 a) = key_at t a" if "a \<in> set (concat bs)" for a
      using o [of a] fr that by metis
    have m: "map (he_key \<circ> h3) (concat bs) = map (he_key \<circ> ht_store t) (concat bs)"
      by (simp add: same)
    have n: "(he_key \<circ> h3) e \<notin> (he_key \<circ> h3) ` set (concat bs)"
      using ab by (auto simp: same v)
    have "distinct (map (he_key \<circ> ht_store t) (concat bs))" using rep unfolding ht_rep_def by blast
    then show ?thesis unfolding distinct_map_mset [OF ms] m using n by blast
  qed
  moreover have "length (concat ?bs) = Suc (length (concat bs))" using ms by (metis size_add_mset size_mset)
  ultimately show "ht_rep t' ?bs" using rep by (simp add: ht_rep_def t')
qed

lemma ht_unlink:
  assumes rep: "ht_rep t bs" and off: "off < length bs" and b: "bs ! off = xs @ e # ys"
    and x: "x = ht_store t e"
    and t1: "t1 = (case he_prev x of
        Some p \<Rightarrow> t\<lparr>ht_store := (ht_store t)(p := (ht_store t p)\<lparr>he_next := he_next x\<rparr>)\<rparr>
      | None \<Rightarrow> t\<lparr>ht_entries := (ht_entries t)[off := he_next x]\<rparr>)"
    and t2: "t2 = (case he_next x of
        Some n \<Rightarrow> t1\<lparr>ht_store := (ht_store t1)(n := (ht_store t1 n)\<lparr>he_prev := he_prev x\<rparr>)\<rparr>
      | None \<Rightarrow> t1)"
    and t3: "t3 = t2\<lparr>ht_entry_count := ht_entry_count t2 - 1\<rparr>"
  shows "ht_rep t3 (bs[off := xs @ ys])"
    "he_value (ht_store t3 a) = he_value (ht_store t a)" "key_at t3 a = key_at t a"
proof -
  let ?nx = "he_next \<circ> ht_store t" and ?pv = "he_prev \<circ> ht_store t" and ?bs = "bs[off := xs @ ys]"
  have d: "dseg ?nx ?pv None (xs @ e # ys) None" and hd: "ht_entries t ! off = first_ptr (xs @ e # ys) None"
    using rep off b unfolding ht_rep_def by metis+
  have dc: "distinct (concat bs)" using rep by (simp add: ht_rep_def distinct_map)
  then have dist: "distinct (xs @ e # ys)" using distinct_concat_nth [OF _ off] b by simp
  have mid: "he_prev x = last_ptr xs None" "he_next x = first_ptr ys None"
    using dseg_mid [OF d] x by auto
  have pin: "he_prev x = Some p \<Longrightarrow> p \<in> set xs" for p
    using mid by (auto simp: last_ptr_def split: if_splits)
  have nin: "he_next x = Some n \<Longrightarrow> n \<in> set ys" for n
    using mid by (cases ys) auto
  have nx: "he_next \<circ> ht_store t3 = (case ?pv e of None \<Rightarrow> ?nx | Some p \<Rightarrow> ?nx(p := ?nx e))"
    unfolding t3 t2 t1 x by (auto simp: fun_eq_iff split: option.split)
  have pv: "he_prev \<circ> ht_store t3 = (case ?nx e of None \<Rightarrow> ?pv | Some n \<Rightarrow> ?pv(n := ?pv e))"
    unfolding t3 t2 t1 x by (auto simp: fun_eq_iff split: option.split)
  show same: "he_value (ht_store t3 a) = he_value (ht_store t a)" "key_at t3 a = key_at t a" for a
    unfolding t3 t2 t1 by (auto split: option.split)
  have same2: "he_hash (ht_store t3 a) = he_hash (ht_store t a)"
    "he_keysize (ht_store t3 a) = he_keysize (ht_store t a)" for a
    unfolding t3 t2 t1 by (auto split: option.split)
  have en: "ht_entries t3 = (ht_entries t)[off := first_ptr (xs @ ys) None]"
  proof (cases xs)
    case Nil
    then show ?thesis using mid unfolding t3 t2 t1 by (auto split: option.split)
  next
    case (Cons y zs)
    then have "first_ptr (xs @ ys) None = ht_entries t ! off" "he_prev x \<noteq> None" using hd mid by (auto simp: last_ptr_def)
    then show ?thesis unfolding t3 t2 t1 by (auto simp: list_update_id split: option.split)
  qed
  have bk: "bucket_of t3 = bucket_of t" "ht_capacity t3 = ht_capacity t"
    unfolding t3 t2 t1 bucket_of_def by (auto simp: fun_eq_iff split: option.split)
  have "ht_entries t3 ! i = first_ptr (?bs ! i) None \<and>
      dseg (he_next \<circ> ht_store t3) (he_prev \<circ> ht_store t3) None (?bs ! i) None" if i: "i < length bs" for i
  proof (cases "i = off")
    case True
    moreover have "length (ht_entries t) = length bs" using rep by (simp add: ht_rep_def)
    ultimately show ?thesis using dseg_unlink [OF d dist] off unfolding en nx pv by simp
  next
    case False
    have "a \<notin> set (bs ! i)" if "a \<in> set (bs ! off)" for a
      using rep that i off False unfolding ht_rep_def ht_entry_ok_def by metis
    then have "he_prev x = Some p \<Longrightarrow> p \<notin> set (bs ! i)" "he_next x = Some n \<Longrightarrow> n \<notin> set (bs ! i)" for p n
      using pin nin b by auto
    moreover have "dseg ?nx ?pv None (bs ! i) None" "ht_entries t ! i = first_ptr (bs ! i) None"
      using rep i by (auto simp: ht_rep_def)
    ultimately show ?thesis using False x by (auto simp: en nx pv split: option.split)
  qed
  moreover have "ht_entry_ok t3 i a" if i: "i < length bs" and a: "a \<in> set (?bs ! i)" for i a
  proof -
    have "a \<in> set (bs ! i)" using a i b by (cases "i = off") auto
    then show ?thesis using rep i by (auto simp: ht_rep_def ht_entry_ok_def same same2 bk)
  qed
  moreover have ms: "mset (concat bs) = add_mset e (mset (concat ?bs))"
    by (rule mset_concat_unlink [OF off b])
  moreover have "distinct (map (he_key \<circ> ht_store t3) (concat ?bs))"
  proof -
    have "distinct (map (he_key \<circ> ht_store t) (concat bs))" using rep by (simp add: ht_rep_def)
    then have "distinct (map (he_key \<circ> ht_store t) (concat ?bs))"
      using distinct_map_mset [OF ms] by blast
    moreover have "he_key \<circ> ht_store t3 = he_key \<circ> ht_store t" by (simp add: fun_eq_iff same)
    ultimately show ?thesis by simp
  qed
  moreover have "length (concat bs) = Suc (length (concat ?bs))" using ms by (metis size_add_mset size_mset)
  moreover have "ht_entry_count t3 = ht_entry_count t - 1" "length (ht_entries t3) = length (ht_entries t)"
    unfolding t3 t2 t1 by (auto split: option.split)
  ultimately show "ht_rep t3 ?bs" using rep by (simp add: ht_rep_def bk)
qed

lemma ht_lookup_cong:
  assumes "ht_rep t bs" "ht_rep t' bs'"
    "\<And>a. key_at t a = k \<Longrightarrow> a \<in> set (concat bs) \<Longrightarrow>
       a \<in> set (concat bs') \<and> key_at t' a = k \<and> he_value (ht_store t' a) = he_value (ht_store t a)"
    "\<And>a. key_at t' a = k \<Longrightarrow> a \<in> set (concat bs') \<Longrightarrow> a \<in> set (concat bs) \<and> key_at t a = k"
  shows "ht_lookup t' k = ht_lookup t k"
proof -
  have "ht_lookup t' k = Some w \<longleftrightarrow> ht_lookup t k = Some w" for w
    unfolding ht_lookup_Some_iff [OF assms(1)] ht_lookup_Some_iff [OF assms(2)]
    using assms(3,4) by metis
  then show ?thesis by (metis not_Some_eq)
qed

lemma ht_lookup_None:
  assumes "ht_rep t bs" "\<And>a. a \<in> set (concat bs) \<Longrightarrow> key_at t a \<noteq> k"
  shows "ht_lookup t k = None"
  using ht_lookup_Some_iff [OF assms(1), of k] assms(2) by (metis not_Some_eq)

lemma ht_put_present:
  assumes inv: "ht_inv t" and l: "ht_lookup t key \<noteq> None"
  shows "\<exists>t'. hashtable_set t v key al slot kb = Some (0, t') \<and> ht_inv t' \<and>
    ht_lookup t' = (ht_lookup t)(key \<mapsto> v) \<and> ht_slot t' = ht_slot t"
proof -
  obtain bs where rep: "ht_rep t bs" using inv by (auto simp: ht_inv_def)
  from rep show ?thesis
  proof (cases rule: get_entry_cases [where key = key])
    case (found e)
    let ?t = "t\<lparr>ht_store := (ht_store t)(e := (ht_store t e)\<lparr>he_value := v\<rparr>)\<rparr>"
    have rep': "ht_rep ?t bs" by (rule ht_set_existing [OF rep])
    have "ht_lookup ?t k = ((ht_lookup t)(key \<mapsto> v)) k" for k
    proof (cases "k = key")
      case True
      have "e \<in> set (concat bs) \<and> key_at ?t e = key \<and> he_value (ht_store ?t e) = v" using found by simp
      then have "ht_lookup ?t key = Some v" unfolding ht_lookup_Some_iff [OF rep'] by blast
      then show ?thesis using True by simp
    next
      case False
      have "ht_lookup ?t k = ht_lookup t k"
        by (rule ht_lookup_cong [OF rep rep']) (use False found in auto)
      then show ?thesis using False by simp
    qed
    then have "ht_lookup ?t = (ht_lookup t)(key \<mapsto> v)" by blast
    moreover have "hashtable_set t v key al slot kb = Some (0, ?t)"
      using found by (simp add: hashtable_set_def Let_def)
    moreover have "ht_slot ?t = ht_slot t" by (rule ht_slot_eqI [OF rep']) (simp add: ht_slot_iff [OF rep])
    ultimately show ?thesis using rep' by (auto simp: ht_inv_def)
  next
    case absent
    then show ?thesis using l ht_lookup_Some_iff [OF rep, of key] by auto
  qed
qed

lemma ht_put_absent:
  assumes inv: "ht_inv t" and l: "ht_lookup t key = None" and fr: "ht_fresh t e"
  shows "\<exists>t'. hashtable_set t v key True (Some e) True = Some (0, t') \<and> ht_inv t' \<and>
    ht_lookup t' = (ht_lookup t)(key \<mapsto> v) \<and> ht_slot t' = (ht_slot t)(key \<mapsto> e)"
proof -
  obtain bs where rep: "ht_rep t bs" using inv by (auto simp: ht_inv_def)
  have ab: "\<forall>a \<in> set (concat bs). key_at t a \<noteq> key"
    using l ht_lookup_Some_iff [OF rep, of key] by (metis option.distinct(1))
  have g: "get_entry t key (fnv1ahash key) = Some None"
    using rep ab by (cases rule: get_entry_cases [where key = key]) auto
  have e: "e \<notin> set (concat bs)" using fr ht_fresh_iff [OF rep] by blast
  let ?off = "bucket_of t (fnv1ahash key)"
  define head where "head = ht_entries t ! ?off"
  define h1 where "h1 = (ht_store t)(e := (ht_store t e)\<lparr>he_key := key, he_prev := None, he_next := head\<rparr>)"
  define h2 where "h2 = (case head of None \<Rightarrow> h1 | Some n \<Rightarrow> h1(n := (h1 n)\<lparr>he_prev := Some e\<rparr>))"
  define h3 where "h3 = h2(e := (h2 e)\<lparr>he_value := v, he_keysize := length key, he_hash := fnv1ahash key\<rparr>)"
  define t' where "t' = t\<lparr>ht_store := h3, ht_entries := (ht_entries t)[?off := Some e],
    ht_entry_count := ht_entry_count t + 1\<rparr>"
  have set: "hashtable_set t v key True (Some e) True = Some (0, t')"
    unfolding hashtable_set_def Let_def g t'_def h3_def h2_def h1_def head_def by simp
  note new = ht_set_new [OF rep e ab refl head_def h1_def h2_def h3_def t'_def]
  have st: "ht_store t' = h3" by (simp add: t'_def)
  have rep': "ht_rep t' (bs[?off := e # bs ! ?off])" by (rule new(1))
  have ev: "he_value (ht_store t' e) = v" "key_at t' e = key" using new(2,3) by (simp_all add: st)
  have ov: "he_value (ht_store t' a) = he_value (ht_store t a)" "key_at t' a = key_at t a" if "a \<noteq> e" for a
    using new(4) [OF that] by (simp_all add: st)
  have off: "?off < length bs" using rep bucket_less by (auto simp: ht_rep_def)
  have sc: "set (concat (bs[?off := e # bs ! ?off])) = insert e (set (concat bs))"
    by (rule set_concat_mset [OF mset_concat_cons [OF off]])
  have "ht_lookup t' k = ((ht_lookup t)(key \<mapsto> v)) k" for k
  proof (cases "k = key")
    case True
    have "ht_lookup t' key = Some v" unfolding ht_lookup_Some_iff [OF rep'] sc using ev by blast
    then show ?thesis using True by simp
  next
    case False
    have "ht_lookup t' k = ht_lookup t k"
      by (rule ht_lookup_cong [OF rep rep']; unfold sc insert_iff) (use False ev ov e in metis)+
    then show ?thesis using False by simp
  qed
  then have "ht_lookup t' = (ht_lookup t)(key \<mapsto> v)" by blast
  moreover have "ht_slot t' = (ht_slot t)(key \<mapsto> e)"
  proof (rule ht_slot_eqI [OF rep'])
    fix k a
    have "((ht_slot t)(key \<mapsto> e)) k = Some a \<longleftrightarrow> k = key \<and> a = e \<or> k \<noteq> key \<and> a \<in> set (concat bs) \<and> key_at t a = k"
      using ht_slot_iff [OF rep] by (simp add: eq_commute)
    also have "\<dots> \<longleftrightarrow> a \<in> insert e (set (concat bs)) \<and> key_at t' a = k" using ev ov [of a] e ab by (cases "a = e") auto
    finally show "((ht_slot t)(key \<mapsto> e)) k = Some a \<longleftrightarrow> a \<in> set (concat (bs[?off := e # bs ! ?off])) \<and> key_at t' a = k"
      unfolding sc .
  qed
  ultimately show ?thesis using set rep' by (auto simp: ht_inv_def)
qed

lemma ht_put_fail:
  assumes inv: "ht_inv t" and l: "ht_lookup t key = None"
  shows "hashtable_set t v key False slot kb = Some (ENOENT, t)"
    "hashtable_set t v key True None kb = Some (ENOMEM, t)"
    "hashtable_set t v key True slot False = Some (ENOMEM, t)"
proof -
  obtain bs where rep: "ht_rep t bs" using inv by (auto simp: ht_inv_def)
  have ab: "\<forall>a \<in> set (concat bs). key_at t a \<noteq> key"
    using l ht_lookup_Some_iff [OF rep, of key] by (metis option.distinct(1))
  have g: "get_entry t key (fnv1ahash key) = Some None"
    using rep ab by (cases rule: get_entry_cases [where key = key]) auto
  then show "hashtable_set t v key False slot kb = Some (ENOENT, t)"
    "hashtable_set t v key True None kb = Some (ENOMEM, t)"
    "hashtable_set t v key True slot False = Some (ENOMEM, t)"
    by (auto simp: hashtable_set_def Let_def split: option.split)
qed

lemma ht_del_absent:
  assumes inv: "ht_inv t" and l: "ht_lookup t key = None"
  shows "hashtable_remove t key = Some (ENOENT, t)"
proof -
  obtain bs where rep: "ht_rep t bs" using inv by (auto simp: ht_inv_def)
  have ab: "\<forall>a \<in> set (concat bs). key_at t a \<noteq> key"
    using l ht_lookup_Some_iff [OF rep, of key] by (metis option.distinct(1))
  have g: "get_entry t key (fnv1ahash key) = Some None"
    using rep ab by (cases rule: get_entry_cases [where key = key]) auto
  then show ?thesis by (simp add: hashtable_remove_def Let_def)
qed

lemma ht_del_present:
  assumes inv: "ht_inv t" and l: "ht_lookup t key \<noteq> None"
  shows "\<exists>t'. hashtable_remove t key = Some (0, t') \<and> ht_inv t' \<and>
    ht_lookup t' = (ht_lookup t)(key := None) \<and> ht_slot t' = (ht_slot t)(key := None)"
proof -
  obtain bs where rep: "ht_rep t bs" using inv by (auto simp: ht_inv_def)
  from rep show ?thesis
  proof (cases rule: get_entry_cases [where key = key])
    case (found e)
    let ?off = "bucket_of t (fnv1ahash key)"
    have off: "?off < length bs" using rep bucket_less by (auto simp: ht_rep_def)
    obtain xs ys where b: "bs ! ?off = xs @ e # ys" using split_list [OF found(3)] by blast
    obtain t' where del: "hashtable_remove t key = Some (0, t')"
      and rep': "ht_rep t' (bs[?off := xs @ ys])"
      and same: "\<And>a. he_value (ht_store t' a) = he_value (ht_store t a)" "\<And>a. key_at t' a = key_at t a"
      using ht_unlink [OF rep off b refl refl refl refl] found(1)
      by (simp add: hashtable_remove_def Let_def)
    have ms: "mset (concat bs) = add_mset e (mset (concat (bs[?off := xs @ ys])))"
      by (rule mset_concat_unlink [OF off b])
    have sc: "set (concat bs) = insert e (set (concat (bs[?off := xs @ ys])))"
      by (rule set_concat_mset [OF ms])
    have "distinct (map id (concat bs))" using rep by (simp add: ht_rep_def distinct_map)
    then have en: "e \<notin> set (concat (bs[?off := xs @ ys]))" using distinct_map_mset [OF ms, of id] by auto
    have "ht_lookup t' k = ((ht_lookup t)(key := None)) k" for k
    proof (cases "k = key")
      case True
      have "ht_lookup t' key = None"
      proof (rule ht_lookup_None [OF rep'])
        fix a assume "a \<in> set (concat (bs[?off := xs @ ys]))"
        then show "key_at t' a \<noteq> key" using key_inj [OF rep, of a e] found(4) sc en same(2) by (metis insertCI)
      qed
      then show ?thesis using True by simp
    next
      case False
      have "ht_lookup t' k = ht_lookup t k"
        by (rule ht_lookup_cong [OF rep rep']) (use False same sc found(4) in \<open>metis insert_iff\<close>)+
      then show ?thesis using False by simp
    qed
    then have "ht_lookup t' = (ht_lookup t)(key := None)" by blast
    moreover have "ht_slot t' = (ht_slot t)(key := None)"
    proof (rule ht_slot_eqI [OF rep'])
      fix k a
      have "a = e" if "a \<in> set (concat bs)" "key_at t a = key" using key_inj [OF rep that(1) found(2)] that found(4) by simp
      then have "k \<noteq> key \<and> a \<in> set (concat bs) \<and> key_at t a = k \<longleftrightarrow> a \<in> set (concat (bs[?off := xs @ ys])) \<and> key_at t' a = k"
        unfolding sc same(2) using en found(4) by auto
      then show "((ht_slot t)(key := None)) k = Some a \<longleftrightarrow> a \<in> set (concat (bs[?off := xs @ ys])) \<and> key_at t' a = k"
        using ht_slot_iff [OF rep] by (cases "k = key") auto
    qed
    ultimately show ?thesis using del rep' by (auto simp: ht_inv_def)
  next
    case absent
    then show ?thesis using l ht_lookup_Some_iff [OF rep, of key] by auto
  qed
qed

lemma ht_init_rep:
  assumes "0 < sz" "length mem = unat sz" "\<forall>i < length mem. 0 < i \<longrightarrow> mem ! i = None" "ht_entry_count t = 0"
  shows "\<exists>t'. hashtable_init t sz True (Some mem) = Some (0, t') \<and> ht_rep t' (replicate (unat sz) [])"
  using assms by (auto simp: hashtable_init_def ht_rep_def nth_list_update)

lemma ht_rep_entries:
  assumes rep: "ht_rep t bs"
  shows "distinct (concat bs)" "card (dom (ht_lookup t)) = length (concat bs)"
proof -
  have dm: "distinct (map (he_key \<circ> ht_store t) (concat bs))" using rep by (simp add: ht_rep_def)
  then show "distinct (concat bs)" by (simp add: distinct_map)
  have "dom (ht_lookup t) = set (map (he_key \<circ> ht_store t) (concat bs))"
    unfolding dom_def set_map by (auto simp: ht_lookup_Some_iff [OF rep])
  then show "card (dom (ht_lookup t)) = length (concat bs)" using distinct_card [OF dm] by simp
qed

subsection \<open>The map interface\<close>

text \<open>
  What the clients of the table rely on (the reference counts of the page allocator, the address
  cache, the directories of \<^verbatim>\<open>tmpfs\<close>): the operations act on a finite map, report a missing key
  with \<open>ENOENT\<close> and a failed allocation with \<open>ENOMEM\<close>, and change nothing when they fail.
\<close>

text \<open>One call on the table: an update, with the value, \<open>allocate\<close>, the result of \<open>slab_alloc\<close> and whether \<open>kmalloc\<close> succeeds, or a
  removal. \<open>map_step\<close> is what it does to the map and the code it returns.\<close>

datatype 'v map_op = Put bytes 'v bool "nat ptr" bool | Del bytes

primrec map_step :: "'v map_op \<Rightarrow> (bytes \<rightharpoonup> 'v) \<Rightarrow> errno \<times> (bytes \<rightharpoonup> 'v)" where
  "map_step (Put k v al slot kb) m =
     (if m k \<noteq> None then (0, m(k \<mapsto> v))
      else if \<not> al then (ENOENT, m)
      else if slot = None \<or> \<not> kb then (ENOMEM, m)
      else (0, m(k \<mapsto> v)))"
| "map_step (Del k) m = (if m k \<noteq> None then (0, m(k := None)) else (ENOENT, m))"

primrec map_run :: "'v map_op list \<Rightarrow> (bytes \<rightharpoonup> 'v) \<Rightarrow> errno list \<times> (bytes \<rightharpoonup> 'v)" where
  "map_run [] m = ([], m)"
| "map_run (x # xs) m = (let (r, m1) = map_step x m; (rs, m2) = map_run xs m1 in (r # rs, m2))"

text \<open>The contract of \<open>slab_alloc\<close>: an entry that is handed out is not one in use. One that a removal gave back may be handed out again,
  at once. \<open>live\<close> has the entry in use of each key.\<close>

primrec slot_ok :: "'v map_op \<Rightarrow> (bytes \<rightharpoonup> nat) \<Rightarrow> bool" where
  "slot_ok (Put k v al slot kb) live \<longleftrightarrow> live k \<noteq> None \<or> (case slot of None \<Rightarrow> True | Some e \<Rightarrow> e \<notin> ran live)"
| "slot_ok (Del k) live \<longleftrightarrow> True"

primrec live_step :: "'v map_op \<Rightarrow> (bytes \<rightharpoonup> nat) \<Rightarrow> (bytes \<rightharpoonup> nat)" where
  "live_step (Put k v al slot kb) live =
     (if live k = None \<and> al \<and> kb then (case slot of None \<Rightarrow> live | Some e \<Rightarrow> live(k \<mapsto> e)) else live)"
| "live_step (Del k) live = live(k := None)"

primrec slots_ok :: "'v map_op list \<Rightarrow> (bytes \<rightharpoonup> nat) \<Rightarrow> bool" where
  "slots_ok [] live \<longleftrightarrow> True"
| "slots_ok (x # xs) live \<longleftrightarrow> slot_ok x live \<and> slots_ok xs (live_step x live)"

primrec run_op :: "('t \<Rightarrow> 'v \<Rightarrow> bytes \<Rightarrow> bool \<Rightarrow> nat ptr \<Rightarrow> bool \<Rightarrow> (errno \<times> 't) option) \<Rightarrow>
    ('t \<Rightarrow> bytes \<Rightarrow> (errno \<times> 't) option) \<Rightarrow> 'v map_op \<Rightarrow> 't \<Rightarrow> (errno \<times> 't) option" where
  "run_op put del (Put k v al slot kb) t = put t v k al slot kb"
| "run_op put del (Del k) t = del t k"

primrec run_ops :: "('t \<Rightarrow> 'v \<Rightarrow> bytes \<Rightarrow> bool \<Rightarrow> nat ptr \<Rightarrow> bool \<Rightarrow> (errno \<times> 't) option) \<Rightarrow>
    ('t \<Rightarrow> bytes \<Rightarrow> (errno \<times> 't) option) \<Rightarrow> 'v map_op list \<Rightarrow> 't \<Rightarrow> (errno list \<times> 't) option" where
  "run_ops put del [] t = Some ([], t)"
| "run_ops put del (x # xs) t = do {
     (r, t1) \<leftarrow> run_op put del x t;
     (rs, t2) \<leftarrow> run_ops put del xs t1;
     Some (r # rs, t2)
   }"

locale byte_map =
  fixes inv :: "'t \<Rightarrow> bool"
    and lookup :: "'t \<Rightarrow> bytes \<Rightarrow> 'v option"
    and slot :: "'t \<Rightarrow> bytes \<Rightarrow> nat option"
    and get :: "'t \<Rightarrow> bytes \<Rightarrow> (errno + 'v) option"
    and put :: "'t \<Rightarrow> 'v \<Rightarrow> bytes \<Rightarrow> bool \<Rightarrow> nat ptr \<Rightarrow> bool \<Rightarrow> (errno \<times> 't) option"
    and del :: "'t \<Rightarrow> bytes \<Rightarrow> (errno \<times> 't) option"
  assumes get_lookup: "inv t \<Longrightarrow> get t k = Some (case lookup t k of None \<Rightarrow> Inl ENOENT | Some v \<Rightarrow> Inr v)"
    and slot_lookup: "inv t \<Longrightarrow> slot t k = None \<longleftrightarrow> lookup t k = None"
    and put_present: "inv t \<Longrightarrow> lookup t k \<noteq> None \<Longrightarrow> \<exists>t'. put t v k al e kb = Some (0, t') \<and> inv t' \<and>
          lookup t' = (lookup t)(k \<mapsto> v) \<and> slot t' = slot t"
    and put_absent: "inv t \<Longrightarrow> lookup t k = None \<Longrightarrow> a \<notin> ran (slot t) \<Longrightarrow>
          \<exists>t'. put t v k True (Some a) True = Some (0, t') \<and> inv t' \<and>
          lookup t' = (lookup t)(k \<mapsto> v) \<and> slot t' = (slot t)(k \<mapsto> a)"
    and put_enoent: "inv t \<Longrightarrow> lookup t k = None \<Longrightarrow> put t v k False e kb = Some (ENOENT, t)"
    and put_enomem: "inv t \<Longrightarrow> lookup t k = None \<Longrightarrow> e = None \<or> \<not> kb \<Longrightarrow> put t v k True e kb = Some (ENOMEM, t)"
    and del_present: "inv t \<Longrightarrow> lookup t k \<noteq> None \<Longrightarrow> \<exists>t'. del t k = Some (0, t') \<and> inv t' \<and>
          lookup t' = (lookup t)(k := None) \<and> slot t' = (slot t)(k := None)"
    and del_absent: "inv t \<Longrightarrow> lookup t k = None \<Longrightarrow> del t k = Some (ENOENT, t)"
begin

lemma put_refines:
  assumes "inv t" "slot_ok (Put k v al e kb) (slot t)"
  shows "\<exists>r t'. put t v k al e kb = Some (r, t') \<and> inv t' \<and> map_step (Put k v al e kb) (lookup t) = (r, lookup t') \<and>
    slot t' = live_step (Put k v al e kb) (slot t)"
proof (cases "lookup t k")
  case (Some w)
  then have "slot t k \<noteq> None" using slot_lookup [OF assms(1)] by simp
  then show ?thesis using put_present [OF assms(1), of k v al e kb] Some by auto
next
  case None
  then have n: "slot t k = None" using slot_lookup [OF assms(1)] by simp
  consider "\<not> al" | "al" "e = None \<or> \<not> kb" | a where "al" "kb" "e = Some a" by (cases e) auto
  then show ?thesis
  proof cases
    case 1
    then show ?thesis using put_enoent [OF assms(1) None] assms(1) None by simp
  next
    case 2
    then show ?thesis using put_enomem [OF assms(1) None 2(2)] assms(1) None by (auto split: option.split)
  next
    case (3 a)
    then have "a \<notin> ran (slot t)" using assms(2) n by simp
    then show ?thesis using put_absent [OF assms(1) None, of a v] 3 n None by auto
  qed
qed

lemma del_refines:
  assumes "inv t"
  shows "\<exists>r t'. del t k = Some (r, t') \<and> inv t' \<and> map_step (Del k) (lookup t) = (r, lookup t') \<and> slot t' = (slot t)(k := None)"
proof (cases "lookup t k")
  case None
  then have "slot t = (slot t)(k := None)" using slot_lookup [OF assms] by (simp add: fun_upd_idem)
  then show ?thesis using del_absent [OF assms None] assms None by auto
next
  case (Some w)
  then show ?thesis using del_present [OF assms, of k] by auto
qed

lemma op_refines:
  assumes "inv t" "slot_ok x (slot t)"
  shows "\<exists>r t'. run_op put del x t = Some (r, t') \<and> inv t' \<and> map_step x (lookup t) = (r, lookup t') \<and>
    slot t' = live_step x (slot t)"
  using put_refines [OF assms(1)] del_refines [OF assms(1)] assms(2) by (cases x) (simp_all only: run_op.simps live_step.simps)

lemma run_ops_refines:
  assumes "inv t" "slots_ok ops (slot t)"
  shows "\<exists>t'. run_ops put del ops t = Some (fst (map_run ops (lookup t)), t') \<and> inv t' \<and> lookup t' = snd (map_run ops (lookup t))"
  using assms
proof (induction ops arbitrary: t)
  case (Cons x ops)
  obtain r t1 where t1: "run_op put del x t = Some (r, t1)" "inv t1" "map_step x (lookup t) = (r, lookup t1)"
    "slot t1 = live_step x (slot t)" using op_refines [OF Cons.prems(1), of x] Cons.prems(2) by auto
  then obtain t2 where "run_ops put del ops t1 = Some (fst (map_run ops (lookup t1)), t2)" "inv t2"
    "lookup t2 = snd (map_run ops (lookup t1))" using Cons.IH [OF t1(2)] Cons.prems(2) by auto
  then show ?case using t1 by (simp add: Let_def case_prod_beta)
qed simp

end

interpretation ht: byte_map ht_inv ht_lookup ht_slot hashtable_get hashtable_set hashtable_remove
proof unfold_locales
  fix t :: "'v hashtable" and k v kb and e :: "nat ptr"
  assume "ht_inv t" "ht_lookup t k = None" "e = None \<or> \<not> kb"
  then show "hashtable_set t v k True e kb = Some (ENOMEM, t)" by (auto simp: ht_put_fail)
qed (simp_all add: ht_get_lookup ht_slot_lookup ht_put_present ht_put_absent ht_put_fail ht_del_present ht_del_absent ht_fresh_slot)

declare set_concat [simp]

subsection \<open>Properties\<close>

lemma ht_size_card: "ht_inv t \<Longrightarrow> hashtable_size t = Some (of_nat (card (dom (ht_lookup t))))"
  by (auto simp: ht_inv_def hashtable_size_def ht_foreach ht_rep_entries)

text \<open>C4. The hash table implements a finite map. From a table that \<open>hashtable_init\<close> set up on cleared
  memory, every sequence of updates and removals returns the codes the map gives (0, \<open>ENOENT\<close> for a missing key, \<open>ENOMEM\<close> for a new
  key when an allocation fails), every later \<open>hashtable_get\<close> answers as the map the sequence describes, and \<open>hashtable_size\<close>
  counts its keys. All that is assumed of \<open>slab_alloc\<close> is that it does not hand out an entry that is still in use.\<close>

theorem hashtable_refines_map:
  fixes t :: "'v hashtable"
  assumes "0 < sz" and "length mem = unat sz" and "\<forall>i < length mem. 0 < i \<longrightarrow> mem ! i = None"
    and "ht_entry_count t = 0" and "slots_ok ops Map.empty"
  shows "\<exists>t0 t'. hashtable_init t sz True (Some mem) = Some (0, t0) \<and>
    run_ops hashtable_set hashtable_remove ops t0 = Some (fst (map_run ops Map.empty), t') \<and>
    (\<forall>k. hashtable_get t' k = Some (case snd (map_run ops Map.empty) k of None \<Rightarrow> Inl ENOENT | Some v \<Rightarrow> Inr v)) \<and>
    hashtable_size t' = Some (of_nat (card (dom (snd (map_run ops Map.empty)))))"
proof -
  obtain t0 where t0: "hashtable_init t sz True (Some mem) = Some (0, t0)"
    and rep: "ht_rep t0 (replicate (unat sz) [])"
    using ht_init_rep assms by blast
  then have i0: "ht_inv t0" by (auto simp: ht_inv_def)
  have e0: "ht_lookup t0 = Map.empty" using ht_lookup_None [OF rep] by (auto simp: fun_eq_iff)
  have "ht_slot t0 = Map.empty" by (rule ht_slot_eqI [OF rep]) simp
  then obtain t' where "run_ops hashtable_set hashtable_remove ops t0 = Some (fst (map_run ops Map.empty), t')" "ht_inv t'"
    "ht_lookup t' = snd (map_run ops Map.empty)"
    using ht.run_ops_refines [OF i0, of ops] assms(5) e0 by auto
  then show ?thesis using t0 ht_get_lookup [of t'] ht_size_card [of t'] by auto
qed

text \<open>A sequence in which the entry that a removal frees is used again, and an allocation fails.\<close>

definition ht_ops :: "nat map_op list" where
  "ht_ops = [Put [1] 10 True (Some 0) True, Put [2] 20 True (Some 1) True, Del [1],
     Put [3] 30 True (Some 0) True, Put [4] 40 True None True]"

theorem hashtable_refines_map_witness:
  "\<exists>t0 t'. hashtable_init \<lparr>ht_entry_count = 0, ht_capacity = 0, ht_entries = [],
       ht_store = (\<lambda>_. \<lparr>he_next = None, he_prev = None, he_hash = 0, he_keysize = 0, he_key = [], he_value = 0\<rparr>)\<rparr>
       2 True (Some [Some 7, None]) = Some (0, t0) \<and>
     run_ops hashtable_set hashtable_remove ht_ops t0 = Some ([0, 0, 0, 0, ENOMEM], t') \<and>
     hashtable_get t' [2] = Some (Inr 20) \<and> hashtable_get t' [3] = Some (Inr 30) \<and> hashtable_get t' [1] = Some (Inl ENOENT)"
proof -
  have "slots_ok ht_ops Map.empty" by (auto simp: ht_ops_def ran_def split: if_splits)
  moreover have "map_run ht_ops Map.empty = ([0, 0, 0, 0, ENOMEM], [[2] \<mapsto> 20, [3] \<mapsto> 30])"
    by (simp add: ht_ops_def fun_eq_iff)
  ultimately show ?thesis
    using hashtable_refines_map [of 2 "[Some 7, None]" "\<lparr>ht_entry_count = 0, ht_capacity = 0, ht_entries = [],
       ht_store = (\<lambda>_. \<lparr>he_next = None, he_prev = None, he_hash = 0, he_keysize = 0, he_key = [], he_value = 0\<rparr>)\<rparr>" ht_ops]
    by (auto simp: less_Suc_eq)
qed

text \<open>C5. A failing operation changes nothing: updating a missing key without \<open>allocate\<close> gives
  \<open>ENOENT\<close>, inserting without memory for the entry or for the key gives \<open>ENOMEM\<close>, removing a missing
  key gives \<open>ENOENT\<close>, each with the table as it was; and \<open>hashtable_destroy\<close> releases every entry
  exactly once, whatever the allocator writes into the entries it gets back.\<close>

theorem hashtable_failures_and_destroy:
  assumes "ht_inv t"
  shows "(ht_lookup t k = None \<longrightarrow> hashtable_set t v k False slot kb = Some (ENOENT, t) \<and>
      hashtable_set t v k True None kb = Some (ENOMEM, t) \<and>
      hashtable_set t v k True slot False = Some (ENOMEM, t) \<and> hashtable_remove t k = Some (ENOENT, t)) \<and>
    (\<exists>freed t'. hashtable_destroy junk t = Some (0, freed, t') \<and> distinct freed \<and>
      (\<forall>e. e \<in> set freed \<longleftrightarrow> \<not> ht_fresh t e) \<and> length freed = card (dom (ht_lookup t)))"
proof -
  obtain bs where rep: "ht_rep t bs" using assms by (auto simp: ht_inv_def)
  then show ?thesis using ht_rep_entries [OF rep] assms
    by (simp add: ht_put_fail ht_del_absent ht_destroy ht_fresh_iff del: set_concat)
qed

definition ht_example :: "nat hashtable" where
  "ht_example = \<lparr>ht_entry_count = 1, ht_capacity = 1, ht_entries = [Some 4],
     ht_store = (\<lambda>_. \<lparr>he_next = None, he_prev = None, he_hash = fnv1ahash [9], he_keysize = 1,
       he_key = [9], he_value = 5\<rparr>)\<rparr>"

lemma ht_example_rep: "ht_rep ht_example [[4]]"
  by (simp add: ht_rep_def ht_example_def ht_entry_ok_def bucket_of_def)

theorem hashtable_failures_and_destroy_witness:
  "ht_inv ht_example \<and> ht_lookup ht_example [1] = None \<and> ht_lookup ht_example [9] = Some 5 \<and>
   hashtable_remove ht_example [1] = Some (ENOENT, ht_example) \<and>
   (\<exists>freed t'. hashtable_destroy (ht_store ht_example) ht_example = Some (0, freed, t') \<and> distinct freed \<and> length freed = 1)"
proof -
  have i: "ht_inv ht_example" using ht_example_rep by (auto simp: ht_inv_def)
  have n: "ht_lookup ht_example [1] = None" "ht_lookup ht_example [9] = Some 5"
    using ht_lookup_eq [OF ht_example_rep] by (simp_all add: ht_example_def)
  have "dom (ht_lookup ht_example) = {[9]}"
    using ht_lookup_eq [OF ht_example_rep] by (auto simp: dom_def ht_example_def split: if_splits)
  then have "card (dom (ht_lookup ht_example)) = 1" by simp
  then show ?thesis using hashtable_failures_and_destroy [OF i, of "[1]" 0 None True "ht_store ht_example"] n i by auto
qed

end
