(* ===== verification/Pmm.thy ===== *)
theory Pmm
  imports Bitmap Hashtable
begin

text \<open>
  The physical page allocator: \<^verbatim>\<open>kernel/mem/pmm.c\<close> on top of the block bitmap and of the hash table
  of page reference counts, and the parser of the boot memory map in \<^verbatim>\<open>kernel/mem/mmap.c\<close>. The
  memory the hash table obtains from the slab allocator is an argument (\<open>ht_mem\<close>).
\<close>

subsection \<open>The boot memory map (kernel/mem/mmap.c)\<close>

record memmap_entry =
  me_base :: u64
  me_length :: u64
  me_type :: u64


record mmap =
  mm_entries :: "memmap_entry list"
  mm_total_memory :: u64





subsection \<open>Model of the page allocator\<close>

abbreviation (input) PAGE_SIZE :: u64 where "PAGE_SIZE \<equiv> 4096"

datatype pmm_section_type = PMM_SECTION_1MB | PMM_SECTION_4GB | PMM_SECTION_DEFAULT | PMM_SECTION_COUNT

record pmm =
  physical :: bitmap
  pmm_lock :: spinlock
  refcounts :: "u64 hashtable"
  refcount_lock :: spinlock
  pmm_mmap :: mmap
  hhdm_base :: u64
  pmm_zero_page :: u64

text \<open>What the slab allocator gives to a hash table operation: the bucket array of \<open>hashtable_init\<close>, an
  entry, and memory for the key.\<close>

record ht_mem =
  hm_cache :: bool
  hm_table :: "nat ptr list option"
  hm_slot :: "nat ptr"
  hm_keybuf :: bool

text \<open>The eight bytes of a pointer variable, as hashed by the table.\<close>

definition addr_key :: "u64 \<Rightarrow> bytes" where
  "addr_key addr = map (\<lambda>i. ucast (drop_bit (8 * i) addr)) [0..<8]"

definition refcount_table_init :: "ht_mem \<Rightarrow> pmm \<Rightarrow> pmm option" where
  "refcount_table_init mem m = do {
     (err, t) \<leftarrow> hashtable_init (refcounts m) 0x2000 (hm_cache mem) (hm_table mem);
     kassert (err = 0);
     Some (m\<lparr>refcounts := t\<rparr>)
   }"

definition get_refcount :: "pmm \<Rightarrow> u64 \<Rightarrow> u64 option" where
  "get_refcount m addr = do {
     kassert (addr mod PAGE_SIZE = 0);
     if ht_capacity (refcounts m) = 0 then Some 0
     else do {
       r \<leftarrow> hashtable_get (refcounts m) (addr_key addr);
       (case r of Inl err \<Rightarrow> Some 0 | Inr rc \<Rightarrow> Some rc)
     }
   }"

definition set_refcount :: "ht_mem \<Rightarrow> pmm \<Rightarrow> u64 \<Rightarrow> u64 \<Rightarrow> pmm option" where
  "set_refcount mem m addr rc = do {
     m1 \<leftarrow> (if ht_capacity (refcounts m) = 0 then refcount_table_init mem m else Some m);
     kassert (addr mod PAGE_SIZE = 0);
     (err, t) \<leftarrow> hashtable_set (refcounts m1) rc (addr_key addr) True (hm_slot mem) (hm_keybuf mem);
     kassert (err = 0);
     Some (m1\<lparr>refcounts := t\<rparr>)
   }"

definition pmm_alloc :: "pmm \<Rightarrow> u64 \<Rightarrow> pmm_section_type \<Rightarrow> (u64 \<times> pmm) option" where
  "pmm_alloc m sz section = do {
     kassert (section = PMM_SECTION_DEFAULT);
     if sz = 0 then Some (0, m)
     else do {
       lock \<leftarrow> spinlock_acquire (pmm_lock m);
       (phys, b) \<leftarrow> bitmap_allocate (physical m) sz;
       let m1 = m\<lparr>physical := b, pmm_lock := spinlock_release lock\<rparr>;
       kassert (phys \<noteq> 0);
       Some (phys, m1)
     }
   }"


definition pmm_free :: "ht_mem \<Rightarrow> pmm \<Rightarrow> u64 \<Rightarrow> u64 \<Rightarrow> pmm option" where
  "pmm_free mem m addr cnt = do {
     lock \<leftarrow> spinlock_acquire (pmm_lock m);
     let m1 = m\<lparr>pmm_lock := lock\<rparr>;
     rc \<leftarrow> get_refcount m1 addr;
     m2 \<leftarrow> (if rc \<le> 1 then do {
              b \<leftarrow> bitmap_mark_region (physical m1) addr (cnt * BLOCK_SIZE) False;
              Some (m1\<lparr>physical := b\<rparr>)
            }
            else set_refcount mem m1 addr (rc - 1));
     Some (m2\<lparr>pmm_lock := spinlock_release (pmm_lock m2)\<rparr>)
   }"

definition pmm_free_page :: "ht_mem \<Rightarrow> pmm \<Rightarrow> u64 \<Rightarrow> pmm option" where
  "pmm_free_page mem m addr = pmm_free mem m addr 1"

definition pmm_total_memory :: "pmm \<Rightarrow> u64" where
  "pmm_total_memory m = mm_total_memory (pmm_mmap m)"

definition pmm_free_memroy :: "pmm \<Rightarrow> u64" where
  "pmm_free_memroy m = 0"

text \<open>\<open>pmm_hold\<close> passes the address itself to \<open>bitmap_get\<close>, which expects a block number.\<close>

definition pmm_hold :: "ht_mem \<Rightarrow> pmm \<Rightarrow> u64 \<Rightarrow> pmm option" where
  "pmm_hold mem m addr = do {
     kassert (addr mod PAGE_SIZE = 0);
     lock \<leftarrow> spinlock_acquire (refcount_lock m);
     let m0 = m\<lparr>refcount_lock := lock\<rparr>;
     m1 \<leftarrow> (if ht_capacity (refcounts m0) = 0 then refcount_table_init mem m0 else Some m0);
     r \<leftarrow> hashtable_get (refcounts m1) (addr_key addr);
     rc \<leftarrow> (case r of
              Inl err \<Rightarrow> do {
                used \<leftarrow> bitmap_get (physical m1) addr;
                Some (if used then 1 else 0)
              }
            | Inr rc \<Rightarrow> Some rc);
     m2 \<leftarrow> set_refcount mem m1 addr (rc + 1);
     Some (m2\<lparr>refcount_lock := spinlock_release (refcount_lock m2)\<rparr>)
   }"

definition pmm_release :: "ht_mem \<Rightarrow> pmm \<Rightarrow> u64 \<Rightarrow> pmm option" where
  "pmm_release mem m addr = do {
     lock \<leftarrow> spinlock_acquire (refcount_lock m);
     let m1 = m\<lparr>refcount_lock := lock\<rparr>;
     rc \<leftarrow> get_refcount m1 addr;
     m2 \<leftarrow> (if rc = 0 then pmm_free_page mem m1 addr
            else if rc = 1 then do {
              (err, t) \<leftarrow> hashtable_remove (refcounts m1) (addr_key addr);
              pmm_free_page mem (m1\<lparr>refcounts := t\<rparr>) addr
            }
            else set_refcount mem m1 addr (rc - 1));
     Some (m2\<lparr>refcount_lock := spinlock_release (refcount_lock m2)\<rparr>)
   }"




subsection \<open>Reference counts\<close>

lemma addr_key_inj [simp]: "addr_key a = addr_key b \<longleftrightarrow> a = b"
proof
  assume eq: "addr_key a = addr_key b"
  show "a = b"
  proof (rule bit_word_eqI)
    fix n assume "n < LENGTH(64)"
    then have n: "n div 8 < 8" "n = 8 * (n div 8) + n mod 8" by auto
    have "addr_key a ! (n div 8) = addr_key b ! (n div 8)" using eq by simp
    then have "bit (addr_key a ! (n div 8)) (n mod 8) = bit (addr_key b ! (n div 8)) (n mod 8)" by simp
    then have "bit a (8 * (n div 8) + n mod 8) = bit b (8 * (n div 8) + n mod 8)"
      using n(1) by (simp add: addr_key_def bit_simps)
    then show "bit a n = bit b n" using n(2) by simp
  qed
qed simp

text \<open>The count recorded for a page, if any.\<close>

definition rc_of :: "pmm \<Rightarrow> u64 \<Rightarrow> u64 option" where
  "rc_of m addr = (if ht_capacity (refcounts m) = 0 then None else ht_lookup (refcounts m) (addr_key addr))"

text \<open>The invariant: no lock is held, the bitmap is well formed and starts at address 0, and the
  count table, once created, is a proper table.\<close>

definition pmm_wf :: "pmm \<Rightarrow> bool" where
  "pmm_wf m \<longleftrightarrow> bm_wf (physical m) \<and> bm_addressable (physical m) \<and> bm_mem_start (physical m) = 0 \<and>
     \<not> pmm_lock m \<and> \<not> refcount_lock m \<and> (ht_capacity (refcounts m) = 0 \<or> ht_inv (refcounts m))"

text \<open>Page \<open>addr\<close> is a page of the managed memory.\<close>

definition page_in :: "pmm \<Rightarrow> u64 \<Rightarrow> bool" where
  "page_in m addr \<longleftrightarrow> addr mod PAGE_SIZE = 0 \<and> unat addr div 4096 < unat (bm_block_cnt (physical m))"

definition page_used :: "pmm \<Rightarrow> u64 \<Rightarrow> bool" where
  "page_used m addr \<longleftrightarrow> bm_bit (physical m) (unat addr div 4096)"

lemma ht_inv_capacity: "ht_inv t \<Longrightarrow> ht_capacity t \<noteq> 0"
  by (auto simp: ht_inv_def ht_rep_def)

lemma get_refcount_eq:
  assumes "ht_capacity (refcounts m) = 0 \<or> ht_inv (refcounts m)" "addr mod PAGE_SIZE = 0"
  shows "get_refcount m addr = Some (case rc_of m addr of None \<Rightarrow> 0 | Some c \<Rightarrow> c)"
  using assms by (auto simp: get_refcount_def rc_of_def ht_get_lookup split: option.split)

lemma set_refcount_present:
  assumes "ht_inv (refcounts m)" "rc_of m addr \<noteq> None" "addr mod PAGE_SIZE = 0"
  obtains t where "set_refcount mem m addr c = Some (m\<lparr>refcounts := t\<rparr>)" "ht_inv t"
    "ht_lookup t = (ht_lookup (refcounts m))(addr_key addr \<mapsto> c)"
proof -
  have l: "ht_lookup (refcounts m) (addr_key addr) \<noteq> None"
    using assms(2) ht_inv_capacity [OF assms(1)] by (auto simp: rc_of_def)
  obtain t where "hashtable_set (refcounts m) c (addr_key addr) True (hm_slot mem) (hm_keybuf mem) = Some (0, t)"
    "ht_inv t" "ht_lookup t = (ht_lookup (refcounts m))(addr_key addr \<mapsto> c)"
    using ht_put_present [OF assms(1) l] by blast
  then show ?thesis using assms(3) ht_inv_capacity [OF assms(1)] that by (simp add: set_refcount_def)
qed

lemma page_block:
  assumes "bm_mem_start b = 0" "addr mod PAGE_SIZE = 0"
  shows "to_ptr b (addr div 4096) = addr" "unat (addr div 4096) = unat addr div 4096"
proof -
  have "addr div 4096 * 4096 + addr mod 4096 = addr" by (rule div_mult_mod_eq)
  then show "to_ptr b (addr div 4096) = addr" using assms by (simp add: to_ptr_def)
  show "unat (addr div 4096) = unat addr div 4096" by (simp add: unat_div_distrib)
qed

text \<open>Returning one page to the bitmap.\<close>

lemma mark_page_free:
  assumes wf: "bm_wf b" "bm_addressable b" "bm_mem_start b = 0" and a: "addr mod PAGE_SIZE = 0"
    and le: "unat addr div 4096 < unat (bm_block_cnt b)"
  obtains b' where "bitmap_mark_region b addr 4096 False = Some b'" "bm_wf b'" "bm_addressable b'"
    "bm_mem_start b' = 0" "bm_block_cnt b' = bm_block_cnt b"
    "\<And>j. bm_bit b' j = (j \<noteq> unat addr div 4096 \<and> bm_bit b j)"
proof -
  let ?r = "addr div 4096"
  note blk = page_block [OF wf(3) a]
  have "(unat ?r + 1) * 4096 \<le> unat (bm_block_cnt b) * 4096" using le blk(2) by (intro mult_le_mono1) simp
  then have ad: "unat ?r * 4096 + 4096 \<le> 2 ^ 64" using wf(2) by (simp add: bm_addressable_def)
  obtain b' where b': "bitmap_mark_region b addr 4096 False = Some b'" "bm_wf b'"
    "\<forall>j. bm_bit b' j = (\<not> in_range ?r 1 j \<and> bm_bit b j)" "bm_block_cnt b' = bm_block_cnt b"
    "bm_mem_start b' = bm_mem_start b"
    using bitmap_mark_region_free [OF wf(1) ad, of 1] le blk by auto
  moreover have "in_range ?r 1 j \<longleftrightarrow> j = unat addr div 4096" for j using blk(2) by (auto simp: in_range_def)
  ultimately show ?thesis using that wf by (simp add: bm_addressable_def)
qed

lemma rc_of_inv: "ht_inv (refcounts m) \<Longrightarrow> rc_of m addr = ht_lookup (refcounts m) (addr_key addr)"
  by (simp add: rc_of_def ht_inv_capacity)

lemma rc_of_Some_inv: "pmm_wf m \<Longrightarrow> rc_of m addr = Some c \<Longrightarrow> ht_inv (refcounts m)"
  by (auto simp: pmm_wf_def rc_of_def split: if_splits)

lemma pmm_free_page_unshared:
  assumes wf: "pmm_wf (m\<lparr>refcount_lock := False\<rparr>)" and rc: "rc_of m addr = None \<or> rc_of m addr = Some 0 \<or> rc_of m addr = Some 1"
    and pg: "page_in m addr"
  obtains b where "pmm_free_page mem m addr = Some (m\<lparr>physical := b\<rparr>)" "pmm_wf (m\<lparr>physical := b, refcount_lock := False\<rparr>)"
    "bm_block_cnt b = bm_block_cnt (physical m)"
    "\<And>j. bm_bit b j = (j \<noteq> unat addr div 4096 \<and> bm_bit (physical m) j)"
proof -
  have al: "addr mod PAGE_SIZE = 0" using pg by (simp add: page_in_def)
  obtain b where b: "bitmap_mark_region (physical m) addr 4096 False = Some b" "bm_wf b" "bm_addressable b"
    "bm_mem_start b = 0" "bm_block_cnt b = bm_block_cnt (physical m)"
    "\<And>j. bm_bit b j = (j \<noteq> unat addr div 4096 \<and> bm_bit (physical m) j)"
    using mark_page_free [of "physical m" addr] wf pg by (auto simp: pmm_wf_def page_in_def)
  have "rc_of (m\<lparr>pmm_lock := True\<rparr>) addr = rc_of m addr" by (simp add: rc_of_def)
  then have "get_refcount (m\<lparr>pmm_lock := True\<rparr>) addr = Some (case rc_of m addr of None \<Rightarrow> 0 | Some c \<Rightarrow> c)"
    using wf al get_refcount_eq [of "m\<lparr>pmm_lock := True\<rparr>" addr] by (simp add: pmm_wf_def)
  then have "pmm_free_page mem m addr = Some (m\<lparr>physical := b, pmm_lock := False\<rparr>)"
    using wf rc b(1) by (auto simp: pmm_free_page_def pmm_free_def pmm_wf_def)
  moreover have "m\<lparr>physical := b, pmm_lock := False\<rparr> = m\<lparr>physical := b\<rparr>" using wf by (simp add: pmm_wf_def)
  ultimately show ?thesis using that b wf by (auto simp: pmm_wf_def)
qed

lemma pmm_release_shared:
  assumes wf: "pmm_wf m" and rc: "rc_of m addr = Some c" "1 < c" and al: "addr mod PAGE_SIZE = 0"
  obtains m' where "pmm_release mem m addr = Some m'" "pmm_wf m'" "physical m' = physical m"
    "rc_of m' = (rc_of m)(addr \<mapsto> c - 1)"
proof -
  let ?m = "m\<lparr>refcount_lock := True\<rparr>"
  have inv: "ht_inv (refcounts m)" using rc_of_Some_inv [OF wf rc(1)] .
  have r: "rc_of ?m addr = Some c" using rc inv by (simp add: rc_of_inv)
  obtain t where t: "set_refcount mem ?m addr (c - 1) = Some (?m\<lparr>refcounts := t\<rparr>)" "ht_inv t"
    "ht_lookup t = (ht_lookup (refcounts m))(addr_key addr \<mapsto> c - 1)"
    using set_refcount_present [of ?m addr mem "c - 1"] inv r al by auto
  have "get_refcount ?m addr = Some c" using get_refcount_eq [of ?m addr] inv al r by simp
  moreover have "c \<noteq> 0" "c \<noteq> 1" using rc(2) by auto
  ultimately have "pmm_release mem m addr = Some (m\<lparr>refcounts := t, refcount_lock := False\<rparr>)"
    using t(1) wf by (simp add: pmm_release_def pmm_wf_def)
  moreover have "rc_of (m\<lparr>refcounts := t, refcount_lock := False\<rparr>) = (rc_of m)(addr \<mapsto> c - 1)"
    using t(2,3) inv by (auto simp: fun_eq_iff rc_of_inv)
  ultimately show ?thesis using that wf t(2) by (simp add: pmm_wf_def)
qed

lemma pmm_release_last:
  assumes wf: "pmm_wf m" and rc: "rc_of m addr = Some 1" and pg: "page_in m addr"
  obtains m' where "pmm_release mem m addr = Some m'" "pmm_wf m'" "rc_of m' = (rc_of m)(addr := None)"
    "bm_block_cnt (physical m') = bm_block_cnt (physical m)"
    "\<And>j. bm_bit (physical m') j = (j \<noteq> unat addr div 4096 \<and> bm_bit (physical m) j)"
proof -
  let ?m = "m\<lparr>refcount_lock := True\<rparr>"
  have inv: "ht_inv (refcounts m)" using rc_of_Some_inv [OF wf rc] .
  have "ht_lookup (refcounts m) (addr_key addr) \<noteq> None" using rc inv by (simp add: rc_of_inv)
  then obtain t where t: "hashtable_remove (refcounts m) (addr_key addr) = Some (0, t)" "ht_inv t"
    "ht_lookup t = (ht_lookup (refcounts m))(addr_key addr := None)"
    using ht_del_present [OF inv] by blast
  let ?mt = "?m\<lparr>refcounts := t\<rparr>"
  have "rc_of ?mt addr = None" using t by (simp add: rc_of_inv)
  then obtain b where b: "pmm_free_page mem ?mt addr = Some (?mt\<lparr>physical := b\<rparr>)"
    "pmm_wf (?mt\<lparr>physical := b, refcount_lock := False\<rparr>)" "bm_block_cnt b = bm_block_cnt (physical m)"
    "\<And>j. bm_bit b j = (j \<noteq> unat addr div 4096 \<and> bm_bit (physical m) j)"
    using pmm_free_page_unshared [of ?mt addr mem] wf t(2) pg by (auto simp: pmm_wf_def page_in_def)
  have "get_refcount ?m addr = Some 1"
    using get_refcount_eq [of ?m addr] inv rc pg by (simp add: rc_of_inv page_in_def)
  then have "pmm_release mem m addr = Some (?mt\<lparr>physical := b, refcount_lock := False\<rparr>)"
    using t(1) b(1) wf by (simp add: pmm_release_def pmm_wf_def)
  moreover have "rc_of (?mt\<lparr>physical := b, refcount_lock := False\<rparr>) = (rc_of m)(addr := None)"
    using t(2,3) inv by (auto simp: fun_eq_iff rc_of_inv)
  ultimately show ?thesis using that b by simp
qed

lemma pmm_hold_counted:
  assumes wf: "pmm_wf m" and rc: "rc_of m addr = Some c" and al: "addr mod PAGE_SIZE = 0"
  obtains m' where "pmm_hold mem m addr = Some m'" "pmm_wf m'" "physical m' = physical m"
    "rc_of m' = (rc_of m)(addr \<mapsto> c + 1)"
proof -
  let ?m = "m\<lparr>refcount_lock := True\<rparr>"
  have inv: "ht_inv (refcounts m)" using rc_of_Some_inv [OF wf rc] .
  have r: "rc_of ?m addr = Some c" using rc inv by (simp add: rc_of_inv)
  obtain t where t: "set_refcount mem ?m addr (c + 1) = Some (?m\<lparr>refcounts := t\<rparr>)" "ht_inv t"
    "ht_lookup t = (ht_lookup (refcounts m))(addr_key addr \<mapsto> c + 1)"
    using set_refcount_present [of ?m addr mem "c + 1"] inv r al by auto
  have "hashtable_get (refcounts m) (addr_key addr) = Some (Inr c)"
    using rc inv by (simp add: ht_get_lookup rc_of_inv)
  then have "pmm_hold mem m addr = Some (m\<lparr>refcounts := t, refcount_lock := False\<rparr>)"
    using t(1) wf al ht_inv_capacity [OF inv] by (simp add: pmm_hold_def pmm_wf_def)
  moreover have "rc_of (m\<lparr>refcounts := t, refcount_lock := False\<rparr>) = (rc_of m)(addr \<mapsto> c + 1)"
    using t(2,3) inv by (auto simp: fun_eq_iff rc_of_inv)
  ultimately show ?thesis using that wf t(2) by (simp add: pmm_wf_def)
qed

lemma pmm_hold_first:
  assumes wf: "pmm_wf m" and inv: "ht_inv (refcounts m)" and rc: "rc_of m addr = None"
    and al: "addr mod PAGE_SIZE = 0" and bits: "unat addr < 8 * length (bm_bitmap (physical m))"
    and mem: "hm_slot mem = Some e" "ht_fresh (refcounts m) e" "hm_keybuf mem"
  obtains m' where "pmm_hold mem m addr = Some m'" "pmm_wf m'" "physical m' = physical m"
    "rc_of m' = (rc_of m)(addr \<mapsto> (if bm_bit (physical m) (unat addr) then 2 else 1))"
proof -
  let ?c = "if bm_bit (physical m) (unat addr) then 2 else 1 :: u64"
  have l: "ht_lookup (refcounts m) (addr_key addr) = None" using rc inv by (simp add: rc_of_inv)
  obtain t where t: "hashtable_set (refcounts m) ?c (addr_key addr) True (Some e) True = Some (0, t)" "ht_inv t"
    "ht_lookup t = (ht_lookup (refcounts m))(addr_key addr \<mapsto> ?c)"
    using ht_put_absent [OF inv l mem(2)] by blast
  have "hashtable_get (refcounts m) (addr_key addr) = Some (Inl ENOENT)"
    using l inv by (simp add: ht_get_lookup)
  moreover have "(if bm_bit (physical m) (unat addr) then 1 else 0) + 1 = ?c" by simp
  ultimately have "pmm_hold mem m addr = Some (m\<lparr>refcounts := t, refcount_lock := False\<rparr>)"
    using t(1) wf al ht_inv_capacity [OF inv] mem bitmap_get_eq [OF bits]
    by (simp add: pmm_hold_def pmm_wf_def set_refcount_def del: split_paired_Ex split: if_splits)
  moreover have "rc_of (m\<lparr>refcounts := t, refcount_lock := False\<rparr>) = (rc_of m)(addr \<mapsto> ?c)"
    using t(2,3) inv by (auto simp: fun_eq_iff rc_of_inv)
  ultimately show ?thesis using that wf t(2) by (simp add: pmm_wf_def)
qed

text \<open>A number of releases of the same page.\<close>

primrec release_times :: "ht_mem \<Rightarrow> u64 \<Rightarrow> nat \<Rightarrow> pmm \<Rightarrow> pmm option" where
  "release_times mem addr 0 m = Some m"
| "release_times mem addr (Suc n) m = pmm_release mem m addr \<bind> release_times mem addr n"

lemma release_times_add:
  "release_times mem addr (n + k) m = release_times mem addr n m \<bind> release_times mem addr k"
proof (induction n arbitrary: m)
  case 0
  then show ?case by simp
next
  case (Suc n)
  then show ?case by (cases "pmm_release mem m addr") auto
qed

lemma release_times_shared:
  assumes "pmm_wf m" "rc_of m addr = Some c" "k < unat c" "addr mod PAGE_SIZE = 0"
  shows "\<exists>m'. release_times mem addr k m = Some m' \<and> pmm_wf m' \<and> physical m' = physical m \<and>
    rc_of m' = (rc_of m)(addr \<mapsto> c - of_nat k)"
  using assms
proof (induction k arbitrary: m c)
  case 0
  then show ?case by (auto simp: fun_upd_idem)
next
  case (Suc k)
  have c: "1 < c" using Suc.prems(3) by (simp add: word_less_nat_alt)
  have u: "unat (c - 1) = unat c - 1" using unat_sub' [of 1 c] c by simp
  obtain m1 where m1: "pmm_release mem m addr = Some m1" "pmm_wf m1" "physical m1 = physical m"
    "rc_of m1 = (rc_of m)(addr \<mapsto> c - 1)"
    using pmm_release_shared [OF Suc.prems(1,2) c Suc.prems(4)] by blast
  have "rc_of m1 addr = Some (c - 1)" "k < unat (c - 1)" using Suc.prems(3) by (simp_all add: m1(4) u)
  then obtain m' where "release_times mem addr k m1 = Some m'" "pmm_wf m'" "physical m' = physical m1"
    "rc_of m' = (rc_of m1)(addr \<mapsto> (c - 1) - of_nat k)"
    using Suc.IH [OF m1(2) _ _ Suc.prems(4)] by blast
  moreover have "(rc_of m1)(addr \<mapsto> (c - 1) - of_nat k) = (rc_of m)(addr \<mapsto> c - of_nat (Suc k))"
    by (simp add: m1(4) fun_eq_iff diff_diff_eq add.commute)
  ultimately show ?case using m1 by auto
qed

subsection \<open>Initialisation\<close>







subsection \<open>Allocation\<close>

lemma pmm_alloc_cases:
  assumes wf: "pmm_wf m" and n: "0 < n"
  obtains (got) r b where "first_fit (physical m) n r" "r \<noteq> 0"
      "pmm_alloc m n PMM_SECTION_DEFAULT = Some (to_ptr (physical m) r, m\<lparr>physical := b\<rparr>)"
      "to_ptr (physical m) r \<noteq> 0" "pmm_wf (m\<lparr>physical := b\<rparr>)" "\<forall>j. bm_bit b j = (in_range r n j \<or> bm_bit (physical m) j)"
      "bm_block_cnt b = bm_block_cnt (physical m)"
    | (oom) "pmm_alloc m n PMM_SECTION_DEFAULT = None"
      "first_fit (physical m) n 0 \<or>
       (\<forall>s. s + unat n \<le> unat (bm_block_cnt (physical m)) \<longrightarrow> \<not> free_run (physical m) s (unat n))"
proof -
  have b: "bm_wf (physical m)" and ad: "bm_addressable (physical m)" and ms: "bm_mem_start (physical m) = 0"
    using wf by (auto simp: pmm_wf_def)
  have n0: "n \<noteq> 0" using n by auto
  have lk: "m\<lparr>pmm_lock := False\<rparr> = m" using wf by (simp add: pmm_wf_def)
  from b n show ?thesis
  proof (cases rule: bitmap_allocate_cases)
    case (found r b')
    show ?thesis
    proof (cases "r = 0")
      case True
      then have "pmm_alloc m n PMM_SECTION_DEFAULT = None"
        using found wf n0 ms by (simp add: pmm_alloc_def pmm_wf_def to_ptr_def Let_def)
      then show ?thesis using oom found(1) True by simp
    next
      case False
      have "unat r * 4096 + 4096 \<le> 2 ^ 64" by (rule addressable_block(1) [OF ad found(1) n])
      then have "unat (r * 4096) = unat r * 4096" by (simp add: unat_word_ariths)
      moreover have "0 < unat r" using False by (simp add: unat_gt_0)
      ultimately have "r * 4096 \<noteq> 0" by (simp add: word_unat_eq_iff)
      then have p: "to_ptr (physical m) r \<noteq> 0" using ms by (simp add: to_ptr_def)
      then have "pmm_alloc m n PMM_SECTION_DEFAULT = Some (to_ptr (physical m) r, m\<lparr>physical := b', pmm_lock := False\<rparr>)"
        using found wf n0 by (simp add: pmm_alloc_def pmm_wf_def Let_def)
      moreover have "m\<lparr>physical := b', pmm_lock := False\<rparr> = m\<lparr>physical := b'\<rparr>" using wf by (simp add: pmm_wf_def)
      ultimately show ?thesis using got [OF found(1) False _ p] found wf by (simp add: pmm_wf_def bm_addressable_def)
    qed
  next
    case full
    then show ?thesis using oom wf n0 by (simp add: pmm_alloc_def pmm_wf_def Let_def)
  qed
qed





















subsection \<open>Properties\<close>

text \<open>C6. \<open>pmm_alloc\<close> is a first fit that never hands out memory somebody holds. It panics exactly when the managed memory has no free
  run of \<open>n\<close> frames, or when the lowest one starts at frame 0, whose address is the null pointer. Otherwise it returns the
  address of the lowest free run, all of it inside the managed memory, marks exactly the frames of that run as used, keeps the
  invariant and changes nothing but the bitmap.\<close>

theorem pmm_alloc_fresh:
  assumes "pmm_wf m" and "0 < n"
  shows "(pmm_alloc m n PMM_SECTION_DEFAULT = None \<longleftrightarrow> first_fit (physical m) n 0 \<or>
      (\<forall>s. s + unat n \<le> unat (bm_block_cnt (physical m)) \<longrightarrow> \<not> free_run (physical m) s (unat n))) \<and>
    (\<forall>p m'. pmm_alloc m n PMM_SECTION_DEFAULT = Some (p, m') \<longrightarrow>
      (\<exists>r. first_fit (physical m) n r \<and> r \<noteq> 0 \<and> unat p = unat r * 4096 \<and> p \<noteq> 0 \<and> pmm_wf m' \<and>
        m' = m\<lparr>physical := physical m'\<rparr> \<and> bm_block_cnt (physical m') = bm_block_cnt (physical m) \<and>
        (\<forall>j. bm_bit (physical m') j = (in_range r n j \<or> bm_bit (physical m) j))))"
  using assms
proof (cases rule: pmm_alloc_cases)
  case (got r b)
  have ad: "bm_addressable (physical m)" and ms: "bm_mem_start (physical m) = 0"
    using assms(1) by (auto simp: pmm_wf_def)
  have u: "unat (to_ptr (physical m) r) = unat r * 4096"
    using addressable_block(1) [OF ad got(1) assms(2)] ms by (simp add: to_ptr_def unat_word_ariths)
  have run: "unat r + unat n \<le> unat (bm_block_cnt (physical m))" "free_run (physical m) (unat r) (unat n)"
    using got(1) by (simp_all add: first_fit_def)
  have "0 < unat r" using got(2) by (simp add: unat_gt_0)
  then have "\<not> first_fit (physical m) n 0" using got(1) by (auto simp: first_fit_def)
  then show ?thesis using got u run by auto
next
  case oom
  then show ?thesis by simp
qed

text \<open>C7. Reference counts protect a page: a page with a recorded count of \<open>c\<close> stays allocated through
  the first \<open>c - 1\<close> calls of \<open>pmm_release\<close>, is returned to the free frames by the \<open>c\<close>-th, and its entry in
  the count table is gone; no other frame and no other count is touched.\<close>

theorem pmm_release_balanced:
  assumes "pmm_wf m" and "rc_of m addr = Some c" and "0 < c" and "page_in m addr"
  shows "(\<forall>k < unat c. \<exists>m'. release_times mem addr k m = Some m' \<and> pmm_wf m' \<and> physical m' = physical m) \<and>
    (\<exists>m'. release_times mem addr (unat c) m = Some m' \<and> pmm_wf m' \<and> rc_of m' = (rc_of m)(addr := None) \<and>
       (\<forall>j. bm_bit (physical m') j = (j \<noteq> unat addr div 4096 \<and> bm_bit (physical m) j)))"
proof
  have al: "addr mod PAGE_SIZE = 0" using assms(4) by (simp add: page_in_def)
  then show "\<forall>k < unat c. \<exists>m'. release_times mem addr k m = Some m' \<and> pmm_wf m' \<and> physical m' = physical m"
    using release_times_shared [OF assms(1,2)] by metis
  obtain n where n: "unat c = Suc n" using assms(3) by (cases "unat c") (auto simp: word_less_nat_alt)
  have "of_nat (Suc n) = c" unfolding n [symmetric] by simp
  then have cn: "c - of_nat n = 1" by (auto simp: algebra_simps)
  obtain m1 where m1: "release_times mem addr n m = Some m1" "pmm_wf m1" "physical m1 = physical m"
    "rc_of m1 = (rc_of m)(addr \<mapsto> 1)"
    using release_times_shared [OF assms(1,2) _ al, of n] n cn by auto
  obtain m2 where m2: "pmm_release mem m1 addr = Some m2" "pmm_wf m2" "rc_of m2 = (rc_of m1)(addr := None)"
    "\<And>j. bm_bit (physical m2) j = (j \<noteq> unat addr div 4096 \<and> bm_bit (physical m1) j)"
    using pmm_release_last [of m1 addr mem] m1 assms(4) by (auto simp: page_in_def)
  have "release_times mem addr (Suc n) m = Some m2"
    using m1(1) m2(1) release_times_add [of mem addr n 1 m] by simp
  moreover have "rc_of m2 = (rc_of m)(addr := None)" by (simp add: m2(3) m1(4) fun_eq_iff)
  ultimately show "\<exists>m'. release_times mem addr (unat c) m = Some m' \<and> pmm_wf m' \<and> rc_of m' = (rc_of m)(addr := None) \<and>
       (\<forall>j. bm_bit (physical m') j = (j \<noteq> unat addr div 4096 \<and> bm_bit (physical m) j))"
    using m2(2,4) m1(3) n by auto
qed

definition pmm_example :: "u8 list \<Rightarrow> u64 \<Rightarrow> (bytes \<times> u64) option \<Rightarrow> pmm" where
  "pmm_example bits cnt rc = \<lparr>physical = \<lparr>bm_bitmap = bits, bm_block_cnt = cnt, bm_byte_cnt = 0,
       bm_last_deep_fragmented = 0, bm_mem_start = 0\<rparr>, pmm_lock = False,
     refcounts = \<lparr>ht_entry_count = (if rc = None then 0 else 1), ht_capacity = 1,
       ht_entries = [if rc = None then None else Some 4],
       ht_store = (\<lambda>_. \<lparr>he_next = None, he_prev = None, he_hash = fnv1ahash (fst (the rc)),
          he_keysize = length (fst (the rc)), he_key = fst (the rc), he_value = snd (the rc)\<rparr>)\<rparr>,
     refcount_lock = False, pmm_mmap = \<lparr>mm_entries = [], mm_total_memory = 0\<rparr>, hhdm_base = 0, pmm_zero_page = 0\<rparr>"

lemma pmm_example_rep: "ht_rep (refcounts (pmm_example bits cnt rc)) [if rc = None then [] else [4]]"
  by (auto simp: ht_rep_def pmm_example_def ht_entry_ok_def bucket_of_def)

lemma pmm_example_wf:
  "unat cnt \<le> 8 * length bits \<Longrightarrow> unat cnt * 4096 < 2 ^ 64 \<Longrightarrow> pmm_wf (pmm_example bits cnt rc)"
  using pmm_example_rep [of bits cnt rc]
  by (auto simp: pmm_wf_def bm_wf_def bm_sized_def bm_addressable_def ht_inv_def pmm_example_def)

lemma pmm_example_rc:
  "rc_of (pmm_example bits cnt rc) addr = (case rc of None \<Rightarrow> None | Some (k, c) \<Rightarrow> if k = addr_key addr then Some c else None)"
proof -
  have "ht_inv (refcounts (pmm_example bits cnt rc))" using pmm_example_rep by (auto simp: ht_inv_def)
  then have "rc_of (pmm_example bits cnt rc) addr = ht_lookup (refcounts (pmm_example bits cnt rc)) (addr_key addr)"
    by (rule rc_of_inv)
  then show ?thesis unfolding ht_lookup_eq [OF pmm_example_rep]
    by (auto simp: pmm_example_def split: option.split)
qed

theorem pmm_alloc_fresh_witness:
  "pmm_wf (pmm_example [1] 8 None) \<and>
   (\<exists>m'. pmm_alloc (pmm_example [1] 8 None) 2 PMM_SECTION_DEFAULT = Some (4096, m') \<and> pmm_wf m' \<and>
      first_fit (physical (pmm_example [1] 8 None)) 2 1)"
proof -
  let ?m = "pmm_example [1] 8 None"
  have wf: "pmm_wf ?m" by (rule pmm_example_wf) auto
  have "map_option fst (pmm_alloc ?m 2 PMM_SECTION_DEFAULT) = Some 4096" by code_simp
  then obtain m' where m': "pmm_alloc ?m 2 PMM_SECTION_DEFAULT = Some (4096, m')" by auto
  then obtain r where r: "first_fit (physical ?m) 2 r" "unat (4096 :: u64) = unat r * 4096" "pmm_wf m'"
    using pmm_alloc_fresh [OF wf, of 2] by auto
  then have "r = 1" by (simp add: word_unat_eq_iff)
  then show ?thesis using m' r wf by blast
qed

theorem pmm_release_balanced_witness:
  "rc_of (pmm_example [7] 8 (Some (addr_key 4096, 2))) 4096 = Some 2 \<and>
   (\<exists>m'. release_times \<lparr>hm_cache = True, hm_table = None, hm_slot = None, hm_keybuf = False\<rparr> 4096 2
      (pmm_example [7] 8 (Some (addr_key 4096, 2))) = Some m' \<and> \<not> page_used m' 4096 \<and> rc_of m' 4096 = None)"
proof -
  let ?m = "pmm_example [7] 8 (Some (addr_key 4096, 2))"
  have wf: "pmm_wf ?m" by (rule pmm_example_wf) auto
  have rc: "rc_of ?m 4096 = Some 2" by (simp add: pmm_example_rc)
  have pg: "page_in ?m 4096" by (simp add: page_in_def pmm_example_def)
  show ?thesis
    using pmm_release_balanced [OF wf rc _ pg, of "\<lparr>hm_cache = True, hm_table = None, hm_slot = None, hm_keybuf = False\<rparr>"] rc
    by (auto simp: page_used_def)
qed

text \<open>C8. A hold and a release cancel on a page with a recorded count: the count, the other counts and
  the frames are as before.\<close>

theorem pmm_hold_release_roundtrip:
  assumes "pmm_wf m" and "rc_of m addr = Some c" and "0 < c" and "c < - 1" and "addr mod PAGE_SIZE = 0"
  shows "\<exists>m'. pmm_hold mem m addr \<bind> (\<lambda>m1. pmm_release mem m1 addr) = Some m' \<and> pmm_wf m' \<and>
    physical m' = physical m \<and> rc_of m' = rc_of m"
proof -
  obtain m1 where m1: "pmm_hold mem m addr = Some m1" "pmm_wf m1" "physical m1 = physical m"
    "rc_of m1 = (rc_of m)(addr \<mapsto> c + 1)"
    using pmm_hold_counted [OF assms(1,2,5)] by blast
  have "unat (c + 1) = Suc (unat c)" by (rule unat_suc [OF assms(4)])
  then have "1 < c + 1" using assms(3) by (simp add: word_less_nat_alt)
  moreover have "rc_of m1 addr = Some (c + 1)" by (simp add: m1(4))
  ultimately obtain m2 where m2: "pmm_release mem m1 addr = Some m2" "pmm_wf m2" "physical m2 = physical m1"
    "rc_of m2 = (rc_of m1)(addr \<mapsto> c + 1 - 1)"
    using pmm_release_shared [OF m1(2) _ _ assms(5)] by blast
  have "rc_of m2 = rc_of m" using assms(2) by (simp add: m2(4) m1(4) fun_eq_iff)
  then show ?thesis using m1(1,3) m2(1-3) by simp
qed

theorem pmm_hold_release_roundtrip_witness:
  "\<exists>m'. pmm_hold \<lparr>hm_cache = True, hm_table = None, hm_slot = None, hm_keybuf = False\<rparr>
       (pmm_example [7] 8 (Some (addr_key 4096, 2))) 4096 \<bind>
     (\<lambda>m1. pmm_release \<lparr>hm_cache = True, hm_table = None, hm_slot = None, hm_keybuf = False\<rparr> m1 4096) = Some m' \<and>
     rc_of m' 4096 = Some 2"
proof -
  let ?m = "pmm_example [7] 8 (Some (addr_key 4096, 2))"
  have wf: "pmm_wf ?m" by (rule pmm_example_wf) auto
  have rc: "rc_of ?m 4096 = Some 2" by (simp add: pmm_example_rc)
  show ?thesis
    using pmm_hold_release_roundtrip [OF wf rc, of "\<lparr>hm_cache = True, hm_table = None, hm_slot = None, hm_keybuf = False\<rparr>"] rc
    by auto
qed

text \<open>C9. The first hold of an allocated page does not protect it in general. \<open>pmm_hold\<close> looks up the bit whose
  \<^emph>\<open>number\<close> is the address to decide whether the page already has an owner; a hold followed by its
  release keeps the page allocated if and only if that unrelated bit happens to be set, and frees a page
  that is in use otherwise.\<close>

theorem pmm_first_hold_wrong_bit:
  assumes "pmm_wf m" and "ht_inv (refcounts m)" and "rc_of m addr = None" and "page_in m addr"
    and "page_used m addr" and "unat addr < 8 * length (bm_bitmap (physical m))"
    and "hm_slot mem = Some e" and "ht_fresh (refcounts m) e" and "hm_keybuf mem"
  shows "\<exists>m'. pmm_hold mem m addr \<bind> (\<lambda>m1. pmm_release mem m1 addr) = Some m' \<and>
    (page_used m' addr \<longleftrightarrow> bm_bit (physical m) (unat addr))"
proof -
  have al: "addr mod PAGE_SIZE = 0" using assms(4) by (simp add: page_in_def)
  obtain m1 where m1: "pmm_hold mem m addr = Some m1" "pmm_wf m1" "physical m1 = physical m"
    "rc_of m1 = (rc_of m)(addr \<mapsto> (if bm_bit (physical m) (unat addr) then 2 else 1))"
    using pmm_hold_first [OF assms(1-3) al assms(6-9)] by blast
  show ?thesis
  proof (cases "bm_bit (physical m) (unat addr)")
    case True
    then have rc: "rc_of m1 addr = Some 2" by (simp add: m1(4))
    obtain m2 where "pmm_release mem m1 addr = Some m2" "physical m2 = physical m1"
      using pmm_release_shared [OF m1(2) rc _ al, of mem] by auto
    then show ?thesis using True m1 assms(5) by (simp add: page_used_def)
  next
    case False
    then have rc: "rc_of m1 addr = Some 1" by (simp add: m1(4))
    have "page_in m1 addr" using assms(4) m1(3) by (simp add: page_in_def)
    then obtain m2 where "pmm_release mem m1 addr = Some m2"
      "\<And>j. bm_bit (physical m2) j = (j \<noteq> unat addr div 4096 \<and> bm_bit (physical m1) j)"
      using pmm_release_last [OF m1(2) rc] by blast
    then show ?thesis using False m1(1) by (simp add: page_used_def)
  qed
qed

theorem pmm_first_hold_wrong_bit_witness:
  "page_used (pmm_example (2 # replicate 512 0) 4104 None) 4096 \<and>
   (\<exists>m'. pmm_hold \<lparr>hm_cache = True, hm_table = None, hm_slot = Some 0, hm_keybuf = True\<rparr>
       (pmm_example (2 # replicate 512 0) 4104 None) 4096 \<bind>
     (\<lambda>m1. pmm_release \<lparr>hm_cache = True, hm_table = None, hm_slot = Some 0, hm_keybuf = True\<rparr> m1 4096) = Some m' \<and>
     \<not> page_used m' 4096)"
proof -
  let ?m = "pmm_example (2 # replicate 512 0) 4104 None"
  have wf: "pmm_wf ?m" by (rule pmm_example_wf) auto
  have inv: "ht_inv (refcounts ?m)" using pmm_example_rep by (auto simp: ht_inv_def)
  have rc: "rc_of ?m 4096 = None" by (simp add: pmm_example_rc)
  have pg: "page_in ?m 4096" by (simp add: page_in_def pmm_example_def)
  have us: "page_used ?m 4096" by (simp add: page_used_def pmm_example_def bm_bit_def bit_2_iff)
  have cl: "\<not> bm_bit (physical ?m) (unat (4096 :: u64))" by (simp add: pmm_example_def bm_bit_def)
  have fr: "ht_fresh (refcounts ?m) 0" by (simp add: ht_fresh_iff [OF pmm_example_rep])
  show ?thesis
    using pmm_first_hold_wrong_bit [OF wf inv rc pg us, of "\<lparr>hm_cache = True, hm_table = None, hm_slot = Some 0, hm_keybuf = True\<rparr>" 0]
      cl fr us by (auto simp: pmm_example_def)
qed






subsection \<open>Memory maps with holes\<close>











end
