(* ===== verification/Buffers.thy ===== *)
theory Buffers
  imports Links
begin

text \<open>
  The byte ring buffer of \<^verbatim>\<open>kernel/lib/ringbuffer.c\<close> and the growing array of
  \<^verbatim>\<open>kernel/lib/dynarray.c\<close>. The counters \<open>read\<close> and \<open>write\<close> of a ring buffer only grow; the position in
  the data is the counter modulo the size.
\<close>

subsection \<open>Ring buffer\<close>

record ringbuffer =
  rb_size :: u64
  rb_write :: u64
  rb_read :: u64
  rb_data :: "u8 list"

definition ringbuffer_occupancy :: "ringbuffer \<Rightarrow> u64" where
  "ringbuffer_occupancy rb = rb_write rb - rb_read rb"

text \<open>\<open>mapped\<close> is the memory \<open>vmm_map\<close> returned for \<open>ROUND_UP(size, PAGE_SIZE)\<close> bytes, if any; without it the data pointer is null, which
  is memory of no bytes.\<close>

definition ringbuffer_init :: "ringbuffer \<Rightarrow> u64 \<Rightarrow> u8 list option \<Rightarrow> (errno \<times> ringbuffer) option" where
  "ringbuffer_init rb sz mapped = (case mapped of
       None \<Rightarrow> Some (ENOMEM, rb\<lparr>rb_data := []\<rparr>)
     | Some data \<Rightarrow> blit_at data 0 (replicate (unat sz) 0) \<bind> (\<lambda>data'.
         Some (0, \<lparr>rb_size = sz, rb_write = 0, rb_read = 0, rb_data = data'\<rparr>)))"

text \<open>The result is the number of bytes, the bytes stored to the caller's buffer, and the new state.\<close>

definition ringbuffer_read :: "ringbuffer \<Rightarrow> u64 \<Rightarrow> (u64 \<times> u8 list \<times> ringbuffer) option" where
  "ringbuffer_read rb sz0 = (if rb_size rb = 0 then None else
     let occupancy = ringbuffer_occupancy rb;
         sz = min sz0 occupancy;
         initial_offset = rb_read rb mod rb_size rb;
         initial_remaining = rb_size rb - initial_offset;
         initial_size = min sz initial_remaining
     in do {
       first \<leftarrow> slice_at (rb_data rb) (unat initial_offset) (unat initial_size);
       second \<leftarrow> (if initial_size \<noteq> sz then slice_at (rb_data rb) 0 (unat (sz - initial_size)) else Some []);
       Some (sz, first @ second, rb\<lparr>rb_read := rb_read rb + sz\<rparr>)
     })"

definition ringbuffer_write :: "ringbuffer \<Rightarrow> u8 list \<Rightarrow> u64 \<Rightarrow> (u64 \<times> ringbuffer) option" where
  "ringbuffer_write rb buffer sz0 = (if rb_size rb = 0 then None else
     let free_space = rb_size rb - ringbuffer_occupancy rb;
         sz = min sz0 free_space;
         initial_offset = rb_write rb mod rb_size rb;
         initial_remaining = rb_size rb - initial_offset;
         initial_size = min sz initial_remaining
     in do {
       first \<leftarrow> slice_at buffer 0 (unat initial_size);
       data1 \<leftarrow> blit_at (rb_data rb) (unat initial_offset) first;
       data2 \<leftarrow> (if initial_size = sz then do {
                   second \<leftarrow> slice_at buffer (unat initial_size) (unat (sz - initial_size));
                   blit_at data1 0 second
                 } else Some data1);
       Some (sz, rb\<lparr>rb_data := data2, rb_write := rb_write rb + sz\<rparr>)
     })"

text \<open>The invariant: the counters have not wrapped, at most \<open>size\<close> bytes are stored, and the data holds
  \<open>size\<close> bytes. The bytes stored, in order, are \<open>rb_content\<close>.\<close>

definition rb_inv :: "ringbuffer \<Rightarrow> bool" where
  "rb_inv rb \<longleftrightarrow> 0 < unat (rb_size rb) \<and> unat (rb_size rb) \<le> length (rb_data rb) \<and> rb_read rb \<le> rb_write rb \<and>
     unat (rb_write rb) - unat (rb_read rb) \<le> unat (rb_size rb)"

definition rb_at :: "ringbuffer \<Rightarrow> nat \<Rightarrow> u8" where
  "rb_at rb k = rb_data rb ! (k mod unat (rb_size rb))"

definition rb_content :: "ringbuffer \<Rightarrow> u8 list" where
  "rb_content rb = map (rb_at rb) [unat (rb_read rb)..<unat (rb_write rb)]"

lemma rb_occ: "rb_inv rb \<Longrightarrow> unat (ringbuffer_occupancy rb) = unat (rb_write rb) - unat (rb_read rb)"
  by (simp add: ringbuffer_occupancy_def rb_inv_def unat_sub)

lemma length_rb_content: "rb_inv rb \<Longrightarrow> length (rb_content rb) = unat (ringbuffer_occupancy rb)"
  by (simp add: rb_content_def rb_occ)

lemma unat_min: "unat (min a b :: 'a::len word) = min (unat a) (unat b)"
  by (simp add: min_def word_le_nat_alt)

text \<open>The two pieces of a range of \<open>n \<le> size\<close> bytes from counter \<open>c\<close>: up to the end of the data, then from
  its start.\<close>

lemma ring_split:
  fixes c n s :: nat
  assumes "n \<le> s" "0 < s" "i < n"
  shows "(c + i) mod s = (if i < s - c mod s then c mod s + i else i - (s - c mod s))"
proof -
  have lt: "c mod s < s" using assms by simp
  have "(c + i) mod s = (c mod s + i) mod s" by (simp add: mod_simps)
  also have "\<dots> = (if c mod s + i < s then c mod s + i else c mod s + i - s)"
  proof (cases "c mod s + i < s")
    case False
    then have "c mod s + i - s < s" using assms lt by linarith
    then show ?thesis using False by (simp add: le_mod_geq del: mod_add_left_eq)
  qed simp
  finally show ?thesis using lt by auto
qed

lemma ring_slices:
  assumes inv: "0 < s" "s \<le> length xs" "n \<le> s"
  shows "slice_at xs (c mod s) (min n (s - c mod s)) \<bind> (\<lambda>a.
      (if min n (s - c mod s) \<noteq> n then slice_at xs 0 (n - min n (s - c mod s)) else Some []) \<bind> (\<lambda>b. f (a @ b))) =
    f (map (\<lambda>k. xs ! (k mod s)) [c..<c + n])"
proof -
  let ?m = "min n (s - c mod s)"
  have lt: "c mod s < s" using inv by simp
  have 1: "slice_at xs (c mod s) ?m = Some (map (\<lambda>i. xs ! (c mod s + i)) [0..<?m])"
    using inv lt by (intro slice_at_Some) simp
  have 2: "(if ?m \<noteq> n then slice_at xs 0 (n - ?m) else Some []) = Some (map (\<lambda>i. xs ! i) [0..<n - ?m])"
  proof -
    have "n - ?m \<le> length xs" using inv by linarith
    then show ?thesis using slice_at_Some [of 0 "n - ?m" xs] by auto
  qed
  have "map (\<lambda>i. xs ! (c mod s + i)) [0..<?m] @ map (\<lambda>i. xs ! i) [0..<n - ?m] =
      map (\<lambda>k. xs ! (k mod s)) [c..<c + n]"
  proof (rule nth_equalityI)
    fix i assume "i < length (map (\<lambda>i. xs ! (c mod s + i)) [0..<?m] @ map (\<lambda>i. xs ! i) [0..<n - ?m])"
    then have i: "i < n" by simp
    then show "(map (\<lambda>i. xs ! (c mod s + i)) [0..<?m] @ map (\<lambda>i. xs ! i) [0..<n - ?m]) ! i =
        map (\<lambda>k. xs ! (k mod s)) [c..<c + n] ! i"
      using ring_split [OF inv(3,1) i, of c] by (auto simp: nth_append min_def)
  qed simp
  then show ?thesis unfolding 1 2 by simp
qed

lemma ringbuffer_read_eq:
  assumes inv: "rb_inv rb" and n_def: "n = min sz (ringbuffer_occupancy rb)"
  shows "ringbuffer_read rb sz = Some (n, map (rb_at rb) [unat (rb_read rb)..<unat (rb_read rb) + unat n],
    rb\<lparr>rb_read := rb_read rb + n\<rparr>)"
proof -
  let ?s = "rb_size rb" and ?o = "rb_read rb mod rb_size rb"
  let ?m = "min n (?s - ?o)"
  have s: "0 < unat ?s" "unat ?s \<le> length (rb_data rb)" using inv by (auto simp: rb_inv_def)
  have o: "unat ?o = unat (rb_read rb) mod unat ?s" by (simp add: unat_mod_distrib)
  have "?o \<le> ?s" using s o by (simp add: word_le_nat_alt)
  then have r: "unat (?s - ?o) = unat ?s - unat (rb_read rb) mod unat ?s" using o by (simp add: unat_sub)
  have n: "unat n \<le> unat ?s" using inv rb_occ [OF inv] by (simp add: n_def unat_min rb_inv_def min.coboundedI2)
  have m: "unat ?m = min (unat n) (unat ?s - unat (rb_read rb) mod unat ?s)" by (simp add: unat_min r)
  have "?m \<le> n" by simp
  then have d: "unat (n - ?m) = unat n - unat ?m" by (simp add: unat_sub)
  have e: "?m \<noteq> n \<longleftrightarrow> unat ?m \<noteq> unat n" by (simp add: word_unat_eq_iff)
  have "?s \<noteq> 0" using s by auto
  then have "ringbuffer_read rb sz = slice_at (rb_data rb) (unat ?o) (unat ?m) \<bind> (\<lambda>a.
      (if unat ?m \<noteq> unat n then slice_at (rb_data rb) 0 (unat n - unat ?m) else Some []) \<bind> (\<lambda>b.
        Some (n, a @ b, rb\<lparr>rb_read := rb_read rb + n\<rparr>)))"
    unfolding ringbuffer_read_def Let_def n_def [symmetric] d [symmetric] e [symmetric] by simp
  then show ?thesis
    using ring_slices [OF s n, of "unat (rb_read rb)" "\<lambda>xs. Some (n, xs, rb\<lparr>rb_read := rb_read rb + n\<rparr>)"]
    unfolding m o rb_at_def by simp
qed

lemma mod_distinct:
  fixes a b s :: nat
  assumes "a < b" "b < a + s"
  shows "a mod s \<noteq> b mod s"
proof
  assume "a mod s = b mod s"
  then have "s dvd b - a" using assms(1) by (metis less_or_eq_imp_le mod_eq_dvd_iff_nat)
  then show False using assms by (auto dest: dvd_imp_le)
qed

lemma ring_old:
  fixes k w s n :: nat
  assumes "0 < s" "k < w" "w + n \<le> k + s"
  shows "\<not> (w mod s \<le> k mod s \<and> k mod s < w mod s + n)"
proof
  assume a: "w mod s \<le> k mod s \<and> k mod s < w mod s + n"
  define j where "j = k mod s - w mod s"
  have "j < n" "w mod s + j = k mod s" using a by (auto simp: j_def)
  then have "(w + j) mod s = k mod s" by (metis mod_add_left_eq mod_mod_trivial)
  moreover have "k < w + j" "w + j < k + s" using assms \<open>j < n\<close> by auto
  ultimately show False using mod_distinct by metis
qed

lemma ring_write_at:
  fixes w s n :: nat
  assumes s: "0 < s" "s \<le> length xs" "n \<le> s"
    and dat: "\<forall>i < length xs. data ! i =
      (let p = w mod s in if p \<le> i \<and> i < p + n \<and> i < s then buf ! (i - p) else xs ! i)"
  shows "k < w \<Longrightarrow> w + n \<le> k + s \<Longrightarrow> data ! (k mod s) = xs ! (k mod s)"
    and "i < n \<Longrightarrow> data ! ((w + i) mod s) = (if w mod s + i < s then buf ! i else xs ! ((w + i) mod s))"
proof -
  note d = dat [rule_format]
  have lt: "j mod s < length xs" "j mod s < s" for j using s mod_less_divisor [of s j] by linarith+
  show "data ! (k mod s) = xs ! (k mod s)" if "k < w" "w + n \<le> k + s"
    using d [OF lt(1) [of k]] ring_old [OF s(1) that] by (auto simp: Let_def)
  show "data ! ((w + i) mod s) = (if w mod s + i < s then buf ! i else xs ! ((w + i) mod s))" if i: "i < n"
  proof (cases "w mod s + i < s")
    case True
    then have "(w + i) mod s = w mod s + i" using ring_split [OF s(3,1) i, of w] by auto
    then show ?thesis using d [OF lt(1) [of "w + i"]] True i by (simp add: Let_def)
  next
    case False
    then have "(w + i) mod s = i - (s - w mod s)" using ring_split [OF s(3,1) i, of w] by auto
    then have "(w + i) mod s < w mod s" using i s(3) False lt(2) [of w] by linarith
    then show ?thesis using d [OF lt(1) [of "w + i"]] False by (simp add: Let_def)
  qed
qed

lemma ringbuffer_write_eq:
  assumes inv: "rb_inv rb" and n: "n = min sz (rb_size rb - ringbuffer_occupancy rb)" and b: "unat n \<le> length buf"
  obtains data where "ringbuffer_write rb buf sz = Some (n, rb\<lparr>rb_data := data, rb_write := rb_write rb + n\<rparr>)"
    "length data = length (rb_data rb)"
    "\<And>i. i < length data \<Longrightarrow> data ! i =
       (let p = unat (rb_write rb) mod unat (rb_size rb)
        in if p \<le> i \<and> i < p + unat n \<and> i < unat (rb_size rb) then buf ! (i - p) else rb_data rb ! i)"
proof -
  let ?s = "rb_size rb" and ?o = "rb_write rb mod rb_size rb"
  let ?m = "min n (?s - ?o)"
  have s: "0 < unat ?s" "unat ?s \<le> length (rb_data rb)" using inv by (auto simp: rb_inv_def)
  have o: "unat ?o = unat (rb_write rb) mod unat ?s" by (simp add: unat_mod_distrib)
  have lt: "unat ?o < unat ?s" using s o by simp
  then have r: "unat (?s - ?o) = unat ?s - unat ?o" by (intro unat_sub) (simp add: word_le_nat_alt)
  have m: "unat ?m = min (unat n) (unat ?s - unat ?o)" by (simp add: unat_min r)
  have s0: "?s \<noteq> 0" using s by auto
  have f: "slice_at buf 0 (unat ?m) = Some (take (unat ?m) buf)" using b m by (simp add: slice_at_def)
  have len: "length (take (unat ?m) buf) = unat ?m" using b m by simp
  have room: "unat ?o + length (take (unat ?m) buf) \<le> length (rb_data rb)" using s lt len m by linarith
  obtain data where d: "blit_at (rb_data rb) (unat ?o) (take (unat ?m) buf) = Some data"
    "length data = length (rb_data rb)"
    "\<And>i. i < length (rb_data rb) \<Longrightarrow> data ! i =
       (if unat ?o \<le> i \<and> i < unat ?o + unat ?m then take (unat ?m) buf ! (i - unat ?o) else rb_data rb ! i)"
    using blit_at_Some [OF room] unfolding len by blast
  have "slice_at buf (unat n) 0 = Some []" "blit_at data 0 [] = Some data"
    using b by (simp_all add: slice_at_def blit_at_def)
  then have "ringbuffer_write rb buf sz = Some (n, rb\<lparr>rb_data := data, rb_write := rb_write rb + n\<rparr>)"
    unfolding ringbuffer_write_def Let_def n [symmetric] using s0 f d(1) by auto
  moreover have "data ! i = (let p = unat (rb_write rb) mod unat (rb_size rb)
        in if p \<le> i \<and> i < p + unat n \<and> i < unat (rb_size rb) then buf ! (i - p) else rb_data rb ! i)"
    if "i < length data" for i
  proof -
    have "i < unat ?o + unat ?m \<longleftrightarrow> i < unat ?o + unat n \<and> i < unat ?s" unfolding m using lt by linarith
    then show ?thesis using d(3) [of i] that d(2) by (auto simp: Let_def o [symmetric])
  qed
  ultimately show ?thesis using that d(2) by blast
qed

lemma ringbuffer_read_inv:
  assumes inv: "rb_inv rb" and n: "n = min sz (ringbuffer_occupancy rb)"
  shows "rb_inv (rb\<lparr>rb_read := rb_read rb + n\<rparr>)" "unat (rb_read rb + n) = unat (rb_read rb) + unat n"
proof -
  have le: "unat (rb_read rb) + unat n \<le> unat (rb_write rb)"
    using inv rb_occ [OF inv] n by (auto simp: unat_min rb_inv_def word_le_nat_alt)
  show u: "unat (rb_read rb + n) = unat (rb_read rb) + unat n"
    using le unat_u64_less [of "rb_write rb"] by (intro unat_add_lem') simp
  show "rb_inv (rb\<lparr>rb_read := rb_read rb + n\<rparr>)" using inv le u by (auto simp: rb_inv_def word_le_nat_alt)
qed

text \<open>C12. Reading takes the oldest bytes out of the ring buffer: \<open>ringbuffer_read\<close> returns the first
  \<open>min size occupancy\<close> bytes stored, in order, also across the end of the data, and leaves the rest.\<close>

theorem ringbuffer_read_fifo:
  assumes "rb_inv rb"
  shows "\<exists>n rb'. n = min (unat sz) (length (rb_content rb)) \<and>
    ringbuffer_read rb sz = Some (of_nat n, take n (rb_content rb), rb') \<and> rb_inv rb' \<and>
    rb_content rb' = drop n (rb_content rb)"
proof -
  define w where "w = min sz (ringbuffer_occupancy rb)"
  have n: "unat w = min (unat sz) (length (rb_content rb))"
    by (simp add: w_def unat_min length_rb_content [OF assms])
  note inv' = ringbuffer_read_inv [OF assms w_def]
  have le: "unat (rb_read rb) + unat w \<le> unat (rb_write rb)"
    using n length_rb_content [OF assms] rb_occ [OF assms] assms
    by (auto simp: rb_inv_def word_le_nat_alt min_def)
  have "map (rb_at rb) [unat (rb_read rb)..<unat (rb_read rb) + unat w] = take (unat w) (rb_content rb)"
    using le by (simp add: rb_content_def take_map)
  moreover have "rb_content (rb\<lparr>rb_read := rb_read rb + w\<rparr>) = drop (unat w) (rb_content rb)"
    using inv'(2) by (simp add: rb_content_def drop_map rb_at_def)
  moreover have "of_nat (unat w) = w" by simp
  ultimately show ?thesis using ringbuffer_read_eq [OF assms w_def] inv'(1) n by metis
qed

text \<open>C13. \<open>ringbuffer_write\<close> stores \<open>min size (free space)\<close> bytes behind the bytes already stored and never
  touches those. The part that fits before the end of the data is the caller's; of a write that crosses
  the end, the wrapped part is not copied, and the stale bytes at the start of the data are what a reader
  will see.\<close>

theorem ringbuffer_write_appends:
  assumes "rb_inv rb" and "unat sz \<le> length buf" and "unat (rb_write rb) + unat sz < 2 ^ 64"
  shows "\<exists>n rb'. n = min (unat sz) (unat (rb_size rb) - length (rb_content rb)) \<and>
    ringbuffer_write rb buf sz = Some (of_nat n, rb') \<and> rb_inv rb' \<and>
    rb_content rb' = rb_content rb @ map (\<lambda>i.
      if unat (rb_write rb) mod unat (rb_size rb) + i < unat (rb_size rb) then buf ! i
      else rb_at rb (unat (rb_write rb) + i)) [0..<n]"
proof -
  let ?s = "unat (rb_size rb)" and ?w = "unat (rb_write rb)" and ?r = "unat (rb_read rb)"
  define v where "v = min sz (rb_size rb - ringbuffer_occupancy rb)"
  have inv: "0 < ?s" "?s \<le> length (rb_data rb)" "?r \<le> ?w" "?w - ?r \<le> ?s"
    using assms(1) by (auto simp: rb_inv_def word_le_nat_alt)
  have occ: "unat (ringbuffer_occupancy rb) = ?w - ?r" by (rule rb_occ [OF assms(1)])
  have "unat (rb_size rb - ringbuffer_occupancy rb) = ?s - (?w - ?r)"
    using occ inv(4) by (subst unat_sub) (simp_all add: word_le_nat_alt)
  then have v: "unat v = min (unat sz) (?s - (?w - ?r))" by (simp add: v_def unat_min)
  have vb: "unat v \<le> length buf" "?w + unat v < 2 ^ 64" "?w + unat v \<le> ?r + ?s" using v assms(2,3) inv by auto
  obtain data where d: "ringbuffer_write rb buf sz = Some (v, rb\<lparr>rb_data := data, rb_write := rb_write rb + v\<rparr>)"
    "length data = length (rb_data rb)"
    "\<And>i. i < length data \<Longrightarrow> data ! i = (let p = ?w mod ?s
        in if p \<le> i \<and> i < p + unat v \<and> i < ?s then buf ! (i - p) else rb_data rb ! i)"
    using ringbuffer_write_eq [OF assms(1) v_def vb(1)] by blast
  let ?rb = "rb\<lparr>rb_data := data, rb_write := rb_write rb + v\<rparr>"
  have u: "unat (rb_write rb + v) = ?w + unat v" using vb(2) by (intro unat_add_lem') simp
  have vs: "unat v \<le> ?s" using v by auto
  have dat: "\<forall>i < length (rb_data rb). data ! i = (let p = ?w mod ?s
        in if p \<le> i \<and> i < p + unat v \<and> i < ?s then buf ! (i - p) else rb_data rb ! i)" using d(2,3) by simp
  note at = ring_write_at [OF inv(1,2) vs dat]
  have old: "rb_at ?rb k = rb_at rb k" if "?r \<le> k" "k < ?w" for k
    using at(1) [OF that(2)] that vb(3) by (simp add: rb_at_def)
  have new: "rb_at ?rb (?w + i) = (if ?w mod ?s + i < ?s then buf ! i else rb_at rb (?w + i))" if "i < unat v" for i
    using at(2) [OF that] by (simp add: rb_at_def)
  have "rb_content ?rb = map (rb_at ?rb) ([?r..<?w] @ [?w..<?w + unat v])"
    using u inv(3) upt_add_eq_append [of ?r ?w "unat v"] by (simp add: rb_content_def)
  also have "\<dots> = rb_content rb @ map (\<lambda>i. rb_at ?rb (?w + i)) [0..<unat v]"
    using old by (auto simp: rb_content_def intro: nth_equalityI)
  also have "map (\<lambda>i. rb_at ?rb (?w + i)) [0..<unat v] =
      map (\<lambda>i. if ?w mod ?s + i < ?s then buf ! i else rb_at rb (?w + i)) [0..<unat v]"
    using new by simp
  finally have c: "rb_content ?rb = rb_content rb @
      map (\<lambda>i. if ?w mod ?s + i < ?s then buf ! i else rb_at rb (?w + i)) [0..<unat v]" .
  have "rb_inv ?rb" using inv u d(2) vb by (auto simp: rb_inv_def word_le_nat_alt)
  moreover have "v = of_nat (unat v)" by simp
  moreover have "unat v = min (unat sz) (?s - length (rb_content rb))"
    using v length_rb_content [OF assms(1)] occ by simp
  ultimately show ?thesis using d(1) c by metis
qed

abbreviation rb_example :: ringbuffer where
  "rb_example \<equiv> \<lparr>rb_size = 4, rb_write = 7, rb_read = 5, rb_data = [10, 11, 12, 13, 0]\<rparr>"

lemma rb_example_inv: "rb_inv rb_example"
  by (simp add: rb_inv_def)

lemma rb_example_content: "rb_content rb_example = [11, 12]"
  by (simp add: rb_content_def rb_at_def upt_rec)

theorem ringbuffer_read_fifo_witness:
  "\<exists>rb'. ringbuffer_read rb_example 9 = Some (2, [11, 12], rb') \<and> rb_content rb' = []"
  using ringbuffer_read_fifo [OF rb_example_inv, of 9] by (auto simp: rb_example_content)

theorem ringbuffer_write_appends_witness:
  "\<exists>rb'. ringbuffer_write rb_example [1, 2, 3] 3 = Some (2, rb') \<and> rb_content rb' = [11, 12, 1, 10]"
  using ringbuffer_write_appends [OF rb_example_inv, of 3 "[1, 2, 3]"]
  by (auto simp: rb_example_content rb_at_def upt_rec)

subsection \<open>Growing array\<close>

record dynarray =
  da_size :: u64
  da_alloc :: u64
  da_elem_size :: u64
  da_elems :: "u8 list"

abbreviation (input) DEFAULT_ALLOC :: u64 where "DEFAULT_ALLOC \<equiv> 32"

text \<open>\<open>fresh\<close> is the memory \<open>kmalloc\<close> returned; \<open>elems\<close> is \<open>None\<close> for a null pointer. The copy takes
  \<open>old_alloc\<close> bytes, the number of elements allocated so far.\<close>

definition alloc_elems :: "u8 list option \<Rightarrow> u64 \<Rightarrow> u8 list option \<Rightarrow> u8 list option" where
  "alloc_elems elems old_alloc fresh = do {
     new_elems \<leftarrow> fresh;
     (case elems of
        None \<Rightarrow> Some new_elems
      | Some old \<Rightarrow> slice_at old 0 (unat old_alloc) \<bind> (\<lambda>bytes. blit_at new_elems 0 bytes))
   }"

definition dynarr_init :: "u64 \<Rightarrow> u64 \<Rightarrow> u8 list option \<Rightarrow> dynarray option" where
  "dynarr_init elem_size init_alloc fresh = do {
     elems \<leftarrow> alloc_elems None 0 fresh;
     Some \<lparr>da_size = 0, da_alloc = (if init_alloc \<noteq> 0 then init_alloc else DEFAULT_ALLOC),
       da_elem_size = elem_size, da_elems = elems\<rparr>
   }"

definition dynarr_free :: "dynarray \<Rightarrow> dynarray" where
  "dynarr_free d = d\<lparr>da_alloc := 0\<rparr>"

definition dynarr_push :: "dynarray \<Rightarrow> u8 list \<Rightarrow> u8 list option \<Rightarrow> (u64 \<times> dynarray) option" where
  "dynarr_push d value fresh = do {
     d1 \<leftarrow> (if da_size d \<ge> da_alloc d then do {
              elems \<leftarrow> alloc_elems (Some (da_elems d)) (da_alloc d) fresh;
              Some (d\<lparr>da_elems := elems, da_alloc := da_alloc d * 2\<rparr>)
            } else Some d);
     elem \<leftarrow> slice_at value 0 (unat (da_elem_size d));
     elems \<leftarrow> blit_at (da_elems d1) (unat (da_size d1 * da_elem_size d1)) elem;
     Some (da_size d1, d1\<lparr>da_elems := elems, da_size := da_size d1 + 1\<rparr>)
   }"

text \<open>The result is the offset of the element, \<open>None\<close> for a null pointer. The bound is the element size.\<close>

definition dynarr_getelem :: "dynarray \<Rightarrow> u64 \<Rightarrow> nat ptr" where
  "dynarr_getelem d index = (if index \<ge> da_elem_size d then None else Some (unat (index * da_elem_size d)))"

text \<open>The bytes of element \<open>i\<close>.\<close>

definition da_elem :: "dynarray \<Rightarrow> nat \<Rightarrow> u8 list" where
  "da_elem d i = take (unat (da_elem_size d)) (drop (i * unat (da_elem_size d)) (da_elems d))"

definition da_inv :: "dynarray \<Rightarrow> bool" where
  "da_inv d \<longleftrightarrow> da_size d \<le> da_alloc d \<and> 0 < unat (da_elem_size d) \<and>
     unat (da_alloc d) * unat (da_elem_size d) \<le> length (da_elems d) \<and>
     2 * unat (da_alloc d) * unat (da_elem_size d) < 2 ^ 64"

lemma da_elem_nth:
  assumes "i * unat (da_elem_size d) + unat (da_elem_size d) \<le> length (da_elems d)"
  shows "da_elem d i = map (\<lambda>j. da_elems d ! (i * unat (da_elem_size d) + j)) [0..<unat (da_elem_size d)]"
  using assms by (auto simp: da_elem_def intro: nth_equalityI)

text \<open>Storing an element behind the others, when there is room.\<close>

lemma da_store:
  assumes sz: "unat (da_size d) < unat (da_alloc d)"
    and inv: "unat (da_alloc d) * unat (da_elem_size d) \<le> length (da_elems d)"
      "unat (da_alloc d) * unat (da_elem_size d) < 2 ^ 64" "0 < unat (da_elem_size d)"
    and v: "unat (da_elem_size d) \<le> length val"
  obtains elems where "slice_at val 0 (unat (da_elem_size d)) = Some (take (unat (da_elem_size d)) val)"
    "blit_at (da_elems d) (unat (da_size d * da_elem_size d)) (take (unat (da_elem_size d)) val) = Some elems"
    "length elems = length (da_elems d)"
    "da_elem (d\<lparr>da_elems := elems\<rparr>) (unat (da_size d)) = take (unat (da_elem_size d)) val"
    "\<And>i. i < unat (da_size d) \<Longrightarrow> da_elem (d\<lparr>da_elems := elems\<rparr>) i = da_elem d i"
proof -
  let ?e = "unat (da_elem_size d)" and ?n = "unat (da_size d)"
  have "(?n + 1) * ?e \<le> unat (da_alloc d) * ?e" using sz by (intro mult_le_mono1) simp
  then have fit: "?n * ?e + ?e \<le> length (da_elems d)" and "?n * ?e < 2 ^ 64" using inv by auto
  then have off: "unat (da_size d * da_elem_size d) = ?n * ?e" by (simp add: unat_word_ariths)
  let ?v = "take ?e val"
  have len: "length ?v = ?e" using v by simp
  obtain elems where e: "blit_at (da_elems d) (?n * ?e) ?v = Some elems" "length elems = length (da_elems d)"
    "\<And>i. i < length (da_elems d) \<Longrightarrow> elems ! i = (if ?n * ?e \<le> i \<and> i < ?n * ?e + ?e then ?v ! (i - ?n * ?e) else da_elems d ! i)"
    using blit_at_Some [of "?n * ?e" ?v "da_elems d"] fit unfolding len by blast
  show ?thesis
  proof (rule that)
    show "slice_at val 0 ?e = Some ?v" using v by (simp add: slice_at_def)
    show "blit_at (da_elems d) (unat (da_size d * da_elem_size d)) ?v = Some elems" using e(1) off by simp
    show "length elems = length (da_elems d)" by (rule e(2))
    show "da_elem (d\<lparr>da_elems := elems\<rparr>) ?n = ?v"
      using da_elem_nth [of ?n "d\<lparr>da_elems := elems\<rparr>"] fit e v by (auto intro: nth_equalityI)
    show "da_elem (d\<lparr>da_elems := elems\<rparr>) i = da_elem d i" if i: "i < ?n" for i
    proof -
      have "(i + 1) * ?e \<le> ?n * ?e" using i by (intro mult_le_mono1) simp
      then have le: "i * ?e + ?e \<le> ?n * ?e" by simp
      then show ?thesis
        using da_elem_nth [of i "d\<lparr>da_elems := elems\<rparr>"] da_elem_nth [of i d] fit e by (auto intro: nth_equalityI)
    qed
  qed
qed

text \<open>C14. \<open>dynarr_push\<close> returns the index of the new element and stores its bytes there. While there is room the
  other elements stay; when the array grows, only the first \<open>alloc\<close> bytes of the old elements are copied
  (\<open>alloc\<close> counts elements), and everything behind them is what the fresh memory held.\<close>

theorem dynarr_push_elems:
  assumes "da_inv d" and "0 < da_alloc d" and "unat (da_elem_size d) \<le> length val"
    and "2 * unat (da_alloc d) * unat (da_elem_size d) \<le> length mem"
  shows "\<exists>d'. dynarr_push d val (Some mem) = Some (da_size d, d') \<and> da_size d' = da_size d + 1 \<and>
    da_elem d' (unat (da_size d)) = take (unat (da_elem_size d)) val \<and>
    (\<forall>i < unat (da_size d). da_elem d' i =
       (if da_size d < da_alloc d then da_elem d i
        else map (\<lambda>j. let k = i * unat (da_elem_size d) + j in if k < unat (da_alloc d) then da_elems d ! k else mem ! k)
               [0..<unat (da_elem_size d)]))"
proof (cases "da_size d < da_alloc d")
  case True
  then have "unat (da_size d) < unat (da_alloc d)" by (simp add: word_less_nat_alt)
  then obtain elems where e: "slice_at val 0 (unat (da_elem_size d)) = Some (take (unat (da_elem_size d)) val)"
    "blit_at (da_elems d) (unat (da_size d * da_elem_size d)) (take (unat (da_elem_size d)) val) = Some elems"
    "da_elem (d\<lparr>da_elems := elems\<rparr>) (unat (da_size d)) = take (unat (da_elem_size d)) val"
    "\<And>i. i < unat (da_size d) \<Longrightarrow> da_elem (d\<lparr>da_elems := elems\<rparr>) i = da_elem d i"
  proof (rule da_store [of d val])
    show "unat (da_alloc d) * unat (da_elem_size d) \<le> length (da_elems d)"
      "unat (da_alloc d) * unat (da_elem_size d) < 2 ^ 64" "0 < unat (da_elem_size d)"
      using assms(1) by (simp_all add: da_inv_def)
  qed (use that assms(3) in simp_all)
  have "dynarr_push d val (Some mem) = Some (da_size d, d\<lparr>da_elems := elems, da_size := da_size d + 1\<rparr>)"
    using True e(1,2) by (simp add: dynarr_push_def not_le [symmetric])
  then show ?thesis using True e(3,4) by (simp add: da_elem_def)
next
  case False
  let ?a = "unat (da_alloc d)" and ?e = "unat (da_elem_size d)"
  have eq: "da_size d = da_alloc d" using False assms(1) by (simp add: da_inv_def)
  have pos: "0 < ?a" "0 < ?e" and len: "?a * ?e \<le> length (da_elems d)" and ov: "2 * ?a * ?e < 2 ^ 64"
    using assms(1,2) by (auto simp: da_inv_def word_less_nat_alt)
  have ae: "?a \<le> ?a * ?e" using pos by simp
  have "2 * ?a \<le> 2 * ?a * ?e" using pos by simp
  then have "2 * ?a < 2 ^ 64" using ov by linarith
  then have dbl: "unat (da_alloc d * 2) = 2 * ?a" by (simp add: unat_word_ariths)
  have sl: "slice_at (da_elems d) 0 ?a = Some (take ?a (da_elems d))" using order_trans [OF ae len] by (simp add: slice_at_def)
  have lt: "length (take ?a (da_elems d)) = ?a" using order_trans [OF ae len] by simp
  have room: "0 + length (take ?a (da_elems d)) \<le> length mem" unfolding lt using ae assms(4) by linarith
  obtain new where new: "blit_at mem 0 (take ?a (da_elems d)) = Some new" "length new = length mem"
    "\<And>i. i < length mem \<Longrightarrow> new ! i =
       (if 0 \<le> i \<and> i < 0 + length (take ?a (da_elems d)) then take ?a (da_elems d) ! (i - 0) else mem ! i)"
    using blit_at_Some [OF room] by blast
  have new3: "new ! i = (if i < ?a then da_elems d ! i else mem ! i)" if "i < length mem" for i
    using new(3) [OF that] unfolding lt by simp
  let ?d = "d\<lparr>da_elems := new, da_alloc := da_alloc d * 2\<rparr>"
  obtain elems where e: "slice_at val 0 ?e = Some (take ?e val)"
    "blit_at new (unat (da_size d * da_elem_size d)) (take ?e val) = Some elems"
    "da_elem (?d\<lparr>da_elems := elems\<rparr>) (unat (da_size d)) = take ?e val"
    "\<And>i. i < unat (da_size d) \<Longrightarrow> da_elem (?d\<lparr>da_elems := elems\<rparr>) i = da_elem ?d i"
  proof (rule da_store [of ?d val])
    show "unat (da_size ?d) < unat (da_alloc ?d)" "unat (da_alloc ?d) * unat (da_elem_size ?d) \<le> length (da_elems ?d)"
      "unat (da_alloc ?d) * unat (da_elem_size ?d) < 2 ^ 64" "0 < unat (da_elem_size ?d)"
      "unat (da_elem_size ?d) \<le> length val"
      using dbl pos eq ov new(2) assms(3,4) by simp_all
  qed (use that in simp)
  have push: "dynarr_push d val (Some mem) = Some (da_size d, ?d\<lparr>da_elems := elems, da_size := da_size d + 1\<rparr>)"
    using False sl new(1) e(1,2) by (simp add: dynarr_push_def alloc_elems_def not_less)
  have old: "da_elem ?d i = map (\<lambda>j. let k = i * ?e + j in if k < ?a then da_elems d ! k else mem ! k) [0..<?e]"
    if "i < unat (da_size d)" for i
  proof -
    have "(i + 1) * ?e \<le> ?a * ?e" using that eq by (intro mult_le_mono1) simp
    then have "i * ?e + ?e \<le> length mem" using assms(4) by simp
    then show ?thesis using da_elem_nth [of i ?d] new(2) new3 by (auto simp: Let_def)
  qed
  show ?thesis
    using push e(3,4) old False by (intro exI [of _ "?d\<lparr>da_elems := elems, da_size := da_size d + 1\<rparr>"]) (simp add: da_elem_def)
qed

abbreviation da_example :: dynarray where
  "da_example \<equiv> \<lparr>da_size = 2, da_alloc = 2, da_elem_size = 2, da_elems = [1, 2, 3, 4]\<rparr>"

theorem dynarr_push_elems_witness:
  "\<exists>d'. dynarr_push da_example [5, 6] (Some [0, 0, 0, 0, 0, 0, 0, 0]) = Some (2, d') \<and>
     da_elem d' 2 = [5, 6] \<and> da_elem d' 0 = [1, 2] \<and> da_elem d' 1 = [0, 0]"
proof -
  have "da_inv da_example" by (simp add: da_inv_def)
  from dynarr_push_elems [OF this, of "[5, 6]" "[0, 0, 0, 0, 0, 0, 0, 0]"]
  obtain d' where d': "dynarr_push da_example [5, 6] (Some [0, 0, 0, 0, 0, 0, 0, 0]) = Some (2, d')" "da_elem d' 2 = [5, 6]"
    "\<forall>i < 2. da_elem d' i = map (\<lambda>j. let k = i * 2 + j in if k < 2 then da_elems da_example ! k else [0, 0, 0, 0, 0, 0, 0, 0] ! k) [0..<2]"
    by auto
  have "da_elem d' 0 = [1, 2]" "da_elem d' 1 = [0, 0]" using d'(3) by (auto simp: upt_rec)
  then show ?thesis using d'(1,2) by blast
qed

end
