(* ===== verification/Sched.thy ===== *)
theory Sched
  imports Links
begin

text \<open>
  The run queues of \<^verbatim>\<open>kernel/sys/scheduler.c\<close>: 64 doubly linked queues of threads, one per priority, and
  a bitmap of the non-empty ones. Threads live in a store; every operation takes the number \<open>c\<close> of the
  processor that executes it, which stands for \<open>_cpu()\<close>. The lemmas relate the pointer code to a list of
  thread lists.
\<close>

subsection \<open>Threads and processors\<close>

abbreviation (input) THREAD_FLAGS_QUEUED :: u32 where "THREAD_FLAGS_QUEUED \<equiv> 1"
abbreviation (input) THREAD_FLAGS_RUNNING :: u32 where "THREAD_FLAGS_RUNNING \<equiv> 2"
abbreviation (input) THREAD_FLAGS_SLEEP :: u32 where "THREAD_FLAGS_SLEEP \<equiv> 4"
abbreviation (input) THREAD_FLAGS_INTERRUPTIBLE :: u32 where "THREAD_FLAGS_INTERRUPTIBLE \<equiv> 8"
abbreviation (input) THREAD_FLAGS_PREEMPTED :: u32 where "THREAD_FLAGS_PREEMPTED \<equiv> 16"
abbreviation (input) THREAD_FLAGS_DEAD :: u32 where "THREAD_FLAGS_DEAD \<equiv> 32"

abbreviation (input) WAKEUP_REASON_NORMAL :: int where "WAKEUP_REASON_NORMAL \<equiv> 0"
abbreviation (input) WAKEUP_REASON_INTERRUPTED :: int where "WAKEUP_REASON_INTERRUPTED \<equiv> - 1"

text \<open>Of the saved processor context, the scheduler reads the stack pointer and the interrupt flag.\<close>

record cpu_context =
  ctx_sp :: u64
  ctx_int :: bool

record thread =
  th_prev :: "nat ptr"
  th_next :: "nat ptr"
  th_sleep_prev :: "nat ptr"
  th_sleep_next :: "nat ptr"
  th_vmm_context :: "nat ptr"
  th_proc :: "nat ptr"
  th_flags :: u32
  th_priority :: int
  th_tid :: int
  th_sleep_lock :: spinlock
  th_wakeup_reason :: int
  th_sleep_interrupt_status :: bool
  th_should_exit :: bool
  th_cpu :: "nat ptr"
  th_pin :: int
  th_context :: cpu_context

record cpu =
  cpu_thread :: "nat ptr"
  cpu_vmm_context :: "nat ptr"
  cpu_interrupt_status :: bool
  cpu_id :: int
  cpu_ipl :: int
  cpu_idle_thread :: "nat ptr"
  cpu_scheduler_stack :: u64

abbreviation (input) IPL_NORMAL :: int where "IPL_NORMAL \<equiv> 1000"

record run_queue =
  rq_head :: "nat ptr"
  rq_last :: "nat ptr"

abbreviation (input) RUN_QUEUE_COUNT :: nat where "RUN_QUEUE_COUNT \<equiv> 64"

record sched =
  threads :: "nat \<Rightarrow> thread"
  cpus :: "nat \<Rightarrow> cpu"
  run_queue_lock :: spinlock
  run_queue_bitmap :: u64
  run_queues :: "run_queue list"

abbreviation upd_thread :: "nat \<Rightarrow> (thread \<Rightarrow> thread) \<Rightarrow> sched \<Rightarrow> sched" where
  "upd_thread t f s \<equiv> s\<lparr>threads := (threads s)(t := f (threads s t))\<rparr>"

abbreviation upd_cpu :: "nat \<Rightarrow> (cpu \<Rightarrow> cpu) \<Rightarrow> sched \<Rightarrow> sched" where
  "upd_cpu c f s \<equiv> s\<lparr>cpus := (cpus s)(c := f (cpus s c))\<rparr>"

definition flag :: "u32 \<Rightarrow> thread \<Rightarrow> bool" where
  "flag m t \<longleftrightarrow> th_flags t AND m \<noteq> 0"

definition set_flags :: "u32 \<Rightarrow> thread \<Rightarrow> thread" where
  "set_flags m t = t\<lparr>th_flags := th_flags t OR m\<rparr>"

definition clear_flags :: "u32 \<Rightarrow> thread \<Rightarrow> thread" where
  "clear_flags m t = t\<lparr>th_flags := th_flags t AND NOT m\<rparr>"

text \<open>\<open>interrupt_set\<close> of \<^verbatim>\<open>arch/x86_64/cpu/idt.c\<close>, without the interrupts it may deliver.\<close>

definition interrupt_set :: "nat \<Rightarrow> bool \<Rightarrow> sched \<Rightarrow> bool \<times> sched" where
  "interrupt_set c status s =
     (cpu_interrupt_status (cpus s c), upd_cpu c (cpu_interrupt_status_update (\<lambda>_. status)) s)"

definition current_thread :: "nat \<Rightarrow> sched \<Rightarrow> nat ptr" where
  "current_thread c s = cpu_thread (cpus s c)"

subsection \<open>Queue operations\<close>

definition sched_pin :: "nat \<Rightarrow> int \<Rightarrow> sched \<Rightarrow> sched option" where
  "sched_pin c pin s = do {
     let (old, s1) = interrupt_set c False s;
     t \<leftarrow> current_thread c s1;
     let s2 = upd_thread t (th_pin_update (\<lambda>_. pin)) s1;
     Some (snd (interrupt_set c old s2))
   }"

definition runnable_here :: "nat \<Rightarrow> sched \<Rightarrow> nat \<Rightarrow> bool" where
  "runnable_here c s t \<longleftrightarrow> th_pin (threads s t) < 0 \<or> th_pin (threads s t) = cpu_id (cpus s c)"

definition queue_get_thread :: "nat \<Rightarrow> nat \<Rightarrow> sched \<Rightarrow> (nat ptr \<times> sched) option" where
  "queue_get_thread c i s = (if i < length (run_queues s) then do {
     found \<leftarrow> walk (th_next \<circ> threads s) (runnable_here c s) (rq_head (run_queues s ! i));
     (case found of
        None \<Rightarrow> Some (None, s)
      | Some t \<Rightarrow>
          let x = threads s t;
              s1 = (case th_prev x of
                  Some p \<Rightarrow> upd_thread p (th_next_update (\<lambda>_. th_next x)) s
                | None \<Rightarrow> s\<lparr>run_queues := (run_queues s)[i := (run_queues s ! i)\<lparr>rq_head := th_next x\<rparr>]\<rparr>);
              s2 = (case th_next x of
                  Some n \<Rightarrow> upd_thread n (th_prev_update (\<lambda>_. th_prev x)) s1
                | None \<Rightarrow> s1\<lparr>run_queues := (run_queues s1)[i := (run_queues s1 ! i)\<lparr>rq_last := th_prev x\<rparr>]\<rparr>)
          in Some (Some t, s2))
   } else None)"

text \<open>The loop of \<open>dequeue_next_thread\<close> over the priorities \<open>i\<close>, \<open>i + 1\<close>, \<open>\<dots>\<close>; \<open>n\<close> of them are left.\<close>

primrec dequeue_loop :: "nat \<Rightarrow> nat \<Rightarrow> nat \<Rightarrow> sched \<Rightarrow> (nat ptr \<times> sched) option" where
  "dequeue_loop c 0 i s = Some (None, s)"
| "dequeue_loop c (Suc n) i s = do {
     (thread, s1) \<leftarrow> queue_get_thread c i s;
     (case thread of
        Some t \<Rightarrow> Some (Some t,
          if rq_head (run_queues s1 ! i) = None
          then s1\<lparr>run_queue_bitmap := run_queue_bitmap s1 AND NOT (push_bit i 1)\<rparr> else s1)
      | None \<Rightarrow> dequeue_loop c n (i + 1) s1)
   }"

definition dequeue_next_thread :: "nat \<Rightarrow> int \<Rightarrow> sched \<Rightarrow> (nat ptr \<times> sched) option" where
  "dequeue_next_thread c min_priority s = (if run_queue_bitmap s = 0 then Some (None, s) else do {
     let (int_state, s0) = interrupt_set c False s;
     (thread, s1) \<leftarrow> dequeue_loop c (nat (min (int RUN_QUEUE_COUNT) (min_priority + 1))) 0 s0;
     let s2 = (case thread of None \<Rightarrow> s1 | Some t \<Rightarrow> upd_thread t (clear_flags THREAD_FLAGS_QUEUED) s1);
     Some (thread, snd (interrupt_set c int_state s2))
   })"

text \<open>A priority outside the queues is \<open>None\<close>: the shift and the array access are undefined.\<close>

definition enqueue_thread :: "nat \<Rightarrow> nat \<Rightarrow> sched \<Rightarrow> sched option" where
  "enqueue_thread c t s = (if Some t = cpu_idle_thread (cpus s c) then Some s else do {
     kassert (\<not> flag THREAD_FLAGS_RUNNING (threads s t));
     let s1 = upd_thread t (set_flags THREAD_FLAGS_QUEUED) s;
     let p = th_priority (threads s1 t);
     i \<leftarrow> (if 0 \<le> p \<and> p < int RUN_QUEUE_COUNT then Some (nat p) else None);
     let s2 = s1\<lparr>run_queue_bitmap := run_queue_bitmap s1 OR push_bit i 1\<rparr>;
     let last = rq_last (run_queues s2 ! i);
     let s3 = upd_thread t (th_prev_update (\<lambda>_. last)) s2;
     let s4 = (case last of
         Some l \<Rightarrow> upd_thread l (th_next_update (\<lambda>_. Some t)) s3
       | None \<Rightarrow> s3\<lparr>run_queues := (run_queues s3)[i := (run_queues s3 ! i)\<lparr>rq_head := Some t\<rparr>]\<rparr>);
     let s5 = upd_thread t (th_next_update (\<lambda>_. None)) s4;
     Some (s5\<lparr>run_queues := (run_queues s5)[i := (run_queues s5 ! i)\<lparr>rq_last := Some t\<rparr>]\<rparr>)
   })"

definition sched_queue :: "nat \<Rightarrow> nat \<Rightarrow> sched \<Rightarrow> (errno \<times> sched) option" where
  "sched_queue c t s = do {
     let (int_state, s0) = interrupt_set c False s;
     lock \<leftarrow> spinlock_acquire (run_queue_lock s0);
     let s1 = s0\<lparr>run_queue_lock := lock\<rparr>;
     if flag THREAD_FLAGS_QUEUED (threads s1 t) \<or> flag THREAD_FLAGS_RUNNING (threads s1 t)
     then Some (EEXIST, s1)
     else do {
       s2 \<leftarrow> enqueue_thread c t s1;
       let s3 = s2\<lparr>run_queue_lock := spinlock_release (run_queue_lock s2)\<rparr>;
       Some (0, snd (interrupt_set c int_state s3))
     }
   }"

subsection \<open>Flags\<close>

lemma flag_bits [simp]:
  "flag 1 t = bit (th_flags t) 0" "flag 2 t = bit (th_flags t) 1" "flag 4 t = bit (th_flags t) 2"
  "flag 8 t = bit (th_flags t) 3" "flag 16 t = bit (th_flags t) 4" "flag 32 t = bit (th_flags t) 5"
  using bit_iff_and_push_bit_not_eq_0 [of "th_flags t" 0] bit_iff_and_push_bit_not_eq_0 [of "th_flags t" 1]
    bit_iff_and_push_bit_not_eq_0 [of "th_flags t" 2] bit_iff_and_push_bit_not_eq_0 [of "th_flags t" 3]
    bit_iff_and_push_bit_not_eq_0 [of "th_flags t" 4] bit_iff_and_push_bit_not_eq_0 [of "th_flags t" 5]
  by (simp_all add: flag_def push_bit_eq_mult)

lemma bit_pow: "k < 32 \<Longrightarrow> bit (2 ^ k :: u32) n = (n = k)"
  by (auto simp: bit_exp_iff possible_bit_word)

lemma mask_bits [simp]:
  "bit (1 :: u32) n = (n = 0)" "bit (2 :: u32) n = (n = 1)" "bit (4 :: u32) n = (n = 2)"
  "bit (8 :: u32) n = (n = 3)" "bit (16 :: u32) n = (n = 4)" "bit (32 :: u32) n = (n = 5)"
  using bit_pow [of 0 n] bit_pow [of 1 n] bit_pow [of 2 n] bit_pow [of 3 n] bit_pow [of 4 n] bit_pow [of 5 n]
  by simp_all

lemma set_flags_bits [simp]: "bit (th_flags (set_flags m t)) n = (bit (th_flags t) n \<or> bit m n)"
  by (simp add: set_flags_def bit_or_iff)

lemma clear_flags_bits [simp]:
  "bit (th_flags (clear_flags m t)) n = (bit (th_flags t) n \<and> \<not> bit m n)"
  by (auto simp: clear_flags_def bit_and_iff bit_not_iff dest: bit_imp_le_length)

subsection \<open>Representation of the queues\<close>

definition rq_links :: "sched \<Rightarrow> nat list list \<Rightarrow> bool" where
  "rq_links s qs \<longleftrightarrow> length qs = RUN_QUEUE_COUNT \<and> length (run_queues s) = RUN_QUEUE_COUNT \<and>
     (\<forall>i < RUN_QUEUE_COUNT. rq_head (run_queues s ! i) = first_ptr (qs ! i) None \<and>
        rq_last (run_queues s ! i) = last_ptr (qs ! i) None \<and>
        dseg (th_next \<circ> threads s) (th_prev \<circ> threads s) None (qs ! i) None) \<and>
     distinct (concat qs)"

definition rq_rep :: "sched \<Rightarrow> nat list list \<Rightarrow> bool" where
  "rq_rep s qs \<longleftrightarrow> rq_links s qs \<and>
     (\<forall>i < RUN_QUEUE_COUNT. bit (run_queue_bitmap s) i \<longleftrightarrow> qs ! i \<noteq> [])"

text \<open>Two states that differ at most in the queue links.\<close>

definition unlinked :: "thread \<Rightarrow> thread" where
  "unlinked x = x\<lparr>th_prev := None, th_next := None\<rparr>"

definition links_only :: "sched \<Rightarrow> sched \<Rightarrow> bool" where
  "links_only s s' \<longleftrightarrow> cpus s' = cpus s \<and> run_queue_lock s' = run_queue_lock s \<and>
     (\<forall>a. unlinked (threads s' a) = unlinked (threads s a))"

lemma unlinked_eqD:
  assumes "unlinked x = unlinked y"
  shows "th_flags x = th_flags y" "th_priority x = th_priority y" "th_pin x = th_pin y"
    "th_sleep_lock x = th_sleep_lock y" "th_should_exit x = th_should_exit y"
    "th_wakeup_reason x = th_wakeup_reason y" "th_vmm_context x = th_vmm_context y"
    "th_context x = th_context y" "th_sleep_prev x = th_sleep_prev y" "th_sleep_next x = th_sleep_next y"
    "th_sleep_interrupt_status x = th_sleep_interrupt_status y"
  using assms by (auto simp: unlinked_def dest: arg_cong [of _ _ th_flags] arg_cong [of _ _ th_priority]
      arg_cong [of _ _ th_pin] arg_cong [of _ _ th_sleep_lock] arg_cong [of _ _ th_should_exit]
      arg_cong [of _ _ th_wakeup_reason] arg_cong [of _ _ th_vmm_context] arg_cong [of _ _ th_context]
      arg_cong [of _ _ th_sleep_prev] arg_cong [of _ _ th_sleep_next] arg_cong [of _ _ th_sleep_interrupt_status])

lemma links_only_refl [simp]: "links_only s s"
  by (simp add: links_only_def)

lemma links_only_trans: "links_only s s1 \<Longrightarrow> links_only s1 s2 \<Longrightarrow> links_only s s2"
  by (simp add: links_only_def)

lemma links_only_thread:
  assumes "links_only s s'"
  shows "th_flags (threads s' a) = th_flags (threads s a)" "th_priority (threads s' a) = th_priority (threads s a)"
    "th_pin (threads s' a) = th_pin (threads s a)" "th_sleep_lock (threads s' a) = th_sleep_lock (threads s a)"
    "th_should_exit (threads s' a) = th_should_exit (threads s a)"
  using assms unlinked_eqD [of "threads s' a" "threads s a"] by (auto simp: links_only_def)

lemma runnable_here_links_only: "links_only s s' \<Longrightarrow> runnable_here c s' = runnable_here c s"
  by (simp add: fun_eq_iff runnable_here_def links_only_thread) (simp add: links_only_def)

lemma find_split:
  assumes "List.find P xs = Some x"
  obtains ys zs where "xs = ys @ x # zs" "P x" "\<forall>y \<in> set ys. \<not> P y"
  using assms
proof (induction xs arbitrary: thesis)
  case Nil
  then show ?case by simp
next
  case (Cons a xs)
  show ?case
  proof (cases "P a")
    case True
    then show ?thesis using Cons.prems(2) Cons.prems(1) [of "[]" xs] by simp
  next
    case False
    then obtain ys zs where "xs = ys @ x # zs" "P x" "\<forall>y \<in> set ys. \<not> P y"
      using Cons.IH Cons.prems(2) by auto
    then show ?thesis using Cons.prems(1) [of "a # ys" zs] False by simp
  qed
qed

lemma rq_links_bitmap [simp]: "rq_links (s\<lparr>run_queue_bitmap := b\<rparr>) qs = rq_links s qs"
  by (simp add: rq_links_def)

lemma rq_linksD:
  assumes "rq_links s qs" "i < RUN_QUEUE_COUNT"
  shows "rq_head (run_queues s ! i) = first_ptr (qs ! i) None" "rq_last (run_queues s ! i) = last_ptr (qs ! i) None"
    "dseg (th_next \<circ> threads s) (th_prev \<circ> threads s) None (qs ! i) None" "distinct (qs ! i)" "i < length qs"
    "i < length (run_queues s)"
  using assms distinct_concat_nth [of qs i] by (auto simp: rq_links_def)

text \<open>Taking a thread out of the middle of queue \<open>i\<close>.\<close>

lemma rq_unlink:
  assumes rep: "rq_links s qs" and i: "i < RUN_QUEUE_COUNT" and q: "qs ! i = xs @ t # ys"
    and x: "x = threads s t"
    and s1: "s1 = (case th_prev x of
        Some p \<Rightarrow> upd_thread p (th_next_update (\<lambda>_. th_next x)) s
      | None \<Rightarrow> s\<lparr>run_queues := (run_queues s)[i := (run_queues s ! i)\<lparr>rq_head := th_next x\<rparr>]\<rparr>)"
    and s2: "s2 = (case th_next x of
        Some n \<Rightarrow> upd_thread n (th_prev_update (\<lambda>_. th_prev x)) s1
      | None \<Rightarrow> s1\<lparr>run_queues := (run_queues s1)[i := (run_queues s1 ! i)\<lparr>rq_last := th_prev x\<rparr>]\<rparr>)"
  shows "rq_links s2 (qs[i := xs @ ys])" "links_only s s2" "run_queue_bitmap s2 = run_queue_bitmap s"
proof -
  let ?nx = "th_next \<circ> threads s" and ?pv = "th_prev \<circ> threads s" and ?qs = "qs[i := xs @ ys]"
  note D = rq_linksD [OF rep i, unfolded q]
  have mid: "th_prev x = last_ptr xs None" "th_next x = first_ptr ys None" using dseg_mid [OF D(3)] x by auto
  have nx: "th_next \<circ> threads s2 = (case ?pv t of None \<Rightarrow> ?nx | Some p \<Rightarrow> ?nx(p := ?nx t))"
    unfolding s2 s1 x by (auto simp: fun_eq_iff split: option.split)
  have pv: "th_prev \<circ> threads s2 = (case ?nx t of None \<Rightarrow> ?pv | Some n \<Rightarrow> ?pv(n := ?pv t))"
    unfolding s2 s1 x by (auto simp: fun_eq_iff split: option.split)
  show lo: "links_only s s2" "run_queue_bitmap s2 = run_queue_bitmap s"
    unfolding s2 s1 by (auto simp: links_only_def unlinked_def split: option.split)
  have rq: "run_queues s2 ! j = (if j = i then
      \<lparr>rq_head = first_ptr (xs @ ys) None, rq_last = last_ptr (xs @ ys) None\<rparr> else run_queues s ! j)" for j
  proof -
    have "th_prev x = None \<longleftrightarrow> xs = []" "th_next x = None \<longleftrightarrow> ys = []" using mid by auto
    then show ?thesis using D(1,2,6) mid unfolding s2 s1
      by (cases "xs = []"; cases "ys = []") (auto simp: last_ptr_nonempty first_ptr_nonempty split: option.split)
  qed
  have len: "length (run_queues s2) = length (run_queues s)" unfolding s2 s1 by (auto split: option.split)
  have other: "dseg (th_next \<circ> threads s2) (th_prev \<circ> threads s2) None (qs ! j) None" if "j < RUN_QUEUE_COUNT" "j \<noteq> i" for j
  proof -
    have "a \<notin> set (qs ! j)" if "a \<in> set (xs @ t # ys)" for a
      using rep distinct_concat_disjoint [of qs i j a] that \<open>j < 64\<close> \<open>j \<noteq> i\<close> i q by (auto simp: rq_links_def)
    then have "?pv t = Some p \<Longrightarrow> p \<notin> set (qs ! j)" "?nx t = Some n \<Longrightarrow> n \<notin> set (qs ! j)" for p n
      using mid x by (auto simp: last_ptr_def first_ptr_def split: if_splits list.splits)
    then show ?thesis using rq_linksD(3) [OF rep that(1)] by (auto simp: nx pv split: option.split)
  qed
  have "distinct (concat ?qs)"
    using rep distinct_mset_add [OF mset_concat_unlink [of i qs xs t ys]] D(5) q by (simp add: rq_links_def)
  moreover have "dseg (th_next \<circ> threads s2) (th_prev \<circ> threads s2) None (xs @ ys) None"
    unfolding nx pv by (rule dseg_unlink [OF D(3,4)])
  ultimately show "rq_links s2 ?qs"
    using rep other i len by (auto simp: rq_links_def rq nth_list_update)
qed

lemma remove1_middle: "distinct (xs @ t # ys) \<Longrightarrow> remove1 t (xs @ t # ys) = xs @ ys"
  by (simp add: remove1_append)

lemma queue_get_thread_links:
  assumes rep: "rq_links s qs" and i: "i < RUN_QUEUE_COUNT"
  obtains (none) "List.find (runnable_here c s) (qs ! i) = None" "queue_get_thread c i s = Some (None, s)"
    | (some) t s2 where "List.find (runnable_here c s) (qs ! i) = Some t" "queue_get_thread c i s = Some (Some t, s2)"
      "rq_links s2 (qs[i := remove1 t (qs ! i)])" "links_only s s2" "run_queue_bitmap s2 = run_queue_bitmap s"
proof -
  note D = rq_linksD [OF rep i]
  have w: "walk (th_next \<circ> threads s) (runnable_here c s) (rq_head (run_queues s ! i)) =
      Some (List.find (runnable_here c s) (qs ! i))"
    using walk_dseg [OF D(3)] D(1) by simp
  show ?thesis
  proof (cases "List.find (runnable_here c s) (qs ! i)")
    case None
    then show ?thesis using none w D(6) by (simp add: queue_get_thread_def)
  next
    case (Some t)
    then obtain xs ys where q: "qs ! i = xs @ t # ys" using find_split by metis
    have r: "remove1 t (qs ! i) = xs @ ys" using remove1_middle D(4) q by metis
    obtain s2 where g: "queue_get_thread c i s = Some (Some t, s2)" and
      l: "rq_links s2 (qs[i := xs @ ys])" "links_only s s2" "run_queue_bitmap s2 = run_queue_bitmap s"
      using rq_unlink [OF rep i q refl refl refl] w D(6) Some by (simp add: queue_get_thread_def Let_def)
    show ?thesis by (rule some [OF Some g]) (use l r in simp_all)
  qed
qed

subsection \<open>Selection of the next thread\<close>

text \<open>The specification: the first runnable thread of the first queue that has one.\<close>

primrec pick :: "(nat \<Rightarrow> bool) \<Rightarrow> nat list list \<Rightarrow> (nat \<times> nat) option" where
  "pick el [] = None"
| "pick el (q # qs) = (case List.find el q of
     Some t \<Rightarrow> Some (0, t)
   | None \<Rightarrow> map_option (\<lambda>(j, t). (Suc j, t)) (pick el qs))"

lemma pick_Some:
  "pick el qs = Some (j, t) \<Longrightarrow> j < length qs \<and> List.find el (qs ! j) = Some t \<and>
     (\<forall>k < j. List.find el (qs ! k) = None)"
proof (induction qs arbitrary: j)
  case Nil
  then show ?case by simp
next
  case (Cons q qs)
  then show ?case by (cases j) (auto simp: less_Suc_eq_0_disj split: option.splits)
qed

lemma pick_eqI:
  "j < length qs \<Longrightarrow> List.find el (qs ! j) = Some t \<Longrightarrow> (\<And>k. k < j \<Longrightarrow> List.find el (qs ! k) = None) \<Longrightarrow>
   pick el qs = Some (j, t)"
proof (induction qs arbitrary: j)
  case (Cons q qs)
  show ?case
  proof (cases j)
    case 0
    then show ?thesis using Cons.prems(2) by simp
  next
    case (Suc i)
    have "List.find el q = None" using Cons.prems(3) [of 0] Suc by simp
    moreover have "pick el qs = Some (i, t)"
      using Cons.prems Suc by (intro Cons.IH) (auto simp: Cons.prems(3) [of "Suc _", simplified])
    ultimately show ?thesis using Suc by simp
  qed
qed simp

lemma pick_None: "pick el qs = None \<longleftrightarrow> (\<forall>q \<in> set qs. List.find el q = None)"
  by (induction qs) (auto split: option.split)

lemma pick_take_Some:
  assumes "pick el (take n qs) = Some (j, t)"
  shows "j < length qs" "j < n" "List.find el (qs ! j) = Some t" "t \<in> set (qs ! j)" "el t"
    "\<And>k. k < j \<Longrightarrow> List.find el (qs ! k) = None"
  using pick_Some [OF assms] find_SomeD [of el "qs ! j" t] by auto

lemma bit_clear: "k < 64 \<Longrightarrow> bit ((w :: u64) AND NOT (2 ^ i)) k = (bit w k \<and> k \<noteq> i)"
  by (auto simp: bit_and_iff bit_not_iff bit_exp_iff possible_bit_word)

lemma bit_put: "k < 64 \<Longrightarrow> bit ((w :: u64) OR 2 ^ i) k = (bit w k \<or> k = i)"
  by (auto simp: bit_or_iff bit_exp_iff possible_bit_word)

lemma dequeue_loop_rep:
  assumes "rq_rep s qs" "i + n \<le> RUN_QUEUE_COUNT"
  shows "case pick (runnable_here c s) (take n (drop i qs)) of
      None \<Rightarrow> dequeue_loop c n i s = Some (None, s)
    | Some (j, t) \<Rightarrow> \<exists>s'. dequeue_loop c n i s = Some (Some t, s') \<and> rq_rep s' (qs[i + j := remove1 t (qs ! (i + j))]) \<and>
        links_only s s'"
  using assms(2)
proof (induction n arbitrary: i)
  case 0
  then show ?case by simp
next
  case (Suc n)
  have i: "i < RUN_QUEUE_COUNT" and rep: "rq_links s qs" and len: "length qs = RUN_QUEUE_COUNT"
    using Suc.prems assms by (auto simp: rq_rep_def rq_links_def)
  have cons: "take (Suc n) (drop i qs) = qs ! i # take n (drop (Suc i) qs)"
    using i len by (simp add: Cons_nth_drop_Suc [symmetric])
  from rep i show ?case
  proof (cases rule: queue_get_thread_links [where c = c])
    case none
    then show ?thesis using Suc.IH [of "Suc i"] Suc.prems unfolding cons
      by (auto split: option.splits)
  next
    case (some t s2)
    let ?qs = "qs[i := remove1 t (qs ! i)]"
    have hd: "rq_head (run_queues s2 ! i) = None \<longleftrightarrow> remove1 t (qs ! i) = []"
      using rq_linksD(1) [OF some(3) i] i len by simp
    let ?s = "if rq_head (run_queues s2 ! i) = None
      then s2\<lparr>run_queue_bitmap := run_queue_bitmap s2 AND NOT (push_bit i 1)\<rparr> else s2"
    have "t \<in> set (qs ! i)" using find_SomeD [OF some(1)] by simp
    then have ne: "qs ! i \<noteq> []" by auto
    have bits: "bit (run_queue_bitmap ?s) k \<longleftrightarrow> ?qs ! k \<noteq> []" if "k < RUN_QUEUE_COUNT" for k
      using assms(1) some(5) hd ne that len by (cases "k = i") (auto simp: rq_rep_def bit_clear)
    have "rq_links ?s ?qs" using some(3) by simp
    then have "rq_rep ?s ?qs" using bits by (simp add: rq_rep_def)
    moreover have "links_only s ?s" using some(4) by (auto simp: links_only_def)
    moreover have "dequeue_loop c (Suc n) i s = Some (Some t, ?s)" using some(2) by simp
    ultimately show ?thesis unfolding cons using some(1) by auto
  qed
qed

text \<open>What \<open>dequeue_next_thread\<close> does: it takes the first runnable thread of the most urgent queue that has
  one among the priorities up to \<open>min_priority\<close>, and clears its \<open>QUEUED\<close> flag.\<close>

definition allowed :: "int \<Rightarrow> nat" where
  "allowed min_priority = nat (min (int RUN_QUEUE_COUNT) (min_priority + 1))"

lemma allowed_eq: "allowed mp = nat (min 64 (mp + 1))"
  by (simp add: allowed_def)

lemma interrupt_set_same: "interrupt_set c b s = (b', s1) \<Longrightarrow>
    b' = cpu_interrupt_status (cpus s c) \<and> threads s1 = threads s \<and> run_queues s1 = run_queues s \<and>
    run_queue_bitmap s1 = run_queue_bitmap s \<and> run_queue_lock s1 = run_queue_lock s"
  by (auto simp: interrupt_set_def)

lemma rq_rep_cong:
  assumes "run_queues s1 = run_queues s" "run_queue_bitmap s1 = run_queue_bitmap s"
    "th_next \<circ> threads s1 = th_next \<circ> threads s" "th_prev \<circ> threads s1 = th_prev \<circ> threads s"
  shows "rq_rep s1 qs = rq_rep s qs"
  using assms by (simp add: rq_rep_def rq_links_def)

text \<open>\<open>relinked s s' th\<close>: up to the queue links the threads of \<open>s'\<close> are \<open>th\<close>, and the processors and the
  lock are those of \<open>s\<close>.\<close>

definition relinked :: "sched \<Rightarrow> sched \<Rightarrow> (nat \<Rightarrow> thread) \<Rightarrow> bool" where
  "relinked s s' th \<longleftrightarrow> cpus s' = cpus s \<and> run_queue_lock s' = run_queue_lock s \<and>
     (\<forall>a. unlinked (threads s' a) = unlinked (th a))"

lemma unlinked_flags [simp]:
  "unlinked (clear_flags m x) = clear_flags m (unlinked x)" "unlinked (set_flags m x) = set_flags m (unlinked x)"
  by (simp_all add: unlinked_def clear_flags_def set_flags_def)

lemma flags_links [simp]:
  "th_next (clear_flags m x) = th_next x" "th_prev (clear_flags m x) = th_prev x"
  "th_next (set_flags m x) = th_next x" "th_prev (set_flags m x) = th_prev x"
  "th_priority (set_flags m x) = th_priority x" "th_priority (clear_flags m x) = th_priority x"
  "th_pin (set_flags m x) = th_pin x" "th_pin (clear_flags m x) = th_pin x"
  "th_sleep_lock (set_flags m x) = th_sleep_lock x" "th_sleep_lock (clear_flags m x) = th_sleep_lock x"
  "th_should_exit (set_flags m x) = th_should_exit x" "th_should_exit (clear_flags m x) = th_should_exit x"
  by (simp_all add: clear_flags_def set_flags_def)

lemma upd_cpu_restore:
  "upd_cpu c (cpu_interrupt_status_update (\<lambda>_. cpu_interrupt_status (cpus s c)))
     (upd_cpu c (cpu_interrupt_status_update (\<lambda>_. b)) s) = s"
proof -
  have "(cpus s c)\<lparr>cpu_interrupt_status := cpu_interrupt_status (cpus s c)\<rparr> = cpus s c" by simp
  then show ?thesis by (simp add: fun_upd_idem)
qed

lemma dequeue_next_thread_rep:
  assumes rep: "rq_rep s qs"
  obtains (none) "pick (runnable_here c s) (take (allowed mp) qs) = None" "dequeue_next_thread c mp s = Some (None, s)"
    | (some) j t s' where "pick (runnable_here c s) (take (allowed mp) qs) = Some (j, t)"
      "dequeue_next_thread c mp s = Some (Some t, s')" "rq_rep s' (qs[j := remove1 t (qs ! j)])"
      "relinked s s' ((threads s)(t := clear_flags THREAD_FLAGS_QUEUED (threads s t)))"
proof -
  have len: "length qs = RUN_QUEUE_COUNT" using rep by (simp add: rq_rep_def rq_links_def)
  show ?thesis
  proof (cases "run_queue_bitmap s = 0")
    case True
    then have "qs ! i = []" if "i < RUN_QUEUE_COUNT" for i using rep that by (simp add: rq_rep_def)
    then have "q = []" if "q \<in> set (take (allowed mp) qs)" for q
      using that len by (auto simp: in_set_conv_nth dest!: in_set_takeD)
    then have "pick (runnable_here c s) (take (allowed mp) qs) = None" unfolding pick_None by (metis find.simps(1))
    then show ?thesis using none True by (simp add: dequeue_next_thread_def)
  next
    case False
    let ?s0 = "upd_cpu c (cpu_interrupt_status_update (\<lambda>_. False)) s"
    have rep0: "rq_rep ?s0 qs" using rep by (simp add: rq_rep_def rq_links_def)
    have el: "runnable_here c ?s0 = runnable_here c s" by (simp add: fun_eq_iff runnable_here_def)
    have n: "0 + allowed mp \<le> RUN_QUEUE_COUNT" by (simp add: allowed_def)
    note loop = dequeue_loop_rep [OF rep0 n, of c, unfolded el]
    show ?thesis
    proof (cases "pick (runnable_here c s) (take (allowed mp) qs)")
      case None
      then have "dequeue_loop c (allowed mp) 0 ?s0 = Some (None, ?s0)" using loop by simp
      then have "dequeue_next_thread c mp s = Some (None, s)"
        using False upd_cpu_restore [of s c False]
        by (simp add: dequeue_next_thread_def interrupt_set_def allowed_eq [symmetric])
      then show ?thesis using none None by blast
    next
      case (Some jt)
      obtain j t where jt: "jt = (j, t)" by (cases jt)
      obtain s1 where s1: "dequeue_loop c (allowed mp) 0 ?s0 = Some (Some t, s1)"
        "rq_rep s1 (qs[j := remove1 t (qs ! j)])" "links_only ?s0 s1"
        using loop Some jt by auto
      let ?s2 = "upd_thread t (clear_flags THREAD_FLAGS_QUEUED) s1"
      let ?s' = "upd_cpu c (cpu_interrupt_status_update (\<lambda>_. cpu_interrupt_status (cpus s c))) ?s2"
      have "dequeue_next_thread c mp s = Some (Some t, ?s')"
        using False s1(1) by (simp add: dequeue_next_thread_def interrupt_set_def allowed_eq [symmetric])
      moreover have "rq_rep ?s' (qs[j := remove1 t (qs ! j)]) = rq_rep s1 (qs[j := remove1 t (qs ! j)])"
        by (rule rq_rep_cong) (auto simp: fun_eq_iff)
      moreover have "cpus ?s' = cpus s" using s1(3) by (auto simp: links_only_def fun_eq_iff)
      then have "relinked s ?s' ((threads s)(t := clear_flags THREAD_FLAGS_QUEUED (threads s t)))"
        using s1(3) by (auto simp: relinked_def links_only_def)
      ultimately show ?thesis using some Some jt s1(2) by blast
    qed
  qed
qed

text \<open>\<open>enqueue_thread\<close> appends a thread to the queue of its priority.\<close>

lemma enqueue_thread_rep:
  assumes rep: "rq_rep s qs" and t: "t \<notin> set (concat qs)" and run: "\<not> bit (th_flags (threads s t)) 1"
    and p: "th_priority (threads s t) = int i" "i < RUN_QUEUE_COUNT" and idle: "cpu_idle_thread (cpus s c) \<noteq> Some t"
  obtains s' where "enqueue_thread c t s = Some s'" "rq_rep s' (qs[i := qs ! i @ [t]])"
    "relinked s s' ((threads s)(t := set_flags THREAD_FLAGS_QUEUED (threads s t)))"
proof -
  have links: "rq_links s qs" and len: "length qs = RUN_QUEUE_COUNT" using rep by (auto simp: rq_rep_def rq_links_def)
  note D = rq_linksD [OF links p(2)]
  have tn: "t \<notin> set (qs ! j)" if "j < RUN_QUEUE_COUNT" for j
    using t nth_in_concat [of j qs t] that len by auto
  define last where "last = rq_last (run_queues s ! i)"
  have last: "last = last_ptr (qs ! i) None" using D(2) by (simp add: last_def)
  define s3 where "s3 = s\<lparr>threads := (threads s)(t := (set_flags 1 (threads s t))\<lparr>th_prev := last\<rparr>),
    run_queue_bitmap := run_queue_bitmap s OR push_bit i 1\<rparr>"
  define s4 where "s4 = (case last of
      Some l \<Rightarrow> upd_thread l (th_next_update (\<lambda>_. Some t)) s3
    | None \<Rightarrow> s3\<lparr>run_queues := (run_queues s3)[i := (run_queues s3 ! i)\<lparr>rq_head := Some t\<rparr>]\<rparr>)"
  define s5 where "s5 = upd_thread t (th_next_update (\<lambda>_. None)) s4"
  define s6 where "s6 = s5\<lparr>run_queues := (run_queues s5)[i := (run_queues s5 ! i)\<lparr>rq_last := Some t\<rparr>]\<rparr>"
  have e: "enqueue_thread c t s = Some s6"
    using run idle p unfolding s6_def s5_def s4_def s3_def last_def enqueue_thread_def
    by (cases "rq_last (run_queues s ! i)") (simp_all add: Let_def)
  have ln: "last = Some l \<Longrightarrow> l \<noteq> t \<and> l \<in> set (qs ! i)" for l
    using last tn [OF p(2)] by (auto simp: last_ptr_def split: if_splits)
  have nx: "th_next \<circ> threads s6 = (case last of None \<Rightarrow> (th_next \<circ> threads s)(t := None)
      | Some y \<Rightarrow> ((th_next \<circ> threads s)(y := Some t))(t := None))"
    unfolding s6_def s5_def s4_def s3_def using ln by (auto simp: fun_eq_iff split: option.split)
  have pv: "th_prev \<circ> threads s6 = (th_prev \<circ> threads s)(t := last)"
    unfolding s6_def s5_def s4_def s3_def using ln by (auto simp: fun_eq_iff split: option.split)
  have d: "dseg (th_next \<circ> threads s6) (th_prev \<circ> threads s6) None (qs ! i @ [t]) None"
    unfolding nx pv last by (rule dseg_push_back [OF D(3,4) tn [OF p(2)]])
  have other: "dseg (th_next \<circ> threads s6) (th_prev \<circ> threads s6) None (qs ! j) None" if "j < RUN_QUEUE_COUNT" "j \<noteq> i" for j
  proof -
    have "last = Some l \<Longrightarrow> l \<notin> set (qs ! j)" for l
      using ln distinct_concat_disjoint [of qs i j l] links that p(2) len by (auto simp: rq_links_def)
    then show ?thesis using rq_linksD(3) [OF links that(1)] tn [OF that(1)] by (auto simp: nx pv split: option.split)
  qed
  have rq: "run_queues s6 ! j = (if j = i then \<lparr>rq_head = first_ptr (qs ! i @ [t]) None, rq_last = Some t\<rparr> else run_queues s ! j)" for j
    unfolding s6_def s5_def s4_def s3_def using D(1,6) last
    by (cases "qs ! i = []") (auto simp: last_ptr_nonempty first_ptr_nonempty)
  have "length (run_queues s6) = length (run_queues s)"
    unfolding s6_def s5_def s4_def s3_def by (auto split: option.split)
  moreover have "distinct (concat (qs[i := qs ! i @ [t]]))"
    using distinct_mset_add [OF mset_concat_snoc [of i qs t]] t D(5) links by (simp add: rq_links_def)
  moreover have "run_queue_bitmap s6 = run_queue_bitmap s OR push_bit i 1"
    unfolding s6_def s5_def s4_def s3_def by (auto split: option.split)
  ultimately have "rq_rep s6 (qs[i := qs ! i @ [t]])"
    using rep d other p(2) len by (auto simp: rq_rep_def rq_links_def rq nth_list_update bit_put)
  moreover have "relinked s s6 ((threads s)(t := set_flags THREAD_FLAGS_QUEUED (threads s t)))"
    unfolding s6_def s5_def s4_def s3_def
    by (auto simp: relinked_def unlinked_def set_flags_def split: option.split)
  ultimately show ?thesis using that e by blast
qed

text \<open>An empty scheduler, and a thread of a given priority and pin.\<close>

definition new_thread :: "int \<Rightarrow> int \<Rightarrow> thread" where
  "new_thread priority pin = \<lparr>th_prev = None, th_next = None, th_sleep_prev = None, th_sleep_next = None,
     th_vmm_context = None, th_proc = None, th_flags = 0, th_priority = priority, th_tid = 0, th_sleep_lock = False,
     th_wakeup_reason = 0, th_sleep_interrupt_status = False, th_should_exit = False, th_cpu = None, th_pin = pin,
     th_context = \<lparr>ctx_sp = 0, ctx_int = True\<rparr>\<rparr>"

definition empty_sched :: "(nat \<Rightarrow> thread) \<Rightarrow> sched" where
  "empty_sched th = \<lparr>threads = th,
     cpus = (\<lambda>c. \<lparr>cpu_thread = None, cpu_vmm_context = None, cpu_interrupt_status = True, cpu_id = int c,
       cpu_ipl = IPL_NORMAL, cpu_idle_thread = None, cpu_scheduler_stack = 0\<rparr>),
     run_queue_lock = False, run_queue_bitmap = 0,
     run_queues = replicate RUN_QUEUE_COUNT \<lparr>rq_head = None, rq_last = None\<rparr>\<rparr>"

definition no_queues :: "nat list list" where
  "no_queues = replicate RUN_QUEUE_COUNT []"

lemma no_queues_simps [simp]: "length no_queues = RUN_QUEUE_COUNT" "i < RUN_QUEUE_COUNT \<Longrightarrow> no_queues ! i = []" "concat no_queues = []"
  by (simp_all add: no_queues_def concat_replicate_trivial)

lemma empty_sched_simps [simp]:
  "threads (empty_sched th) = th" "run_queue_lock (empty_sched th) = False" "cpu_idle_thread (cpus (empty_sched th) c) = None"
  "cpu_id (cpus (empty_sched th) c) = int c"
  by (simp_all only: empty_sched_def sched.simps cpu.simps)

lemma new_thread_simps [simp]:
  "th_flags (new_thread priority pin) = 0" "th_priority (new_thread priority pin) = priority" "th_pin (new_thread priority pin) = pin"
  by (simp_all add: new_thread_def)

lemma empty_sched_rep: "rq_rep (empty_sched th) no_queues"
  by (simp add: rq_rep_def rq_links_def empty_sched_def)

text \<open>C18. \<open>dequeue_next_thread\<close> refines the selection on lists of threads: it takes the first thread that may run on this
  processor from the most urgent queue that has one among the priorities up to \<open>min_priority\<close>, unlinks it, clears its
  \<open>QUEUED\<close> flag and keeps the bitmap of the nonempty queues exact; without such a thread the state is unchanged.\<close>

theorem dequeue_next_thread_refines:
  assumes "rq_rep s qs"
  shows "case pick (runnable_here c s) (take (allowed mp) qs) of
      None \<Rightarrow> dequeue_next_thread c mp s = Some (None, s)
    | Some (j, t) \<Rightarrow> \<exists>s'. dequeue_next_thread c mp s = Some (Some t, s') \<and> rq_rep s' (qs[j := remove1 t (qs ! j)]) \<and>
        relinked s s' ((threads s)(t := clear_flags THREAD_FLAGS_QUEUED (threads s t)))"
  by (rule dequeue_next_thread_rep [OF assms, of c mp]) auto

lemma one_thread_rep:
  obtains s where "enqueue_thread 0 7 (empty_sched (\<lambda>_. new_thread 3 0)) = Some s"
    "rq_rep s (no_queues[3 := [7]])" "runnable_here 0 s 7"
proof -
  let ?s = "empty_sched (\<lambda>_. new_thread 3 0)"
  have "7 \<notin> set (concat no_queues)" by (simp only: no_queues_simps set_simps empty_iff not_False_eq_True)
  moreover have "\<not> bit (th_flags (threads ?s 7)) 1" "th_priority (threads ?s 7) = int 3" "3 < RUN_QUEUE_COUNT"
    "cpu_idle_thread (cpus ?s 0) \<noteq> Some 7"
    by simp_all
  ultimately obtain s where s: "enqueue_thread 0 7 ?s = Some s"
    "rq_rep s (no_queues[3 := no_queues ! 3 @ [7]])"
    "relinked ?s s ((threads ?s)(7 := set_flags THREAD_FLAGS_QUEUED (threads ?s 7)))"
    by (rule enqueue_thread_rep [OF empty_sched_rep])
  have "unlinked (threads s 7) = unlinked (set_flags THREAD_FLAGS_QUEUED (threads ?s 7))" using s(3) by (simp add: relinked_def)
  then have "th_pin (threads s 7) = th_pin (threads ?s 7)" using unlinked_eqD(3) by fastforce
  then have "runnable_here 0 s 7" using s(3)
    by (simp add: runnable_here_def relinked_def)
  then show ?thesis using that s by simp
qed

theorem dequeue_next_thread_refines_witness:
  "\<exists>s s'. enqueue_thread 0 7 (empty_sched (\<lambda>_. new_thread 3 0)) = Some s \<and>
     dequeue_next_thread 0 63 s = Some (Some 7, s') \<and> rq_rep s' no_queues"
proof -
  let ?qs = "no_queues[3 := [7]]"
  obtain s where s: "enqueue_thread 0 7 (empty_sched (\<lambda>_. new_thread 3 0)) = Some s" "rq_rep s ?qs" "runnable_here 0 s 7"
    by (rule one_thread_rep)
  have "pick (runnable_here 0 s) (take (allowed 63) ?qs) = Some (3, 7)"
    using s(3) by (intro pick_eqI) (simp_all add: allowed_def)
  moreover have "?qs[3 := remove1 7 (?qs ! 3)] = no_queues" using list_update_id [of no_queues 3] by simp
  ultimately show ?thesis using dequeue_next_thread_refines [OF s(2), of 0 63] s(1) by auto
qed

text \<open>C19. \<open>enqueue_thread\<close> refines appending to the list of the thread's priority: a thread that is in no queue, is not
  running and is not the idle thread becomes the last of its queue, with the \<open>QUEUED\<close> flag set, and the bitmap stays exact.\<close>

theorem enqueue_thread_refines:
  assumes "rq_rep s qs" "t \<notin> set (concat qs)" "\<not> flag THREAD_FLAGS_RUNNING (threads s t)"
    and "th_priority (threads s t) = int i" "i < RUN_QUEUE_COUNT" "cpu_idle_thread (cpus s c) \<noteq> Some t"
  shows "\<exists>s'. enqueue_thread c t s = Some s' \<and> rq_rep s' (qs[i := qs ! i @ [t]]) \<and>
     relinked s s' ((threads s)(t := set_flags THREAD_FLAGS_QUEUED (threads s t)))"
  using enqueue_thread_rep [OF assms(1,2) _ assms(4-6)] assms(3) by auto

theorem enqueue_thread_refines_witness:
  "\<exists>s'. enqueue_thread 0 7 (empty_sched (\<lambda>_. new_thread 3 0)) = Some s' \<and>
     rq_rep s' (no_queues[3 := no_queues ! 3 @ [7]]) \<and>
     relinked (empty_sched (\<lambda>_. new_thread 3 0)) s'
       ((threads (empty_sched (\<lambda>_. new_thread 3 0)))(7 := set_flags THREAD_FLAGS_QUEUED (new_thread 3 0)))"
  using enqueue_thread_refines [OF empty_sched_rep, of 7 "\<lambda>_. new_thread 3 0" 3 0]
  by (simp)

text \<open>C20. Queueing a thread that is queued or running already reports \<open>EEXIST\<close> and returns with the lock of the run queues
  taken and the interrupts of the processor disabled, so that the next acquisition of the lock spins for ever.\<close>

theorem sched_queue_keeps_lock:
  assumes "\<not> run_queue_lock s" "flag THREAD_FLAGS_QUEUED (threads s t) \<or> flag THREAD_FLAGS_RUNNING (threads s t)"
  shows "\<exists>s'. sched_queue c t s = Some (EEXIST, s') \<and> \<not> cpu_interrupt_status (cpus s' c) \<and> sched_queue c' t' s' = None"
  using assms by (auto simp: sched_queue_def interrupt_set_def Let_def)

theorem sched_queue_keeps_lock_witness:
  "\<exists>s'. sched_queue 0 7 (empty_sched (\<lambda>_. (new_thread 3 0)\<lparr>th_flags := THREAD_FLAGS_RUNNING\<rparr>)) = Some (EEXIST, s') \<and>
     \<not> cpu_interrupt_status (cpus s' 0) \<and> sched_queue 1 8 s' = None"
  by (rule sched_queue_keeps_lock) simp_all

end
