(* ===== verification/Switch.thy ===== *)
theory Switch
  imports Sched
begin

text \<open>
  Switching between threads (\<^verbatim>\<open>kernel/sys/scheduler.c\<close>): the start of the scheduler, preemption by the timer, yielding, sleeping and
  waking up, exit. Each definition is what one processor does without a step of another one in between; \<open>preempt_pick\<close> and
  \<open>yield_pick\<close> end where the code gives \<open>run_queue_lock\<close> back before the switch. An operation that ends in \<open>switch_thread\<close> does not return to its caller; its result is the
  state in which the next thread runs. The second part states the invariant of the scheduler and shows that a switch keeps it.
\<close>

subsection \<open>Model\<close>

abbreviation (input) SCHEDULER_STACK_SIZE :: u64 where "SCHEDULER_STACK_SIZE \<equiv> 65536"

text \<open>\<open>vmm_switch_context\<close> of \<^verbatim>\<open>kernel/mem/vmm.c\<close>; a null context is dereferenced.\<close>

definition vmm_switch_context :: "nat \<Rightarrow> nat ptr \<Rightarrow> sched \<Rightarrow> sched option" where
  "vmm_switch_context c context s = do {
     ctx \<leftarrow> context;
     let s1 = (case current_thread c s of
         Some t \<Rightarrow> upd_thread t (th_vmm_context_update (\<lambda>_. Some ctx)) s
       | None \<Rightarrow> s);
     Some (upd_cpu c (cpu_vmm_context_update (\<lambda>_. Some ctx)) s1)
   }"

text \<open>The address space changes when the current thread (now \<open>t\<close>) needs another one than the last.\<close>

definition context_part :: "nat \<Rightarrow> nat \<Rightarrow> nat ptr \<Rightarrow> sched \<Rightarrow> sched option" where
  "context_part c t current s = (case current of
       None \<Rightarrow> vmm_switch_context c (th_vmm_context (threads s t)) s
     | Some r \<Rightarrow>
         if th_vmm_context (threads s t) \<noteq> th_vmm_context (threads s r)
         then vmm_switch_context c (th_vmm_context (threads s t)) s else Some s)"

definition switch_thread :: "nat \<Rightarrow> nat \<Rightarrow> sched \<Rightarrow> sched option" where
  "switch_thread c t s = do {
     let s0 = snd (interrupt_set c False s);
     let current = current_thread c s0;
     let s1 = upd_cpu c (cpu_thread_update (\<lambda>_. Some t)) s0;
     s2 \<leftarrow> context_part c t current s1;
     let s3 = upd_cpu c (cpu_interrupt_status_update (\<lambda>_. ctx_int (th_context (threads s2 t)))) s2;
     let s4 = upd_thread t (th_cpu_update (\<lambda>_. Some c)) s3;
     lock \<leftarrow> spinlock_acquire (run_queue_lock s4);
     let s5 = s4\<lparr>run_queue_lock := lock\<rparr>;
     let s6 = (case current of
         None \<Rightarrow> s5
       | Some r \<Rightarrow> upd_thread r (clear_flags THREAD_FLAGS_RUNNING) s5);
     kassert (\<not> flag THREAD_FLAGS_RUNNING (threads s6 t));
     let s7 = (case current of
         None \<Rightarrow> s6
       | Some r \<Rightarrow> if flag THREAD_FLAGS_SLEEP (threads s6 r)
                  then upd_thread r (th_sleep_lock_update (\<lambda>l. spinlock_release l)) s6 else s6);
     let s8 = upd_thread t (set_flags THREAD_FLAGS_RUNNING) s7;
     kassert (\<not> flag THREAD_FLAGS_QUEUED (threads s8 t));
     let s9 = s8\<lparr>run_queue_lock := spinlock_release (run_queue_lock s8)\<rparr>;
     let scheduler_stack = cpu_scheduler_stack (cpus s9 c);
     let sp = ctx_sp (th_context (threads s9 t));
     kassert (\<not> (sp < scheduler_stack \<and> sp \<ge> scheduler_stack - SCHEDULER_STACK_SIZE));
     Some s9
   }"

text \<open>\<open>preempt_callback\<close> up to the release of \<open>run_queue_lock\<close>: the next thread and the state.\<close>

definition preempt_pick :: "nat \<Rightarrow> sched \<Rightarrow> (nat \<times> sched) option" where
  "preempt_pick c s = do {
     lock \<leftarrow> spinlock_acquire (run_queue_lock s);
     let s0 = s\<lparr>run_queue_lock := lock\<rparr>;
     current \<leftarrow> current_thread c s0;
     (next, s1) \<leftarrow> dequeue_next_thread c (th_priority (threads s0 current)) s0;
     let s2 = upd_thread current (clear_flags THREAD_FLAGS_PREEMPTED) s1;
     (n, s3) \<leftarrow> (case next of
         Some n \<Rightarrow> do {
           s' \<leftarrow> enqueue_thread c current (upd_thread current (clear_flags THREAD_FLAGS_RUNNING) s2);
           Some (n, s')
         }
       | None \<Rightarrow> Some (current, s2));
     Some (n, s3\<lparr>run_queue_lock := spinlock_release (run_queue_lock s3)\<rparr>)
   }"

definition preempt_callback :: "nat \<Rightarrow> sched \<Rightarrow> sched option" where
  "preempt_callback c s = do {
     (n, s4) \<leftarrow> preempt_pick c s;
     kassert (\<not> flag THREAD_FLAGS_QUEUED (threads s4 n));
     switch_thread c n s4
   }"

definition sched_stop_thread :: "nat \<Rightarrow> sched \<Rightarrow> sched option" where
  "sched_stop_thread c s = do {
     let s0 = snd (interrupt_set c False s);
     lock \<leftarrow> spinlock_acquire (run_queue_lock s0);
     let s1 = s0\<lparr>run_queue_lock := lock\<rparr>;
     let s2 = (case current_thread c s1 of
         None \<Rightarrow> s1
       | Some r \<Rightarrow> upd_thread r (clear_flags THREAD_FLAGS_RUNNING) s1);
     (next, s3) \<leftarrow> dequeue_next_thread c 0x0fffffff s2;
     n \<leftarrow> (case next of
         Some n \<Rightarrow> do { kassert (\<not> flag THREAD_FLAGS_QUEUED (threads s3 n)); Some n }
       | None \<Rightarrow> cpu_idle_thread (cpus s3 c));
     switch_thread c n (s3\<lparr>run_queue_lock := spinlock_release (run_queue_lock s3)\<rparr>)
   }"

text \<open>The timer hook saves the interrupted context and sends the processor to \<open>preempt_callback\<close>; the
  boolean of the result says whether it does.\<close>

definition timer_hook :: "nat \<Rightarrow> cpu_context \<Rightarrow> sched \<Rightarrow> (bool \<times> sched) option" where
  "timer_hook c context s = do {
     current \<leftarrow> current_thread c s;
     let s0 = snd (interrupt_set c False s);
     if flag THREAD_FLAGS_PREEMPTED (threads s0 current) then Some (False, s0)
     else Some (True, upd_thread current (\<lambda>x. (set_flags THREAD_FLAGS_PREEMPTED x)\<lparr>th_context := context\<rparr>) s0)
   }"

text \<open>A tick of the timer: the interrupted processor continues in \<open>preempt_callback\<close>, which \<open>timer_hook\<close> puts into the context. Otherwise
  it returns to the interrupted code, with the interrupt flag of the context (the end of \<open>__isr\<close>). The load average is left out.\<close>

definition timer_tick :: "nat \<Rightarrow> cpu_context \<Rightarrow> sched \<Rightarrow> sched option" where
  "timer_tick c context s = do {
     (drop, s1) \<leftarrow> timer_hook c context s;
     if drop then preempt_callback c s1 else Some (upd_cpu c (cpu_interrupt_status_update (\<lambda>_. ctx_int context)) s1)
   }"

definition sched_prepare_sleep :: "nat \<Rightarrow> bool \<Rightarrow> sched \<Rightarrow> sched option" where
  "sched_prepare_sleep c interruptible s = do {
     t \<leftarrow> current_thread c s;
     let (old, s0) = interrupt_set c False s;
     let s1 = upd_thread t (th_sleep_interrupt_status_update (\<lambda>_. old)) s0;
     lock \<leftarrow> spinlock_acquire (th_sleep_lock (threads s1 t));
     let s2 = upd_thread t (th_sleep_lock_update (\<lambda>_. lock)) s1;
     Some (upd_thread t (set_flags (THREAD_FLAGS_SLEEP OR (if interruptible then THREAD_FLAGS_INTERRUPTIBLE else 0))) s2)
   }"

text \<open>\<open>yield\<close> up to the release of \<open>run_queue_lock\<close>: the next thread, null if the thread goes on, and the state.\<close>

definition yield_pick :: "nat \<Rightarrow> cpu_context \<Rightarrow> sched \<Rightarrow> (nat ptr \<times> sched) option" where
  "yield_pick c context s = do {
     t \<leftarrow> current_thread c s;
     lock \<leftarrow> spinlock_acquire (run_queue_lock s);
     let s0 = s\<lparr>run_queue_lock := lock\<rparr>;
     let sleeping0 = flag THREAD_FLAGS_SLEEP (threads s0 t);
     (next0, s1) \<leftarrow> dequeue_next_thread c (if sleeping0 then 0x0fffffff else th_priority (threads s0 t)) s0;
     (sleeping, next, s2) \<leftarrow>
       (if sleeping0 \<and> th_should_exit (threads s1 t) \<and> flag THREAD_FLAGS_INTERRUPTIBLE (threads s1 t) then do {
          s' \<leftarrow> (case next0 of Some n \<Rightarrow> enqueue_thread c n s1 | None \<Rightarrow> Some s1);
          Some (False, None, upd_thread t (\<lambda>x. (clear_flags (THREAD_FLAGS_SLEEP OR THREAD_FLAGS_INTERRUPTIBLE) x)
            \<lparr>th_wakeup_reason := WAKEUP_REASON_INTERRUPTED, th_sleep_lock := spinlock_release (th_sleep_lock x)\<rparr>) s')
        } else Some (sleeping0, next0, s1));
     if next \<noteq> None \<or> sleeping then do {
       let s3 = upd_thread t (\<lambda>x. (clear_flags THREAD_FLAGS_RUNNING x)\<lparr>th_context := context\<rparr>) s2;
       s4 \<leftarrow> (if \<not> sleeping then enqueue_thread c t s3 else Some s3);
       n \<leftarrow> (case next of Some n \<Rightarrow> Some n | None \<Rightarrow> cpu_idle_thread (cpus s4 c));
       Some (Some n, s4\<lparr>run_queue_lock := spinlock_release (run_queue_lock s4)\<rparr>)
     }
     else Some (None, s2\<lparr>run_queue_lock := spinlock_release (run_queue_lock s2)\<rparr>)
   }"

definition yield_body :: "nat \<Rightarrow> cpu_context \<Rightarrow> sched \<Rightarrow> sched option" where
  "yield_body c context s = do {
     (next, s1) \<leftarrow> yield_pick c context s;
     (case next of None \<Rightarrow> Some s1 | Some n \<Rightarrow> switch_thread c n s1)
   }"

text \<open>\<open>sched_yield\<close> up to the context switch; \<open>context\<close> is what \<open>_context_save_and_call\<close> saves.\<close>

definition sched_yield :: "nat \<Rightarrow> cpu_context \<Rightarrow> sched \<Rightarrow> sched option" where
  "sched_yield c context s = do {
     kassert (cpu_ipl (cpus s c) = IPL_NORMAL);
     t \<leftarrow> current_thread c s;
     let sleeping = flag THREAD_FLAGS_SLEEP (threads s t);
     let s0 = (if sleeping then s else snd (interrupt_set c False s));
     yield_body c context s0
   }"

text \<open>What \<open>sched_yield\<close> does when the thread runs again: it restores the interrupt flag and returns the
  reason of the wake-up if the thread slept.\<close>

definition sched_yield_return :: "nat \<Rightarrow> nat \<Rightarrow> bool \<Rightarrow> bool \<Rightarrow> sched \<Rightarrow> int \<times> sched" where
  "sched_yield_return c t sleeping old s =
     (if sleeping then th_wakeup_reason (threads s t) else 0, snd (interrupt_set c old s))"

definition sched_wakeup :: "nat \<Rightarrow> nat ptr \<Rightarrow> int \<Rightarrow> sched \<Rightarrow> (bool \<times> sched) option" where
  "sched_wakeup c thread reason s = (case thread of None \<Rightarrow> Some (False, s) | Some t \<Rightarrow> do {
     let (int_state, s0) = interrupt_set c False s;
     lock \<leftarrow> spinlock_acquire (th_sleep_lock (threads s0 t));
     let s1 = upd_thread t (th_sleep_lock_update (\<lambda>_. lock)) s0;
     if \<not> flag THREAD_FLAGS_SLEEP (threads s1 t) \<or>
        (reason = WAKEUP_REASON_INTERRUPTED \<and> \<not> flag THREAD_FLAGS_INTERRUPTIBLE (threads s1 t))
     then
       let s2 = upd_thread t (th_sleep_lock_update (\<lambda>l. spinlock_release l)) s1
       in Some (False, snd (interrupt_set c int_state s2))
     else do {
       let s2 = upd_thread t (\<lambda>x. (clear_flags (THREAD_FLAGS_SLEEP OR THREAD_FLAGS_INTERRUPTIBLE) x)
         \<lparr>th_wakeup_reason := reason\<rparr>) s1;
       (err, s3) \<leftarrow> sched_queue c t s2;
       kassert (err = 0);
       let s4 = upd_thread t (th_sleep_lock_update (\<lambda>l. spinlock_release l)) s3;
       Some (True, snd (interrupt_set c int_state s4))
     }
   })"

definition internal_thread_exit :: "nat \<Rightarrow> sched \<Rightarrow> sched option" where
  "internal_thread_exit c s = do {
     t \<leftarrow> current_thread c s;
     let s0 = upd_cpu c (cpu_thread_update (\<lambda>_. None)) s;
     let s1 = snd (interrupt_set c False s0);
     lock \<leftarrow> spinlock_acquire (run_queue_lock s1);
     let s2 = upd_thread t (set_flags THREAD_FLAGS_DEAD) (s1\<lparr>run_queue_lock := lock\<rparr>);
     sched_stop_thread c (s2\<lparr>run_queue_lock := spinlock_release (run_queue_lock s2)\<rparr>)
   }"

text \<open>\<open>thread_create\<close> of \<^verbatim>\<open>kernel/sys/thread.c\<close>. \<open>slab\<close> says whether \<open>slab_alloc\<close> succeeds, \<open>kernel_stack\<close> is the address that \<open>vmm_map\<close>
  returns and \<open>pid\<close> the one that \<open>proc_new_pid\<close> returns; \<open>kernel_context\<close> is the address of \<open>vmm_kernel_context\<close>.\<close>

definition thread_create ::
  "nat \<Rightarrow> bool \<Rightarrow> u64 option \<Rightarrow> int \<Rightarrow> u64 \<Rightarrow> int \<Rightarrow> nat ptr \<Rightarrow> u64 \<Rightarrow> thread option" where
  "thread_create kernel_context slab kernel_stack pid kernel_stack_size priority proc user_stack =
     (if \<not> slab then None
      else case kernel_stack of
        None \<Rightarrow> None
      | Some st \<Rightarrow>
          let kernel_stack_top = st + kernel_stack_size in
          Some \<lparr>th_prev = None, th_next = None, th_sleep_prev = None, th_sleep_next = None,
            th_vmm_context = (if proc \<noteq> None then None else Some kernel_context), th_proc = proc, th_flags = 0,
            th_priority = priority, th_tid = (if proc \<noteq> None then pid else 0), th_sleep_lock = False,
            th_wakeup_reason = 0, th_sleep_interrupt_status = False, th_should_exit = False, th_cpu = None, th_pin = - 1,
            th_context = \<lparr>ctx_sp = (if proc \<noteq> None then user_stack else kernel_stack_top), ctx_int = True\<rparr>\<rparr>)"

text \<open>The start of the scheduler on the first processor and on the others. \<open>stack\<close> is what \<open>vmm_map\<close> returns, 0 if it fails; \<open>idle\<close> and
  \<open>boot\<close> are what \<open>thread_create\<close> returns, with the address of the thread. The timer is left out.\<close>

definition scheduler_apentry :: "nat \<Rightarrow> u64 \<Rightarrow> (nat \<times> thread) option \<Rightarrow> sched \<Rightarrow> sched option" where
  "scheduler_apentry c stack idle s = do {
     kassert (stack \<noteq> 0);
     let s1 = upd_cpu c (cpu_scheduler_stack_update (\<lambda>_. stack + SCHEDULER_STACK_SIZE)) s;
     (i, x) \<leftarrow> idle;
     Some (upd_cpu c (cpu_idle_thread_update (\<lambda>_. Some i)) (upd_thread i (\<lambda>_. x) s1))
   }"

definition scheduler_init :: "nat \<Rightarrow> u64 \<Rightarrow> (nat \<times> thread) option \<Rightarrow> (nat \<times> thread) option \<Rightarrow> sched \<Rightarrow> sched option" where
  "scheduler_init c stack idle boot s = do {
     kassert (stack \<noteq> 0);
     let s1 = upd_cpu c (cpu_scheduler_stack_update (\<lambda>_. stack + SCHEDULER_STACK_SIZE)) s;
     let s2 = s1\<lparr>run_queue_lock := False\<rparr>;
     (i, x) \<leftarrow> idle;
     let s3 = upd_cpu c (cpu_idle_thread_update (\<lambda>_. Some i)) (upd_thread i (\<lambda>_. x) s2);
     (t, y) \<leftarrow> boot;
     Some (upd_cpu c (cpu_thread_update (\<lambda>_. Some t)) (upd_thread t (\<lambda>_. y) s3))
   }"

subsection \<open>The invariant\<close>

abbreviation queued :: "thread \<Rightarrow> bool" where "queued x \<equiv> bit (th_flags x) 0"
abbreviation running :: "thread \<Rightarrow> bool" where "running x \<equiv> bit (th_flags x) (Suc 0)"
abbreviation sleeping :: "thread \<Rightarrow> bool" where "sleeping x \<equiv> bit (th_flags x) 2"
abbreviation dead :: "thread \<Rightarrow> bool" where "dead x \<equiv> bit (th_flags x) 5"

text \<open>A stack pointer outside the scheduler stack of a processor.\<close>

definition sp_ok :: "cpu \<Rightarrow> cpu_context \<Rightarrow> bool" where
  "sp_ok p ctx \<longleftrightarrow> \<not> (ctx_sp ctx < cpu_scheduler_stack p \<and> ctx_sp ctx \<ge> cpu_scheduler_stack p - SCHEDULER_STACK_SIZE)"

definition thread_ok :: "(nat \<Rightarrow> cpu) \<Rightarrow> thread \<Rightarrow> bool" where
  "thread_ok cs x \<longleftrightarrow> 0 \<le> th_priority x \<and> th_priority x < int RUN_QUEUE_COUNT \<and> th_vmm_context x \<noteq> None \<and>
     (\<forall>c. sp_ok (cs c) (th_context x))"

text \<open>Where a thread is: in a run queue, on a processor, or at neither place (it sleeps, is dead or was never queued).\<close>

datatype place = Away | Queue | On nat

text \<open>What the flags and the sleep lock of a thread say at each place. On a processor, the sleep lock is held between
  \<open>sched_prepare_sleep\<close> and the switch away.\<close>

fun fit :: "place \<Rightarrow> thread \<Rightarrow> bool" where
  "fit Queue x \<longleftrightarrow> queued x \<and> \<not> running x \<and> \<not> sleeping x \<and> \<not> dead x \<and> \<not> th_sleep_lock x"
| "fit (On c) x \<longleftrightarrow> \<not> queued x \<and> \<not> dead x \<and> th_sleep_lock x = sleeping x"
| "fit Away x \<longleftrightarrow> \<not> queued x \<and> (running x \<longrightarrow> dead x) \<and> (dead x \<longrightarrow> \<not> sleeping x) \<and> \<not> th_sleep_lock x"

definition in_prio :: "nat list list \<Rightarrow> (nat \<Rightarrow> thread) \<Rightarrow> bool" where
  "in_prio qs th \<longleftrightarrow> (\<forall>i < length qs. \<forall>t \<in> set (qs ! i). th_priority (th t) = int i)"

text \<open>The clauses on the idle threads: they are never queued, never sleep and run only on their own processor; a processor that runs has
  one.\<close>

definition idle_ok :: "(nat \<Rightarrow> place) \<Rightarrow> (nat \<Rightarrow> thread) \<Rightarrow> (nat \<Rightarrow> cpu) \<Rightarrow> bool" where
  "idle_ok pl th cs \<longleftrightarrow>
     (\<forall>c t. cpu_idle_thread (cs c) = Some t \<longrightarrow> (pl t = Away \<or> pl t = On c) \<and> \<not> sleeping (th t) \<and> \<not> dead (th t)) \<and>
     (\<forall>c d t. cpu_idle_thread (cs c) = Some t \<longrightarrow> cpu_idle_thread (cs d) = Some t \<longrightarrow> c = d) \<and>
     (\<forall>c. cpu_thread (cs c) \<noteq> None \<longrightarrow> cpu_idle_thread (cs c) \<noteq> None)"

definition core :: "(nat \<Rightarrow> place) \<Rightarrow> nat list list \<Rightarrow> (nat \<Rightarrow> thread) \<Rightarrow> (nat \<Rightarrow> cpu) \<Rightarrow> bool" where
  "core pl qs th cs \<longleftrightarrow>
     in_prio qs th \<and>
     (\<forall>t. pl t = Queue \<longleftrightarrow> t \<in> set (concat qs)) \<and>
     (\<forall>c t. pl t = On c \<longleftrightarrow> cpu_thread (cs c) = Some t) \<and>
     (\<forall>t. thread_ok cs (th t) \<and> fit (pl t) (th t)) \<and>
     (\<forall>c t. pl t = On c \<longrightarrow> sleeping (th t) \<longrightarrow> \<not> cpu_interrupt_status (cs c)) \<and>
     idle_ok pl th cs"

definition sched_inv :: "sched \<Rightarrow> bool" where
  "sched_inv s \<longleftrightarrow> \<not> run_queue_lock s \<and> (\<exists>pl qs. rq_rep s qs \<and> core pl qs (threads s) (cpus s))"

text \<open>What of a thread the invariant depends on.\<close>

definition th_view :: "thread \<Rightarrow> (bool \<times> bool \<times> bool \<times> bool \<times> bool) \<times> int \<times> nat ptr \<times> cpu_context" where
  "th_view x = ((queued x, running x, sleeping x, dead x, th_sleep_lock x), th_priority x, th_vmm_context x, th_context x)"

lemma th_viewD:
  assumes "th_view x = th_view y"
  shows "queued x = queued y" "running x = running y" "sleeping x = sleeping y" "dead x = dead y"
    "th_sleep_lock x = th_sleep_lock y" "th_priority x = th_priority y" "thread_ok cs x = thread_ok cs y"
    "th_vmm_context x = th_vmm_context y" "th_context x = th_context y" "fit p x = fit p y"
proof -
  show "fit p x = fit p y" using assms by (cases p) (auto simp: th_view_def)
qed (use assms in \<open>auto simp: th_view_def thread_ok_def\<close>)

lemma core_cong:
  assumes "\<And>a. th_view (th a) = th_view (th' a)"
  shows "core pl qs th cs = core pl qs th' cs"
  using th_viewD [OF assms] by (simp add: core_def in_prio_def idle_ok_def)

lemma unlinked_view:
  assumes "unlinked x = unlinked y"
  shows "th_view x = th_view y"
  using unlinked_eqD [OF assms] by (simp add: th_view_def)

lemma relinked_view: "relinked s s' th \<Longrightarrow> th_view (threads s' a) = th_view (th a)"
  by (auto simp: relinked_def intro: unlinked_view)

text \<open>The members of the queues after a thread was taken out or appended.\<close>

lemma queue_removed:
  assumes "distinct (concat qs)" "j < length qs" "n \<in> set (qs ! j)"
  shows "set (concat (qs[j := remove1 n (qs ! j)])) = set (concat qs) - {n}"
proof -
  obtain xs ys where q: "qs ! j = xs @ n # ys" using split_list [OF assms(3)] by blast
  have "distinct (qs ! j)" using distinct_concat_nth [OF assms(1,2)] .
  then have r: "remove1 n (qs ! j) = xs @ ys" unfolding q by (rule remove1_middle)
  note ms = mset_concat_unlink [OF assms(2) q]
  show ?thesis using set_concat_mset [OF ms] distinct_mset_add [OF ms] assms(1) unfolding r by blast
qed

lemma queue_appended: "i < length qs \<Longrightarrow> set (concat (qs[i := qs ! i @ [t]])) = insert t (set (concat qs))"
  by (rule set_concat_mset [OF mset_concat_snoc])

lemma in_prio_removed: "in_prio qs th \<Longrightarrow> in_prio (qs[j := remove1 n (qs ! j)]) th"
  by (cases "j < length qs") (auto simp: in_prio_def nth_list_update split: if_splits dest: notin_set_remove1)

lemma in_prio_appended:
  "in_prio qs th \<Longrightarrow> th_priority (th t) = int i \<Longrightarrow> in_prio (qs[i := qs ! i @ [t]]) th"
  by (cases "i < length qs") (auto simp: in_prio_def nth_list_update split: if_splits)

lemma in_prio_cong: "(\<And>a. th_priority (th' a) = th_priority (th a)) \<Longrightarrow> in_prio qs th' = in_prio qs th"
  by (simp add: in_prio_def)

lemma thread_ok_cpu:
  "cpu_scheduler_stack p = cpu_scheduler_stack (cs c) \<Longrightarrow> thread_ok (cs(c := p)) x = thread_ok cs x"
  by (auto simp: thread_ok_def sp_ok_def)

text \<open>Processor \<open>c\<close> goes from its current thread, which is moved to \<open>P\<close>, to the thread \<open>n\<close>.\<close>

definition moved_to :: "place \<Rightarrow> nat \<Rightarrow> nat \<Rightarrow> (nat \<Rightarrow> cpu) \<Rightarrow> (nat \<Rightarrow> place) \<Rightarrow> nat \<Rightarrow> place" where
  "moved_to P n c cs pl = (\<lambda>t. if t = n then On c else if cpu_thread (cs c) = Some t then P else pl t)"

lemma core_switch:
  assumes core: "core pl qs th cs"
    and n: "pl n = Queue \<or> cpu_idle_thread (cs c) = Some n" "\<not> sleeping (th' n)" "\<not> dead (th' n)"
    and i: "cpu_idle_thread (cs c) \<noteq> None"
    and P: "P = Queue \<or> P = Away" "cpu_idle_thread (cs c) = cpu_thread (cs c) \<Longrightarrow> P = Away"
    and q: "\<And>t. moved_to P n c cs pl t = Queue \<longleftrightarrow> t \<in> set (concat qs')" "in_prio qs' th'"
    and fit: "\<And>t. thread_ok cs (th' t) \<and> fit (moved_to P n c cs pl t) (th' t)"
    and same: "\<And>t. t \<noteq> n \<Longrightarrow> sleeping (th' t) = sleeping (th t) \<and> dead (th' t) = dead (th t)"
    and p: "cpu_thread p = Some n" "cpu_idle_thread p = cpu_idle_thread (cs c)"
      "cpu_scheduler_stack p = cpu_scheduler_stack (cs c)"
  shows "core (moved_to P n c cs pl) qs' th' (cs(c := p))"
proof -
  have on: "pl t = On d \<longleftrightarrow> cpu_thread (cs d) = Some t" for t d using core by (simp add: core_def)
  have idle: "idle_ok pl th cs" and int: "pl t = On d \<Longrightarrow> sleeping (th t) \<Longrightarrow> \<not> cpu_interrupt_status (cs d)" for t d
    using core by (simp_all add: core_def)
  have pn: "pl n = Queue \<or> pl n = Away \<or> pl n = On c"
    using n(1) idle unfolding idle_ok_def by blast
  have on': "moved_to P n c cs pl t = On d \<longleftrightarrow> cpu_thread ((cs(c := p)) d) = Some t" for t d
  proof (cases "t = n")
    case True
    then show ?thesis using pn on [of n d] p(1) by (auto simp: moved_to_def)
  next
    case False
    then show ?thesis using on [of t d] on [of t c] P(1) p(1) by (cases "d = c") (auto simp: moved_to_def)
  qed
  have int': "\<not> cpu_interrupt_status ((cs(c := p)) d)" if "moved_to P n c cs pl t = On d" "sleeping (th' t)" for t d
  proof -
    have t: "t \<noteq> n" using that(2) n(2) by auto
    then have "cpu_thread (cs c) \<noteq> Some t" "pl t = On d" using that(1) P(1) by (auto simp: moved_to_def split: if_splits)
    then show ?thesis using int [of t d] on [of t d] same [OF t] that(2) by auto
  qed
  have idle': "idle_ok (moved_to P n c cs pl) th' (cs(c := p))"
    unfolding idle_ok_def
  proof (intro conjI allI impI)
    fix d t
    assume "cpu_idle_thread ((cs(c := p)) d) = Some t"
    then have t: "cpu_idle_thread (cs d) = Some t" using p(2) by (cases "d = c") simp_all
    have t2: "pl t = Away \<or> pl t = On d" "\<not> sleeping (th t)" "\<not> dead (th t)"
      using idle t unfolding idle_ok_def by blast+
    show "moved_to P n c cs pl t = Away \<or> moved_to P n c cs pl t = On d"
    proof (cases "t = n")
      case True
      then have "cpu_idle_thread (cs c) = Some t" using n(1) t2(1) by auto
      then have "d = c" using t idle by (auto simp: idle_ok_def)
      then show ?thesis using True by (simp add: moved_to_def)
    next
      case False
      show ?thesis
      proof (cases "cpu_thread (cs c) = Some t")
        case True
        then have "pl t = On c" using on by simp
        then have "d = c" using t2(1) by auto
        then show ?thesis using False True t P(2) by (simp add: moved_to_def)
      qed (use False t2(1) in \<open>simp add: moved_to_def\<close>)
    qed
    show "\<not> sleeping (th' t)" "\<not> dead (th' t)" using n(2,3) same [of t] t2(2,3) by (cases "t = n", auto)+
  next
    fix d e t
    assume "cpu_idle_thread ((cs(c := p)) d) = Some t" "cpu_idle_thread ((cs(c := p)) e) = Some t"
    then have "cpu_idle_thread (cs d) = Some t" "cpu_idle_thread (cs e) = Some t" using p(2) by (simp_all split: if_splits)
    then show "d = e" using idle unfolding idle_ok_def by blast
  next
    fix d
    assume d: "cpu_thread ((cs(c := p)) d) \<noteq> None"
    show "cpu_idle_thread ((cs(c := p)) d) \<noteq> None"
    proof (cases "d = c")
      case True
      then show ?thesis using i p(2) by simp
    next
      case False
      then have "cpu_thread (cs d) \<noteq> None" using d by simp
      then show ?thesis using False idle unfolding idle_ok_def by simp
    qed
  qed
  have ok: "thread_ok (cs(c := p)) x = thread_ok cs x" for x by (rule thread_ok_cpu) (rule p(3))
  show ?thesis unfolding core_def ok
    using q fit on' int' idle' by (intro conjI allI impI) blast+
qed

text \<open>A change of one thread that does not move it from or to a processor.\<close>

lemma core_update:
  assumes core: "core pl qs th cs"
    and P: "P = pl t \<or> (P \<in> {Queue, Away} \<and> pl t \<in> {Queue, Away})"
    and q: "\<And>a. (pl(t := P)) a = Queue \<longleftrightarrow> a \<in> set (concat qs')" "in_prio qs' (th(t := x))"
    and fit: "thread_ok cs x" "fit P x"
    and int: "\<And>c. pl t = On c \<Longrightarrow> sleeping x \<Longrightarrow> \<not> cpu_interrupt_status (cs c)"
    and idle: "\<And>c. cpu_idle_thread (cs c) = Some t \<Longrightarrow> P \<noteq> Queue \<and> \<not> sleeping x \<and> \<not> dead x"
  shows "core (pl(t := P)) qs' (th(t := x)) cs"
proof -
  have on0: "pl a = On c \<longleftrightarrow> cpu_thread (cs c) = Some a" for a c using core by (simp add: core_def)
  have on: "(pl(t := P)) a = On c \<longleftrightarrow> cpu_thread (cs c) = Some a" for a c
    using on0 [of a c] P by (cases "a = t") auto
  have idle': "idle_ok (pl(t := P)) (th(t := x)) cs"
    unfolding idle_ok_def
  proof (intro conjI allI impI)
    fix c a
    assume i: "cpu_idle_thread (cs c) = Some a"
    then have a: "pl a = Away \<or> pl a = On c" "\<not> sleeping (th a)" "\<not> dead (th a)"
      using core unfolding core_def idle_ok_def by blast+
    show "(pl(t := P)) a = Away \<or> (pl(t := P)) a = On c" "\<not> sleeping ((th(t := x)) a)" "\<not> dead ((th(t := x)) a)"
      using a i idle [of c] P by auto
  qed (use core in \<open>auto simp: core_def idle_ok_def\<close>)
  have fit': "thread_ok cs ((th(t := x)) a) \<and> fit ((pl(t := P)) a) ((th(t := x)) a)" for a
    using core fit by (auto simp: core_def)
  have int': "\<not> cpu_interrupt_status (cs c)" if "(pl(t := P)) a = On c" "sleeping ((th(t := x)) a)" for a c
  proof (cases "a = t")
    case True
    then show ?thesis using int [of c] on [of t c] on0 [of t c] that by simp
  next
    case False
    then show ?thesis using core on0 [of a c] that by (simp add: core_def)
  qed
  show ?thesis unfolding core_def using q on fit' int' idle' by (intro conjI allI impI) blast+
qed

lemma core_cpu:
  assumes core: "core pl qs th cs" and p: "cpu_thread p = cpu_thread (cs c)" "cpu_idle_thread p = cpu_idle_thread (cs c)"
    "cpu_scheduler_stack p = cpu_scheduler_stack (cs c)"
    and b: "\<And>t. cpu_thread (cs c) = Some t \<Longrightarrow> sleeping (th t) \<Longrightarrow> \<not> cpu_interrupt_status p"
  shows "core pl qs th (cs(c := p))"
proof -
  have ok: "thread_ok (cs(c := p)) x = thread_ok cs x" for x by (rule thread_ok_cpu) (rule p(3))
  have same: "cpu_thread ((cs(c := p)) d) = cpu_thread (cs d)" "cpu_idle_thread ((cs(c := p)) d) = cpu_idle_thread (cs d)" for d
    using p by simp_all
  have idle: "idle_ok pl th (cs(c := p)) = idle_ok pl th cs" by (simp only: idle_ok_def same)
  have int: "\<not> cpu_interrupt_status ((cs(c := p)) d)" if "pl t = On d" "sleeping (th t)" for t d
    using core b that by (cases "d = c") (auto simp: core_def)
  show ?thesis using core int unfolding core_def ok idle same by blast
qed

lemma core_interrupts:
  assumes core: "core pl qs th cs" and b: "\<And>t. cpu_thread (cs c) = Some t \<Longrightarrow> sleeping (th t) \<Longrightarrow> \<not> b"
  shows "core pl qs th (cs(c := (cs c)\<lparr>cpu_interrupt_status := b\<rparr>))"
  using b by (intro core_cpu [OF core]) auto

subsection \<open>The effect of a switch\<close>

definition switched :: "nat \<Rightarrow> nat ptr \<Rightarrow> nat \<Rightarrow> (nat \<Rightarrow> thread) \<Rightarrow> nat \<Rightarrow> thread" where
  "switched c cur n th = (\<lambda>a.
     let y = (if cur = Some a then
                let z = clear_flags THREAD_FLAGS_RUNNING (th a) in if sleeping z then z\<lparr>th_sleep_lock := False\<rparr> else z
              else th a)
     in if a = n then (set_flags THREAD_FLAGS_RUNNING y)\<lparr>th_cpu := Some c\<rparr> else y)"

lemma flags_fields [simp]:
  "th_context (clear_flags m x) = th_context x" "th_context (set_flags m x) = th_context x"
  "th_vmm_context (clear_flags m x) = th_vmm_context x" "th_vmm_context (set_flags m x) = th_vmm_context x"
  "set_flags m (x\<lparr>th_cpu := v\<rparr>) = (set_flags m x)\<lparr>th_cpu := v\<rparr>"
  "clear_flags m (x\<lparr>th_cpu := v\<rparr>) = (clear_flags m x)\<lparr>th_cpu := v\<rparr>"
  "set_flags m (x\<lparr>th_sleep_lock := l\<rparr>) = (set_flags m x)\<lparr>th_sleep_lock := l\<rparr>"
  "x\<lparr>th_cpu := v, th_sleep_lock := l\<rparr> = x\<lparr>th_sleep_lock := l, th_cpu := v\<rparr>"
  by (simp_all add: clear_flags_def set_flags_def)

lemma thread_ok_flags [simp]: "thread_ok cs (set_flags m x) = thread_ok cs x" "thread_ok cs (clear_flags m x) = thread_ok cs x"
  by (simp_all add: thread_ok_def)

lemma sleep_lock_release [simp]: "th_sleep_lock_update spinlock_release x = x\<lparr>th_sleep_lock := False\<rparr>"
  by (simp add: spinlock_release_def)

lemma switch_context_effect:
  assumes "th_vmm_context (threads s n) = Some v" "cpu_thread (cpus s c) = Some n"
  shows "vmm_switch_context c (th_vmm_context (threads s n)) s =
    Some (s\<lparr>cpus := (cpus s)(c := (cpus s c)\<lparr>cpu_vmm_context := Some v\<rparr>)\<rparr>)"
proof -
  have "(threads s)(n := (threads s n)\<lparr>th_vmm_context := Some v\<rparr>) = threads s"
    by (rule fun_upd_idem) (simp add: assms(1) [symmetric])
  then have "upd_thread n (th_vmm_context_update (\<lambda>_. Some v)) s = s" by simp
  then show ?thesis using assms by (simp add: vmm_switch_context_def current_thread_def)
qed


lemma context_part_effect:
  assumes "th_vmm_context (threads s n) \<noteq> None" "cpu_thread (cpus s c) = Some n"
  obtains w where "context_part c n cur s = Some (s\<lparr>cpus := (cpus s)(c := (cpus s c)\<lparr>cpu_vmm_context := w\<rparr>)\<rparr>)"
proof -
  obtain v where v: "th_vmm_context (threads s n) = Some v" using assms(1) by auto
  note e = switch_context_effect [OF v assms(2)]
  have "(cpus s)(c := (cpus s c)\<lparr>cpu_vmm_context := cpu_vmm_context (cpus s c)\<rparr>) = cpus s" by (rule fun_upd_idem) simp
  then have same: "Some s = Some (s\<lparr>cpus := (cpus s)(c := (cpus s c)\<lparr>cpu_vmm_context := cpu_vmm_context (cpus s c)\<rparr>)\<rparr>)"
    by simp
  show ?thesis
  proof (cases "\<exists>r. cur = Some r \<and> th_vmm_context (threads s n) = th_vmm_context (threads s r)")
    case True
    then have "context_part c n cur s = Some s" by (auto simp: context_part_def)
    then show ?thesis using same that by metis
  next
    case False
    then have "context_part c n cur s = vmm_switch_context c (th_vmm_context (threads s n)) s"
      by (auto simp: context_part_def split: option.split)
    then show ?thesis using e that by metis
  qed
qed

lemma switched_eqs:
  "switched c None n th = th(n := (set_flags THREAD_FLAGS_RUNNING (th n))\<lparr>th_cpu := Some c\<rparr>)"
  "switched c (Some r) n th = (let z = clear_flags THREAD_FLAGS_RUNNING (th r);
       th1 = th(r := if sleeping (th r) then z\<lparr>th_sleep_lock := False\<rparr> else z)
     in th1(n := (set_flags THREAD_FLAGS_RUNNING (th1 n))\<lparr>th_cpu := Some c\<rparr>))"
  by (rule ext; simp add: switched_def Let_def)+

lemma switch_thread_effect:
  assumes lock: "\<not> run_queue_lock s" and ctx: "th_vmm_context (threads s n) \<noteq> None"
    and run: "cpu_thread (cpus s c) = Some n \<or> \<not> running (threads s n)" "\<not> queued (threads s n)"
    and sp: "sp_ok (cpus s c) (th_context (threads s n))"
  shows "\<exists>v s'. switch_thread c n s = Some s' \<and> threads s' = switched c (cpu_thread (cpus s c)) n (threads s) \<and>
     cpus s' = (cpus s)(c := (cpus s c)\<lparr>cpu_thread := Some n, cpu_vmm_context := v,
       cpu_interrupt_status := ctx_int (th_context (threads s n))\<rparr>) \<and>
     run_queues s' = run_queues s \<and> run_queue_bitmap s' = run_queue_bitmap s \<and> \<not> run_queue_lock s'"
proof -
  let ?cur = "cpu_thread (cpus s c)"
  let ?s1 = "s\<lparr>cpus := (cpus s)(c := (cpus s c)\<lparr>cpu_interrupt_status := False, cpu_thread := Some n\<rparr>)\<rparr>"
  obtain w where w: "context_part c n ?cur ?s1 = Some (?s1\<lparr>cpus := (cpus ?s1)(c := (cpus ?s1 c)\<lparr>cpu_vmm_context := w\<rparr>)\<rparr>)"
    by (rule context_part_effect [of ?s1 n c]) (use ctx in simp_all)
  have sp': "ctx_sp (th_context (threads s n)) < cpu_scheduler_stack (cpus s c) \<Longrightarrow>
      \<not> cpu_scheduler_stack (cpus s c) - 65536 \<le> ctx_sp (th_context (threads s n))"
    using sp by (simp add: sp_ok_def)
  note defs = switch_thread_def interrupt_set_def current_thread_def Let_def w switched_eqs
  show ?thesis
  proof (intro exI [of _ w], cases ?cur)
    case None
    then show "\<exists>s'. switch_thread c n s = Some s' \<and> threads s' = switched c ?cur n (threads s) \<and>
       cpus s' = (cpus s)(c := (cpus s c)\<lparr>cpu_thread := Some n, cpu_vmm_context := w,
         cpu_interrupt_status := ctx_int (th_context (threads s n))\<rparr>) \<and>
       run_queues s' = run_queues s \<and> run_queue_bitmap s' = run_queue_bitmap s \<and> \<not> run_queue_lock s'"
      using lock run sp' w by (simp add: defs)
  next
    case (Some r)
    then show "\<exists>s'. switch_thread c n s = Some s' \<and> threads s' = switched c ?cur n (threads s) \<and>
       cpus s' = (cpus s)(c := (cpus s c)\<lparr>cpu_thread := Some n, cpu_vmm_context := w,
         cpu_interrupt_status := ctx_int (th_context (threads s n))\<rparr>) \<and>
       run_queues s' = run_queues s \<and> run_queue_bitmap s' = run_queue_bitmap s \<and> \<not> run_queue_lock s'"
      using lock run sp' w by (cases "r = n"; cases "sleeping (threads s r)") (simp_all add: defs fun_upd_twist)
  qed
qed

subsection \<open>Switching keeps the invariant\<close>

lemma switched_view:
  "a \<noteq> n \<Longrightarrow> cur \<noteq> Some a \<Longrightarrow> switched c cur n th a = th a"
  "cur \<noteq> Some n \<Longrightarrow> th_view (switched c cur n th n) = th_view (set_flags THREAD_FLAGS_RUNNING (th n))"
  "r \<noteq> n \<Longrightarrow> switched c (Some r) n th r =
     (let z = clear_flags THREAD_FLAGS_RUNNING (th r) in if sleeping (th r) then z\<lparr>th_sleep_lock := False\<rparr> else z)"
  "th_priority (switched c cur n th a) = th_priority (th a)"
  "th_next (switched c cur n th a) = th_next (th a)" "th_prev (switched c cur n th a) = th_prev (th a)"
  by (simp_all add: switched_def Let_def th_view_def)

lemma coreD:
  assumes "core pl qs th cs"
  shows "in_prio qs th" "pl t = Queue \<longleftrightarrow> t \<in> set (concat qs)" "pl t = On c \<longleftrightarrow> cpu_thread (cs c) = Some t"
    "thread_ok cs (th t)" "fit (pl t) (th t)" "pl t = On c \<Longrightarrow> sleeping (th t) \<Longrightarrow> \<not> cpu_interrupt_status (cs c)" "idle_ok pl th cs"
  using assms by (auto simp: core_def)

lemma idle_exists: "core pl qs th cs \<Longrightarrow> cpu_thread (cs c) = Some r \<Longrightarrow> cpu_idle_thread (cs c) \<noteq> None"
  using coreD(7) [of pl qs th cs] unfolding idle_ok_def by blast

lemma idleD:
  assumes "core pl qs th cs" "cpu_idle_thread (cs c) = Some t"
  shows "pl t = Away \<or> pl t = On c" "\<not> sleeping (th t)" "\<not> dead (th t)" "cpu_idle_thread (cs d) = Some t \<Longrightarrow> d = c"
  using coreD(7) [OF assms(1)] assms(2) unfolding idle_ok_def by blast+

lemma switch_inv:
  assumes core: "core pl qs th cs" and n: "pl n = Queue \<or> cpu_idle_thread (cs c) = Some n" "cpu_thread (cs c) \<noteq> Some n"
    and i: "cpu_idle_thread (cs c) \<noteq> None"
    and P: "P = Queue \<or> P = Away" "cpu_idle_thread (cs c) = cpu_thread (cs c) \<Longrightarrow> P = Away"
    and s: "rq_rep s qs'" "cpus s = cs" "\<not> run_queue_lock s"
    and q: "\<And>t. moved_to P n c cs pl t = Queue \<longleftrightarrow> t \<in> set (concat qs')" "in_prio qs' (threads s)"
    and vn: "th_view (threads s n) = th_view (clear_flags THREAD_FLAGS_QUEUED (th n))"
    and other: "\<And>t. t \<noteq> n \<Longrightarrow> cpu_thread (cs c) \<noteq> Some t \<Longrightarrow> th_view (threads s t) = th_view (th t)"
    and cur: "\<And>r. cpu_thread (cs c) = Some r \<Longrightarrow> thread_ok cs (threads s r) \<and> \<not> dead (threads s r) \<and>
        sleeping (threads s r) = sleeping (th r) \<and> th_sleep_lock (threads s r) = sleeping (th r) \<and>
        queued (threads s r) = (P = Queue) \<and> (P = Queue \<longrightarrow> \<not> sleeping (th r))"
  shows "\<exists>s'. switch_thread c n s = Some s' \<and> sched_inv s'"
proof -
  let ?cur = "cpu_thread (cs c)"
  let ?th' = "switched c ?cur n (threads s)"
  have fn: "\<not> running (th n)" "\<not> sleeping (th n)" "\<not> dead (th n)" "\<not> th_sleep_lock (th n)" "thread_ok cs (th n)"
  proof -
    have "pl n \<noteq> On c" using n(2) coreD(3) [OF core] by simp
    then have "pl n = Queue \<or> pl n = Away \<and> \<not> dead (th n) \<and> \<not> sleeping (th n)"
      using n(1) idleD [OF core, of c n] by auto
    then show "\<not> running (th n)" "\<not> sleeping (th n)" "\<not> dead (th n)" "\<not> th_sleep_lock (th n)"
      using coreD(5) [OF core, of n] by auto
    show "thread_ok cs (th n)" using coreD(4) [OF core] .
  qed
  note v = th_viewD [OF vn]
  have ok_n: "thread_ok cs (threads s n)" using v(7) fn(5) by (simp add: thread_ok_def)
  obtain s' w where s': "switch_thread c n s = Some s'" "threads s' = ?th'"
    "cpus s' = cs(c := (cs c)\<lparr>cpu_thread := Some n, cpu_vmm_context := w, cpu_interrupt_status := ctx_int (th_context (threads s n))\<rparr>)"
    "run_queues s' = run_queues s" "run_queue_bitmap s' = run_queue_bitmap s" "\<not> run_queue_lock s'"
    using switch_thread_effect [OF s(3), of n c] ok_n v(1,2) fn s(2) by (auto simp: thread_ok_def)
  have view_n: "th_view (?th' n) = th_view (set_flags THREAD_FLAGS_RUNNING (threads s n))" by (rule switched_view(2)) (rule n(2))
  have view_o: "th_view (?th' t) = th_view (th t)" if "t \<noteq> n" "?cur \<noteq> Some t" for t
    using switched_view(1) [OF that] other [OF that] by simp
  have fit: "thread_ok cs (?th' t) \<and> fit (moved_to P n c cs pl t) (?th' t)" for t
  proof (cases "t = n")
    case True
    then show ?thesis using th_viewD [OF view_n] v fn ok_n by (simp add: moved_to_def thread_ok_def)
  next
    case False
    show ?thesis
    proof (cases "?cur = Some t")
      case True
      then show ?thesis using False cur [of t] P(1) switched_view(3) [OF False, of c "threads s"]
        by (auto simp: moved_to_def thread_ok_def Let_def)
    next
      case other: False
      then show ?thesis using False th_viewD [OF view_o [OF False other]] coreD(4,5) [OF core, of t] by (simp add: moved_to_def)
    qed
  qed
  have same: "sleeping (?th' t) = sleeping (th t) \<and> dead (?th' t) = dead (th t)" if "t \<noteq> n" for t
  proof (cases "?cur = Some t")
    case True
    have "pl t = On c" using coreD(3) [OF core] True by simp
    then have "\<not> dead (th t)" using coreD(5) [OF core, of t] by simp
    then show ?thesis using True cur [of t] switched_view(3) [OF that, of c "threads s"] by (simp add: Let_def)
  next
    case False
    then show ?thesis using th_viewD [OF view_o [OF that False]] by simp
  qed
  have "core (moved_to P n c cs pl) qs' ?th' (cs(c := (cs c)\<lparr>cpu_thread := Some n, cpu_vmm_context := w,
      cpu_interrupt_status := ctx_int (th_context (threads s n))\<rparr>))"
    using th_viewD [OF view_n] v fn q(2) by (intro core_switch [OF core n(1)] i P q(1) fit same) (simp_all add: in_prio_def switched_view)
  moreover have "rq_rep s' qs'"
    using s(1) rq_rep_cong [OF s'(4,5), of qs'] by (simp add: s'(2) fun_eq_iff switched_view)
  ultimately show ?thesis using s' by (auto simp: sched_inv_def)
qed

text \<open>The state \<open>s1\<close> after thread \<open>n\<close> was taken from its queue, or when \<open>n\<close> is the idle thread.\<close>

definition taken :: "nat \<Rightarrow> (nat \<Rightarrow> place) \<Rightarrow> sched \<Rightarrow> nat \<Rightarrow> sched \<Rightarrow> nat list list \<Rightarrow> bool" where
  "taken c pl s n s1 qs1 \<longleftrightarrow> rq_rep s1 qs1 \<and> (pl n = Queue \<or> cpu_idle_thread (cpus s c) = Some n) \<and>
     (\<forall>t. t \<in> set (concat qs1) \<longleftrightarrow> pl t = Queue \<and> t \<noteq> n) \<and> in_prio qs1 (threads s1) \<and>
     cpus s1 = cpus s \<and> run_queue_lock s1 = run_queue_lock s \<and>
     th_view (threads s1 n) = th_view (clear_flags THREAD_FLAGS_QUEUED (threads s n)) \<and>
     (\<forall>t. t \<noteq> n \<longrightarrow> th_view (threads s1 t) = th_view (threads s t))"

lemma dequeue_taken:
  assumes core: "core pl qs (threads s) (cpus s)" and rep: "rq_rep s qs"
  obtains (none) "dequeue_next_thread c mp s = Some (None, s)"
    | (some) n s1 qs1 where "dequeue_next_thread c mp s = Some (Some n, s1)" "pl n = Queue" "taken c pl s n s1 qs1"
proof (rule dequeue_next_thread_rep [OF rep, of c mp])
  assume "dequeue_next_thread c mp s = Some (None, s)"
  then show thesis by (rule none)
next
  fix j n s1
  let ?qs1 = "qs[j := remove1 n (qs ! j)]" and ?th = "(threads s)(n := clear_flags THREAD_FLAGS_QUEUED (threads s n))"
  assume p: "pick (runnable_here c s) (take (allowed mp) qs) = Some (j, n)" and d: "dequeue_next_thread c mp s = Some (Some n, s1)"
    and r: "rq_rep s1 ?qs1" "relinked s s1 ?th"
  have j: "j < length qs" "n \<in> set (qs ! j)" using pick_take_Some [OF p] by auto
  have "distinct (concat qs)" using rep by (simp add: rq_rep_def rq_links_def)
  then have m: "set (concat ?qs1) = set (concat qs) - {n}" using j by (rule queue_removed)
  have n: "pl n = Queue" using coreD(2) [OF core] nth_in_concat [OF j] by simp
  have v: "th_view (threads s1 t) = th_view (?th t)" for t by (rule relinked_view [OF r(2)])
  have "in_prio ?qs1 (threads s)" by (rule in_prio_removed [OF coreD(1) [OF core]])
  then have "in_prio ?qs1 (threads s1)"
    using th_viewD(6) [OF v] in_prio_cong [of "threads s1" "threads s" ?qs1] by (simp split: if_splits)
  moreover have "t \<in> set (concat ?qs1) \<longleftrightarrow> pl t = Queue \<and> t \<noteq> n" for t unfolding m using coreD(2) [OF core, of t] by auto
  ultimately have "taken c pl s n s1 ?qs1" using r n v unfolding taken_def relinked_def by (simp del: set_concat)
  then show thesis using some [OF d n] by blast
qed

lemma taken_unqueued: "taken c pl s n s1 qs1 \<Longrightarrow> \<not> queued (threads s1 n)"
  using th_viewD(1) [of "threads s1 n" "clear_flags THREAD_FLAGS_QUEUED (threads s n)"] by (simp add: taken_def)

lemma idle_taken:
  assumes core: "core pl qs (threads s) (cpus s)" and rep: "rq_rep s qs" and n: "cpu_idle_thread (cpus s c) = Some n"
  shows "taken c pl s n s qs"
proof -
  have "pl n \<noteq> Queue" using idleD(1) [OF core n] by auto
  moreover from this have "\<not> queued (threads s n)" using coreD(5) [OF core, of n] by (cases "pl n") auto
  ultimately show ?thesis using rep n coreD(1) [OF core] coreD(2) [OF core, symmetric]
    by (auto simp: taken_def th_view_def simp del: set_concat)
qed

text \<open>What the current thread undergoes when it leaves the processor.\<close>

definition leaves :: "(nat \<Rightarrow> cpu) \<Rightarrow> (thread \<Rightarrow> thread) \<Rightarrow> bool" where
  "leaves cs f \<longleftrightarrow> (\<forall>x. th_next (f x) = th_next x \<and> th_prev (f x) = th_prev x \<and> th_priority (f x) = th_priority x \<and>
     queued (f x) = queued x \<and> sleeping (f x) = sleeping x \<and> dead (f x) = dead x \<and>
     th_sleep_lock (f x) = th_sleep_lock x \<and> (thread_ok cs x \<longrightarrow> thread_ok cs (f x)))"

lemma rq_rep_thread:
  "th_next x = th_next (threads s t) \<Longrightarrow> th_prev x = th_prev (threads s t) \<Longrightarrow>
   rq_rep (s\<lparr>threads := (threads s)(t := x)\<rparr>) qs = rq_rep s qs"
  by (rule rq_rep_cong) (simp_all add: fun_eq_iff)

lemma rq_rep_other [simp]:
  "rq_rep (s\<lparr>run_queue_lock := l\<rparr>) qs = rq_rep s qs" "rq_rep (s\<lparr>cpus := cs\<rparr>) qs = rq_rep s qs"
  by (rule rq_rep_cong; simp)+

lemma step_aside:
  assumes core: "core pl qs (threads s) (cpus s)" and t: "taken c pl s n s1 qs1" and n: "cpu_thread (cpus s c) \<noteq> Some n"
    and i: "cpu_idle_thread (cpus s c) \<noteq> None" and f: "leaves (cpus s) f"
    and s2: "s2 = (case cpu_thread (cpus s c) of None \<Rightarrow> s1 | Some r \<Rightarrow> upd_thread r f s1)"
  shows "\<exists>s'. switch_thread c n (s2\<lparr>run_queue_lock := False\<rparr>) = Some s' \<and> sched_inv s'"
proof -
  let ?cur = "cpu_thread (cpus s c)"
  have th2: "threads s2 t = (if ?cur = Some t then f (threads s1 t) else threads s1 t)" for t
    unfolding s2 by (auto split: option.split)
  have on: "?cur = Some r \<Longrightarrow> pl r = On c" for r using coreD(3) [OF core] by simp
  have v1: "th_view (threads s1 t) = th_view (threads s t)" if "t \<noteq> n" for t using t that by (simp add: taken_def)
  have rep: "rq_rep s2 qs1"
    using t f rq_rep_thread unfolding s2 by (auto simp: taken_def leaves_def split: option.split)
  show ?thesis
  proof (rule switch_inv [OF core _ n i, where P = Away and qs' = qs1])
    show "pl n = Queue \<or> cpu_idle_thread (cpus s c) = Some n" using t by (simp add: taken_def)
    show "rq_rep (s2\<lparr>run_queue_lock := False\<rparr>) qs1" using rep by simp
    show "cpus (s2\<lparr>run_queue_lock := False\<rparr>) = cpus s" using t unfolding s2 by (auto simp: taken_def split: option.split)
    show "(moved_to Away n c (cpus s) pl a = Queue) = (a \<in> set (concat qs1))" for a
      using t on [of a] by (auto simp: taken_def moved_to_def simp del: set_concat)
    show "in_prio qs1 (threads (s2\<lparr>run_queue_lock := False\<rparr>))"
      using t f by (auto simp: taken_def leaves_def in_prio_def th2)
    show "th_view (threads (s2\<lparr>run_queue_lock := False\<rparr>) n) = th_view (clear_flags THREAD_FLAGS_QUEUED (threads s n))"
      using t n by (simp add: taken_def th2)
    show "th_view (threads (s2\<lparr>run_queue_lock := False\<rparr>) a) = th_view (threads s a)" if "a \<noteq> n" "?cur \<noteq> Some a" for a
      using v1 that by (simp add: th2)
    fix r
    assume r: "?cur = Some r"
    then have "r \<noteq> n" using n by auto
    note v = th_viewD [OF v1 [OF this]] and fit = coreD(4,5) [OF core, of r, unfolded on [OF r]]
    show "thread_ok (cpus s) (threads (s2\<lparr>run_queue_lock := False\<rparr>) r) \<and> \<not> dead (threads (s2\<lparr>run_queue_lock := False\<rparr>) r) \<and>
        sleeping (threads (s2\<lparr>run_queue_lock := False\<rparr>) r) = sleeping (threads s r) \<and>
        th_sleep_lock (threads (s2\<lparr>run_queue_lock := False\<rparr>) r) = sleeping (threads s r) \<and>
        queued (threads (s2\<lparr>run_queue_lock := False\<rparr>) r) = (Away = Queue) \<and> (Away = Queue \<longrightarrow> \<not> sleeping (threads s r))"
      using f v fit r by (simp add: th2 leaves_def)
  qed simp_all
qed

lemma give_way:
  assumes core: "core pl qs (threads s) (cpus s)" and t: "taken c pl s n s1 qs1" "pl n = Queue"
    and r: "cpu_thread (cpus s c) = Some r" "\<not> sleeping (threads s r)" and f: "leaves (cpus s) f" "\<And>x. \<not> running (f x)"
  shows "\<exists>s3 s'. enqueue_thread c r (upd_thread r f s1) = Some s3 \<and>
     \<not> queued (threads s3 n) \<and> switch_thread c n (s3\<lparr>run_queue_lock := False\<rparr>) = Some s' \<and> sched_inv s'"
proof -
  let ?s2 = "upd_thread r f s1"
  have pr: "pl r = On c" using coreD(3) [OF core] r(1) by simp
  then have rn: "r \<noteq> n" using t(2) by auto
  have cur: "cpu_thread (cpus s c) \<noteq> Some n" using r(1) rn by simp
  have cs: "cpus s1 = cpus s" using t(1) by (simp add: taken_def)
  have i: "cpu_idle_thread (cpus s c) \<noteq> None" by (rule idle_exists [OF core r(1)])
  show ?thesis
  proof (cases "cpu_idle_thread (cpus s c) = Some r")
    case True
    then have "enqueue_thread c r ?s2 = Some ?s2" using cs by (simp add: enqueue_thread_def)
    moreover have "\<exists>s'. switch_thread c n (?s2\<lparr>run_queue_lock := False\<rparr>) = Some s' \<and> sched_inv s'"
      by (rule step_aside [OF core t(1) cur i f(1)]) (simp add: r(1))
    moreover have "\<not> queued (threads ?s2 n)" using taken_unqueued [OF t(1)] rn by simp
    ultimately show ?thesis by blast
  next
    case False
    have v1: "th_view (threads s1 a) = th_view (threads s a)" if "a \<noteq> n" for a using t(1) that by (simp add: taken_def)
    note v = th_viewD [OF v1 [OF rn]] and fit = coreD(4,5) [OF core, of r, unfolded pr]
    have rep2: "rq_rep ?s2 qs1" using t(1) f rq_rep_thread by (simp add: taken_def leaves_def)
    have "r \<notin> set (concat qs1)" using t(1) pr by (simp add: taken_def del: set_concat)
    moreover have "\<not> bit (th_flags (threads ?s2 r)) 1" using f(2) by simp
    moreover define k where "k = nat (th_priority (threads s r))"
    have k: "th_priority (threads ?s2 r) = int k" "k < RUN_QUEUE_COUNT"
      using f v(6) fit(1) by (auto simp: leaves_def k_def thread_ok_def)
    moreover have "cpu_idle_thread (cpus ?s2 c) \<noteq> Some r" using False cs by simp
    ultimately obtain s3 where e: "enqueue_thread c r ?s2 = Some s3" "rq_rep s3 (qs1[k := qs1 ! k @ [r]])"
      "relinked ?s2 s3 ((threads ?s2)(r := set_flags THREAD_FLAGS_QUEUED (threads ?s2 r)))"
      by (rule enqueue_thread_rep [OF rep2])
    let ?qs' = "qs1[k := qs1 ! k @ [r]]" and ?s4 = "s3\<lparr>run_queue_lock := False\<rparr>"
    have v3: "th_view (threads ?s4 a) = th_view (if a = r then set_flags THREAD_FLAGS_QUEUED (f (threads s1 r)) else threads s1 a)" for a
      using relinked_view [OF e(3), of a] by simp
    have len: "length qs1 = RUN_QUEUE_COUNT" using t(1) by (simp add: taken_def rq_rep_def rq_links_def)
    have m: "set (concat ?qs') = insert r (set (concat qs1))" by (rule queue_appended) (use k(2) len in simp)
    have "\<exists>s'. switch_thread c n ?s4 = Some s' \<and> sched_inv s'"
    proof (rule switch_inv [OF core _ cur i, where P = Queue and qs' = ?qs'])
      show "(moved_to Queue n c (cpus s) pl a = Queue) = (a \<in> set (concat ?qs'))" for a
        unfolding m using t(1) r(1) rn by (auto simp: taken_def moved_to_def simp del: set_concat)
      have "in_prio qs1 (threads s1)" using t(1) by (simp add: taken_def)
      then have "in_prio ?qs' (threads ?s2)" using k(1) f by (intro in_prio_appended) (auto simp: in_prio_def leaves_def)
      then show "in_prio ?qs' (threads ?s4)"
        using th_viewD(6) [OF v3] in_prio_cong [of "threads ?s4" "threads ?s2" ?qs'] by (simp split: if_splits)
      show "th_view (threads ?s4 n) = th_view (clear_flags THREAD_FLAGS_QUEUED (threads s n))"
        using v3 [of n] rn t(1) by (simp add: taken_def)
      show "th_view (threads ?s4 a) = th_view (threads s a)" if "a \<noteq> n" "cpu_thread (cpus s c) \<noteq> Some a" for a
        using v3 [of a] v1 that r(1) by auto
      fix r'
      assume "cpu_thread (cpus s c) = Some r'"
      then have "r' = r" using r(1) by simp
      then show "thread_ok (cpus s) (threads ?s4 r') \<and> \<not> dead (threads ?s4 r') \<and> sleeping (threads ?s4 r') = sleeping (threads s r') \<and>
          th_sleep_lock (threads ?s4 r') = sleeping (threads s r') \<and> queued (threads ?s4 r') = (Queue = Queue) \<and>
          (Queue = Queue \<longrightarrow> \<not> sleeping (threads s r'))"
        using th_viewD [OF v3 [of r]] f v fit r(2) by (simp add: leaves_def)
    qed (use t e(2,3) False r(1) cs in \<open>simp_all add: relinked_def\<close>)
    moreover have "\<not> queued (threads s3 n)" using th_viewD(1) [OF v3 [of n]] rn taken_unqueued [OF t(1)] by simp
    ultimately show ?thesis using e(1) by blast
  qed
qed

text \<open>The current thread keeps the processor.\<close>

lemma switch_same:
  assumes core: "core pl qs (threads s) (cpus s)" and rep: "rq_rep s qs" and n: "cpu_thread (cpus s c) = Some n" "\<not> sleeping (threads s n)"
    and f: "\<And>x. th_next (f x) = th_next x \<and> th_prev (f x) = th_prev x \<and> th_view (f x) = th_view x"
  shows "\<exists>s'. switch_thread c n ((upd_thread n f s)\<lparr>run_queue_lock := False\<rparr>) = Some s' \<and> sched_inv s'"
proof -
  let ?s = "(upd_thread n f s)\<lparr>run_queue_lock := False\<rparr>"
  have pn: "pl n = On c" using coreD(3) [OF core] n(1) by simp
  note fit = coreD(4,5) [OF core, of n, unfolded pn] and v = th_viewD [OF f [THEN conjunct2, THEN conjunct2]]
  obtain s' w where s': "switch_thread c n ?s = Some s'" "threads s' = switched c (Some n) n (threads ?s)"
    "cpus s' = (cpus s)(c := (cpus s c)\<lparr>cpu_thread := Some n, cpu_vmm_context := w, cpu_interrupt_status := ctx_int (th_context (threads s n))\<rparr>)"
    "run_queues s' = run_queues s" "run_queue_bitmap s' = run_queue_bitmap s" "\<not> run_queue_lock s'"
    using switch_thread_effect [of ?s n c] n(1) fit v by (auto simp: thread_ok_def)
  let ?x = "(set_flags THREAD_FLAGS_RUNNING (clear_flags THREAD_FLAGS_RUNNING (f (threads s n))))\<lparr>th_cpu := Some c\<rparr>"
  have th': "threads s' = (threads s)(n := ?x)"
    using n(2) v(3) [of "threads s n"] by (simp add: s'(2) switched_eqs Let_def)
  have "core (pl(n := pl n)) qs ((threads s)(n := ?x)) (cpus s)"
  proof (rule core_update [OF core])
    show "(pl(n := pl n)) a = Queue \<longleftrightarrow> a \<in> set (concat qs)" for a using coreD(2) [OF core, of a] by simp
    show "in_prio qs ((threads s)(n := ?x))" using coreD(1) [OF core] v(6) by (simp add: in_prio_def)
    show "thread_ok (cpus s) ?x" using fit(1) by (simp add: thread_ok_def v(6,8,9))
    show "fit (pl n) ?x" using fit(2) v by (simp add: pn)
    show "pl n \<noteq> Queue \<and> \<not> sleeping ?x \<and> \<not> dead ?x" using fit(2) n(2) v(3,4) pn by simp
  qed (use n(2) v(3) in simp_all)
  then have "core pl qs (threads s') (cpus s)" by (simp add: th')
  then have "core pl qs (threads s') (cpus s')" unfolding s'(3)
    by (rule core_cpu) (use n v(3) in \<open>auto simp: th'\<close>)
  moreover have "rq_rep s' qs"
    using rep rq_rep_cong [OF s'(4,5), of qs] f by (simp add: th' fun_eq_iff)
  ultimately show ?thesis using s' by (auto simp: sched_inv_def)
qed

subsection \<open>The operations keep the invariant\<close>

lemma sched_invE:
  assumes "sched_inv s"
  obtains pl qs where "rq_rep s qs" "core pl qs (threads s) (cpus s)" "\<not> run_queue_lock s"
  using assms by (auto simp: sched_inv_def)

lemma current_awake:
  assumes "core pl qs th cs" "cpu_thread (cs c) = Some r" "cpu_interrupt_status (cs c)"
  shows "\<not> sleeping (th r)"
proof
  assume "sleeping (th r)"
  moreover have "pl r = On c" using coreD(3) [OF assms(1)] assms(2) by simp
  ultimately show False using coreD(6) [OF assms(1)] assms(3) by blast
qed

lemma preempt_callback_inv:
  assumes rep: "rq_rep s qs" and core: "core pl qs (threads s) (cpus s)" and lock: "\<not> run_queue_lock s"
    and r: "cpu_thread (cpus s c) = Some r" "\<not> sleeping (threads s r)"
  shows "\<exists>s'. preempt_callback c s = Some s' \<and> sched_inv s'"
proof -
  let ?s0 = "s\<lparr>run_queue_lock := True\<rparr>"
  have core0: "core pl qs (threads ?s0) (cpus ?s0)" and rep0: "rq_rep ?s0 qs" using core rep by simp_all
  have pr: "pl r = On c" using coreD(3) [OF core] r(1) by simp
  then have nq: "\<not> queued (threads s r)" using coreD(5) [OF core, of r] by simp
  from core0 rep0 show ?thesis
  proof (cases rule: dequeue_taken [where c = c and mp = "th_priority (threads s r)"])
    case none
    obtain s' where "switch_thread c r ((upd_thread r (clear_flags THREAD_FLAGS_PREEMPTED) ?s0)\<lparr>run_queue_lock := False\<rparr>) = Some s'"
      "sched_inv s'"
      using switch_same [OF core0 rep0, of c r "clear_flags THREAD_FLAGS_PREEMPTED"] r by (auto simp: th_view_def)
    then show ?thesis using none lock r(1) nq by (simp add: preempt_callback_def preempt_pick_def current_thread_def Let_def)
  next
    case (some n s1 qs1)
    let ?f = "\<lambda>x. clear_flags THREAD_FLAGS_RUNNING (clear_flags THREAD_FLAGS_PREEMPTED x)"
    have f: "leaves (cpus ?s0) ?f" by (simp add: leaves_def)
    obtain s3 s' where e: "enqueue_thread c r (upd_thread r ?f s1) = Some s3"
      "\<not> queued (threads s3 n)" "switch_thread c n (s3\<lparr>run_queue_lock := False\<rparr>) = Some s'" "sched_inv s'"
      using give_way [OF core0 some(3,2), of r ?f] r f by simp blast
    then show ?thesis using some(1) lock r(1) e by (simp add: preempt_callback_def preempt_pick_def current_thread_def Let_def)
  qed
qed

lemma core_on:
  assumes core: "core pl qs th cs" and t: "cpu_thread (cs c) = Some t"
    and x: "thread_ok cs x" "\<not> queued x" "\<not> dead x" "th_sleep_lock x = sleeping x" "th_priority x = th_priority (th t)"
    and sl: "sleeping x \<Longrightarrow> \<not> cpu_interrupt_status (cs c) \<and> cpu_idle_thread (cs c) \<noteq> Some t"
  shows "core pl qs (th(t := x)) cs"
proof -
  have on: "pl t = On d \<longleftrightarrow> d = c" for d using coreD(3) [OF core, of t] t by (metis place.inject)
  have "core (pl(t := pl t)) qs (th(t := x)) cs"
  proof (rule core_update [OF core])
    show "(pl(t := pl t)) a = Queue \<longleftrightarrow> a \<in> set (concat qs)" for a using coreD(2) [OF core, of a] by simp
    show "in_prio qs (th(t := x))" using coreD(1) [OF core] x(5) by (simp add: in_prio_def)
    show "fit (pl t) x" using x on [of c] by simp
    show "pl t \<noteq> Queue \<and> \<not> sleeping x \<and> \<not> dead x" if "cpu_idle_thread (cs d) = Some t" for d
      using idleD(1) [OF core that] on [of d] on [of c] that sl x(3) by auto
  qed (use x sl on in auto)
  then show ?thesis by simp
qed

lemma timer_tick_inv:
  assumes inv: "sched_inv s" and r: "cpu_thread (cpus s c) = Some r" and int: "cpu_interrupt_status (cpus s c)"
    and ctx: "\<And>d. sp_ok (cpus s d) context"
  shows "\<exists>s'. timer_tick c context s = Some s' \<and> sched_inv s'"
proof -
  obtain pl qs where rep: "rq_rep s qs" and core: "core pl qs (threads s) (cpus s)" and lock: "\<not> run_queue_lock s"
    by (rule sched_invE [OF inv])
  let ?s0 = "upd_cpu c (cpu_interrupt_status_update (\<lambda>_. False)) s"
  have pr: "pl r = On c" using coreD(3) [OF core] r by simp
  note fit = coreD(4,5) [OF core, of r, unfolded pr] and awake = current_awake [OF core r int]
  have core0: "core pl qs (threads ?s0) (cpus ?s0)" using core_interrupts [OF core, of c False] by simp
  show ?thesis
  proof (cases "flag THREAD_FLAGS_PREEMPTED (threads s r)")
    case True
    let ?s1 = "upd_cpu c (cpu_interrupt_status_update (\<lambda>_. ctx_int context)) s"
    have "timer_tick c context s = Some ?s1"
      using r True by (simp add: timer_tick_def timer_hook_def current_thread_def interrupt_set_def)
    moreover have "core pl qs (threads s) ((cpus s)(c := (cpus s c)\<lparr>cpu_interrupt_status := ctx_int context\<rparr>))"
      by (rule core_interrupts [OF core]) (use r awake in auto)
    then have "sched_inv ?s1" using rep lock by (auto simp: sched_inv_def)
    ultimately show ?thesis by blast
  next
    case False
    let ?x = "(set_flags THREAD_FLAGS_PREEMPTED (threads s r))\<lparr>th_context := context\<rparr>"
    let ?s1 = "?s0\<lparr>threads := (threads s)(r := ?x)\<rparr>"
    have t: "timer_tick c context s = preempt_callback c ?s1"
      using r False by (simp add: timer_tick_def timer_hook_def current_thread_def interrupt_set_def)
    have "core pl qs ((threads ?s0)(r := ?x)) (cpus ?s0)"
      by (rule core_on [OF core0, of c]) (use r fit ctx awake in \<open>auto simp: thread_ok_def sp_ok_def\<close>)
    then have core1: "core pl qs (threads ?s1) (cpus ?s1)" by simp
    have "rq_rep ?s1 qs" using rep rq_rep_cong [of ?s1 s qs] by (simp add: fun_eq_iff)
    then show ?thesis unfolding t using lock r awake by (intro preempt_callback_inv [OF _ core1, of c r]) simp_all
  qed
qed

lemma sched_stop_thread_inv:
  assumes rep: "rq_rep s qs" and core: "core pl qs (threads s) (cpus s)" and lock: "\<not> run_queue_lock s"
    and cur: "cpu_thread (cpus s c) = None \<or> cpu_thread (cpus s c) \<noteq> cpu_idle_thread (cpus s c)"
    and i: "cpu_idle_thread (cpus s c) \<noteq> None"
  shows "\<exists>s'. sched_stop_thread c s = Some s' \<and> sched_inv s'"
proof -
  let ?s0 = "(upd_cpu c (cpu_interrupt_status_update (\<lambda>_. False)) s)\<lparr>run_queue_lock := True\<rparr>"
  let ?cur = "cpu_thread (cpus s c)" and ?f = "clear_flags THREAD_FLAGS_RUNNING"
  have core0: "core pl qs (threads ?s0) (cpus ?s0)" using core_interrupts [OF core, of c False] by simp
  have rep0: "rq_rep ?s0 qs" using rep rq_rep_cong [of ?s0 s qs] by simp
  let ?s1 = "case ?cur of None \<Rightarrow> ?s0 | Some r \<Rightarrow> upd_thread r ?f ?s0"
  have rep1: "rq_rep ?s1 qs" using rep rq_rep_cong [of ?s1 s qs] by (simp add: fun_eq_iff split: option.split)
  have cpus1: "cpus ?s1 = cpus ?s0" by (simp split: option.split)
  have core1: "core pl qs (threads ?s1) (cpus ?s1)"
  proof (cases ?cur)
    case None
    then show ?thesis using core0 by simp
  next
    case (Some r)
    have pr: "pl r = On c" using coreD(3) [OF core] Some by simp
    note fit = coreD(4,5) [OF core0, of r, unfolded pr]
    have "core pl qs ((threads ?s0)(r := ?f (threads s r))) (cpus ?s0)"
      by (rule core_on [OF core0, of c]) (use Some fit cur in auto)
    then show ?thesis using Some by simp
  qed
  have go: "\<exists>s'. switch_thread c n (s2\<lparr>run_queue_lock := False\<rparr>) = Some s' \<and> sched_inv s'"
    if t: "taken c pl ?s1 n s2 qs2" and n: "?cur \<noteq> Some n" for n s2 qs2
  proof (rule step_aside [OF core1 t])
    show "cpu_thread (cpus ?s1 c) \<noteq> Some n" using n cpus1 by simp
    show "cpu_idle_thread (cpus ?s1 c) \<noteq> None" using i cpus1 by simp
    show "leaves (cpus ?s1) (\<lambda>x. x)" by (simp add: leaves_def)
    show "s2 = (case cpu_thread (cpus ?s1 c) of None \<Rightarrow> s2 | Some r \<Rightarrow> upd_thread r (\<lambda>x. x) s2)" by (simp split: option.split)
  qed
  have stop: "sched_stop_thread c s = (dequeue_next_thread c 0x0fffffff ?s1 \<bind> (\<lambda>(next, s3). 
       (case next of Some n \<Rightarrow> do { kassert (\<not> flag THREAD_FLAGS_QUEUED (threads s3 n)); Some n } | None \<Rightarrow> cpu_idle_thread (cpus s3 c)) \<bind>
       (\<lambda>n. switch_thread c n (s3\<lparr>run_queue_lock := False\<rparr>))))"
    using lock by (simp add: sched_stop_thread_def interrupt_set_def current_thread_def Let_def)
  from core1 rep1 show ?thesis
  proof (cases rule: dequeue_taken [where c = c and mp = "0x0fffffff"])
    case none
    obtain n where n: "cpu_idle_thread (cpus ?s1 c) = Some n" using i cpus1 by auto
    then have "?cur \<noteq> Some n" using cur cpus1 by auto
    then show ?thesis unfolding stop none using go [OF idle_taken [OF core1 rep1 n]] n by simp
  next
    case (some n s1 qs1)
    have "pl n \<noteq> On c" using some(2) by simp
    then have "?cur \<noteq> Some n" using coreD(3) [OF core] by simp
    then show ?thesis unfolding stop some(1) using go [OF some(3)] taken_unqueued [OF some(3)] by simp
  qed
qed

end
