(* ===== verification/SwitchInv.thy ===== *)
theory SwitchInv
  imports Switch
begin

text \<open>
  The operations of the scheduler in \<^verbatim>\<open>kernel/sys/scheduler.c\<close> keep its invariant, and none of its assertions fails:
  lemmas per operation, the step relation of all of them on one processor, and its reachable states. The parts of an operation
  between its locks run there with interrupts disabled, so nothing comes in between. With a second processor something can: the last
  part shows that the release of the lock before the switch lets two processors run the same thread.
\<close>

text \<open>\<open>enqueue_thread\<close> in terms of the parts of the invariant.\<close>

lemma enqueue_effect:
  assumes rep: "rq_rep s qs" and prio: "in_prio qs (threads s)" and t: "t \<notin> set (concat qs)" "\<not> running (threads s t)"
    and ok: "thread_ok cs (threads s t)" "cpu_idle_thread (cpus s c) \<noteq> Some t"
  shows "\<exists>s' qs'. enqueue_thread c t s = Some s' \<and> rq_rep s' qs' \<and> in_prio qs' (threads s') \<and>
    set (concat qs') = insert t (set (concat qs)) \<and> cpus s' = cpus s \<and> run_queue_lock s' = run_queue_lock s \<and>
    (\<forall>a. unlinked (threads s' a) = unlinked (((threads s)(t := set_flags THREAD_FLAGS_QUEUED (threads s t))) a))"
proof -
  define i where "i = nat (th_priority (threads s t))"
  have i: "th_priority (threads s t) = int i" "i < RUN_QUEUE_COUNT" using ok(1) by (auto simp: i_def thread_ok_def)
  have run: "\<not> bit (th_flags (threads s t)) 1" using t(2) by simp
  let ?qs = "qs[i := qs ! i @ [t]]"
  obtain s' where e: "enqueue_thread c t s = Some s'" "rq_rep s' ?qs"
    "relinked s s' ((threads s)(t := set_flags THREAD_FLAGS_QUEUED (threads s t)))"
    by (rule enqueue_thread_rep [OF rep t(1) run i ok(2)])
  have v: "th_priority (threads s' a) = th_priority (threads s a)" for a
    using th_viewD(6) [OF relinked_view [OF e(3), of a]] by (simp split: if_splits)
  have "in_prio ?qs (threads s')" unfolding in_prio_cong [OF v] by (rule in_prio_appended [OF prio i(1)])
  moreover have "set (concat ?qs) = insert t (set (concat qs))"
    using i(2) rep by (intro queue_appended) (simp add: rq_rep_def rq_links_def)
  ultimately show ?thesis using e unfolding relinked_def by blast
qed

lemma requeue:
  assumes core: "core pl qs (threads s) (cpus s)" and t: "taken c pl s n s1 qs1" "pl n = Queue"
  shows "\<exists>s2 qs2. enqueue_thread c n s1 = Some s2 \<and> rq_rep s2 qs2 \<and> core pl qs2 (threads s2) (cpus s2) \<and>
     cpus s2 = cpus s \<and> run_queue_lock s2 = run_queue_lock s"
proof -
  note fit = coreD(4,5) [OF core, of n, unfolded t(2)]
  have k: "rq_rep s1 qs1" "\<And>a. a \<in> set (concat qs1) \<longleftrightarrow> pl a = Queue \<and> a \<noteq> n" "in_prio qs1 (threads s1)" "cpus s1 = cpus s"
    "run_queue_lock s1 = run_queue_lock s" "th_view (threads s1 n) = th_view (clear_flags THREAD_FLAGS_QUEUED (threads s n))"
    "\<And>a. a \<noteq> n \<Longrightarrow> th_view (threads s1 a) = th_view (threads s a)"
    using t(1) unfolding taken_def by blast+
  note v = th_viewD [OF k(6)]
  have idle: "cpu_idle_thread (cpus s1 c) \<noteq> Some n"
  proof
    assume "cpu_idle_thread (cpus s1 c) = Some n"
    then have "pl n = Away \<or> pl n = On c" using idleD(1) [OF core] k(4) by simp
    then show False using t(2) by simp
  qed
  have nin: "n \<notin> set (concat qs1)" using k(2) by blast
  have run: "\<not> running (threads s1 n)" using v(2) fit(2) by simp
  have okn: "thread_ok (cpus s) (threads s1 n)" using v(7) fit(1) by simp
  obtain s2 qs2 where e: "enqueue_thread c n s1 = Some s2" "rq_rep s2 qs2" "in_prio qs2 (threads s2)"
    "set (concat qs2) = insert n (set (concat qs1))" "cpus s2 = cpus s1" "run_queue_lock s2 = run_queue_lock s1"
    "\<forall>a. unlinked (threads s2 a) = unlinked (((threads s1)(n := set_flags THREAD_FLAGS_QUEUED (threads s1 n))) a)"
    using enqueue_effect [OF k(1,3) nin run okn idle] by blast
  have same: "th_view (threads s2 a) = th_view (threads s a)" for a
  proof (cases "a = n")
    case True
    then have "th_view (threads s2 a) = th_view (set_flags THREAD_FLAGS_QUEUED (threads s1 n))"
      using unlinked_view [OF e(7) [rule_format, of n]] by simp
    then show ?thesis using True k(6) fit(2) by (simp add: th_view_def)
  next
    case False
    then show ?thesis using unlinked_view [OF e(7) [rule_format, of a]] k(7) by simp
  qed
  have p: "in_prio qs2 (threads s)" using e(3) unfolding in_prio_cong [OF th_viewD(6) [OF same]] .
  have m: "pl a = Queue \<longleftrightarrow> a \<in> set (concat qs2)" for a unfolding e(4) insert_iff k(2) using t(2) by auto
  have "core pl qs2 (threads s) (cpus s)" using core p m unfolding core_def by simp
  then have "core pl qs2 (threads s2) (cpus s2)" unfolding core_cong [OF same] e(5) k(4) .
  then show ?thesis using e(1,2,5,6) k(4,5) by auto
qed

lemma sched_invI: "rq_rep s qs \<Longrightarrow> core pl qs (threads s) (cpus s) \<Longrightarrow> \<not> run_queue_lock s \<Longrightarrow> sched_inv s"
  by (auto simp: sched_inv_def)

lemma core_off:
  assumes "core pl qs (threads s) (cpus s)"
  shows "core pl qs (threads s) ((cpus s)(c := (cpus s c)\<lparr>cpu_interrupt_status := False\<rparr>))"
  using core_interrupts [OF assms, of c False] by simp

text \<open>A thread that is nowhere goes into the queue of its priority.\<close>

lemma core_enqueued:
  assumes core: "core pl qs th cs" and t: "pl t = Away" "\<And>d. cpu_idle_thread (cs d) \<noteq> Some t" "\<not> dead (th t)"
    and q: "set (concat qs') = insert t (set (concat qs))" "in_prio qs' th'"
    and v: "\<And>a. th_view (th' a) = th_view ((th(t := x)) a)"
    and x: "fit Queue x" "thread_ok cs x"
  shows "core (pl(t := Queue)) qs' th' cs"
proof -
  have "core (pl(t := Queue)) qs' (th(t := x)) cs"
  proof (rule core_update [OF core])
    show "Queue = pl t \<or> Queue \<in> {Queue, Away} \<and> pl t \<in> {Queue, Away}" using t(1) by simp
    show "(pl(t := Queue)) a = Queue \<longleftrightarrow> a \<in> set (concat qs')" for a
      unfolding q(1) insert_iff coreD(2) [OF core, of a, symmetric] by simp
    show "in_prio qs' (th(t := x))" using q(2) unfolding in_prio_cong [OF th_viewD(6) [OF v]] .
  qed (use x t in simp_all)
  then show ?thesis unfolding core_cong [OF v] .
qed

lemma sched_prepare_sleep_inv:
  assumes inv: "sched_inv s" and t: "cpu_thread (cpus s c) = Some t" "\<not> sleeping (threads s t)" "cpu_idle_thread (cpus s c) \<noteq> Some t"
  shows "\<exists>s'. sched_prepare_sleep c i s = Some s' \<and> sched_inv s'"
proof -
  obtain pl qs where rep: "rq_rep s qs" and core: "core pl qs (threads s) (cpus s)" and lock: "\<not> run_queue_lock s"
    by (rule sched_invE [OF inv])
  have pt: "pl t = On c" using coreD(3) [OF core] t(1) by simp
  note fit = coreD(4,5) [OF core, of t, unfolded pt]
  let ?m = "THREAD_FLAGS_SLEEP OR (if i then THREAD_FLAGS_INTERRUPTIBLE else 0)"
  let ?cs = "(cpus s)(c := (cpus s c)\<lparr>cpu_interrupt_status := False\<rparr>)"
  let ?x = "set_flags ?m ((threads s t)\<lparr>th_sleep_interrupt_status := cpu_interrupt_status (cpus s c), th_sleep_lock := True\<rparr>)"
  let ?s' = "s\<lparr>cpus := ?cs, threads := (threads s)(t := ?x)\<rparr>"
  have e: "sched_prepare_sleep c i s = Some ?s'"
    using t fit by (simp add: sched_prepare_sleep_def interrupt_set_def current_thread_def Let_def)
  have m: "bit ?m 2" "\<not> bit ?m 0" "\<not> bit ?m 5" by (simp_all add: bit_or_iff)
  have "core pl qs ((threads s)(t := ?x)) ?cs"
    by (rule core_on [OF core_off [OF core]]) (use t fit m in \<open>auto simp: thread_ok_def sp_ok_def bit_or_iff\<close>)
  then have "core pl qs (threads ?s') (cpus ?s')" by simp
  moreover have "rq_rep ?s' qs" using rep rq_rep_cong [of ?s' s qs] by (simp add: fun_eq_iff)
  ultimately have "sched_inv ?s'" by (intro sched_invI) (use lock in simp_all)
  then show ?thesis using e by blast
qed

lemma sched_queue_effect:
  assumes inv: "sched_inv s" and t: "\<forall>d. cpu_thread (cpus s d) \<noteq> Some t \<and> cpu_idle_thread (cpus s d) \<noteq> Some t"
    and fl: "\<not> queued (threads s t)" "\<not> sleeping (threads s t)" "\<not> dead (threads s t)"
  shows "\<exists>s'. sched_queue c t s = Some (0, s') \<and> sched_inv s' \<and> cpus s' = cpus s \<and>
    (\<forall>a. unlinked (threads s' a) = unlinked (((threads s)(t := set_flags THREAD_FLAGS_QUEUED (threads s t))) a))"
proof -
  obtain pl qs where rep: "rq_rep s qs" and core: "core pl qs (threads s) (cpus s)" and lock: "\<not> run_queue_lock s"
    by (rule sched_invE [OF inv])
  have pt: "pl t = Away" using coreD(3,5) [OF core, of t] t fl by (cases "pl t") auto
  note fit = coreD(4,5) [OF core, of t, unfolded pt]
  have run: "\<not> running (threads s t)" using fit(2) fl(3) by simp
  let ?s1 = "s\<lparr>cpus := (cpus s)(c := (cpus s c)\<lparr>cpu_interrupt_status := False\<rparr>), run_queue_lock := True\<rparr>"
  have rep1: "rq_rep ?s1 qs" using rep rq_rep_cong [of ?s1 s qs] by simp
  have nin: "t \<notin> set (concat qs)" using coreD(2) [OF core, of t] pt by simp
  have prio: "in_prio qs (threads ?s1)" using coreD(1) [OF core] by simp
  have i: "cpu_idle_thread (cpus ?s1 c) \<noteq> Some t" using t by simp
  obtain s2 qs2 where e: "enqueue_thread c t ?s1 = Some s2" "rq_rep s2 qs2" "in_prio qs2 (threads s2)"
    "set (concat qs2) = insert t (set (concat qs))" "cpus s2 = cpus ?s1" "run_queue_lock s2 = run_queue_lock ?s1"
    "\<forall>a. unlinked (threads s2 a) = unlinked (((threads s)(t := set_flags THREAD_FLAGS_QUEUED (threads s t))) a)"
    using enqueue_effect [OF rep1 prio nin _ _ i, of "cpus s"] run fit(1) by auto
  let ?s' = "s2\<lparr>run_queue_lock := False, cpus := cpus s\<rparr>"
  have cs: "(cpus s)(c := (cpus s c)\<lparr>cpu_interrupt_status := cpu_interrupt_status (cpus s c)\<rparr>) = cpus s" by (rule fun_upd_idem) simp
  have q: "sched_queue c t s = Some (0, ?s')"
    using e(1,5) lock fl run cs by (simp add: sched_queue_def interrupt_set_def Let_def)
  have "core (pl(t := Queue)) qs2 (threads s2) (cpus s)"
    by (rule core_enqueued [OF core pt _ fl(3) e(4,3) unlinked_view [OF e(7) [rule_format]]])
      (use t fl run fit in auto)
  moreover have "rq_rep ?s' qs2" using e(2) rq_rep_cong [of ?s' s2 qs2] by simp
  ultimately have "sched_inv ?s'" by (auto simp: sched_inv_def)
  then show ?thesis using q e(7) by (intro exI [of _ ?s']) simp
qed

lemma sched_queue_inv:
  assumes "sched_inv s" "\<forall>d. cpu_thread (cpus s d) \<noteq> Some t \<and> cpu_idle_thread (cpus s d) \<noteq> Some t"
    "\<not> queued (threads s t)" "\<not> sleeping (threads s t)" "\<not> dead (threads s t)"
  shows "\<exists>s'. sched_queue c t s = Some (0, s') \<and> sched_inv s'"
  using sched_queue_effect [OF assms, of c] by blast

lemma sched_wakeup_inv:
  assumes inv: "sched_inv s" and t: "sleeping (threads s t) \<Longrightarrow> \<forall>d. cpu_thread (cpus s d) \<noteq> Some t"
  shows "\<exists>b s'. sched_wakeup c (Some t) reason s = Some (b, s') \<and> sched_inv s'"
proof -
  obtain pl qs where rep: "rq_rep s qs" and core: "core pl qs (threads s) (cpus s)" and lock: "\<not> run_queue_lock s"
    by (rule sched_invE [OF inv])
  note fit = coreD(4,5) [OF core, of t]
  have sl: "\<not> th_sleep_lock (threads s t)"
    using fit(2) t coreD(3) [OF core, of t] by (cases "pl t") auto
  have cs: "(cpus s)(c := (cpus s c)\<lparr>cpu_interrupt_status := cpu_interrupt_status (cpus s c)\<rparr>) = cpus s" by (rule fun_upd_idem) simp
  have th: "(threads s)(t := (threads s t)\<lparr>th_sleep_lock := False\<rparr>) = threads s" by (rule fun_upd_idem) (use sl in simp)
  show ?thesis
  proof (cases "\<not> sleeping (threads s t) \<or> (reason = WAKEUP_REASON_INTERRUPTED \<and> \<not> flag THREAD_FLAGS_INTERRUPTIBLE (threads s t))")
    case True
    then have "sched_wakeup c (Some t) reason s = Some (False, s)"
      using sl cs th by (auto simp: sched_wakeup_def interrupt_set_def Let_def)
    then show ?thesis using inv by blast
  next
    case False
    then have sleep: "sleeping (threads s t)" by simp
    have pt: "pl t = Away" using coreD(3) [OF core, of t] t [OF sleep] fit(2) sleep by (cases "pl t") auto
    note fit = fit [unfolded pt]
    have fl: "\<not> queued (threads s t)" "\<not> running (threads s t)" "\<not> dead (threads s t)" using fit(2) sleep by auto
    have idle: "cpu_idle_thread (cpus s d) \<noteq> Some t" for d using idleD(2) [OF core, of d t] sleep by blast
    let ?off = "(cpus s)(c := (cpus s c)\<lparr>cpu_interrupt_status := False\<rparr>)"
    let ?y = "(clear_flags (THREAD_FLAGS_SLEEP OR THREAD_FLAGS_INTERRUPTIBLE) ((threads s t)\<lparr>th_sleep_lock := True\<rparr>))\<lparr>th_wakeup_reason := reason\<rparr>"
    let ?s1 = "s\<lparr>threads := (threads s)(t := ?y), cpus := ?off, run_queue_lock := True\<rparr>"
    have rep1: "rq_rep ?s1 qs" using rep rq_rep_cong [of ?s1 s qs] by (simp add: fun_eq_iff)
    have nin: "t \<notin> set (concat qs)" using coreD(2) [OF core, of t] pt by simp
    have prio: "in_prio qs (threads ?s1)" using coreD(1) [OF core] by (simp add: in_prio_def)
    have y: "\<not> running ?y" "thread_ok (cpus s) ?y" "\<not> queued ?y" using fl fit(1) by (auto simp: thread_ok_def)
    obtain s2 qs2 where e: "enqueue_thread c t ?s1 = Some s2" "rq_rep s2 qs2" "in_prio qs2 (threads s2)"
      "set (concat qs2) = insert t (set (concat qs))" "cpus s2 = ?off" "run_queue_lock s2 = True"
      "\<forall>a. unlinked (threads s2 a) = unlinked (((threads ?s1)(t := set_flags THREAD_FLAGS_QUEUED (threads ?s1 t))) a)"
      using enqueue_effect [OF rep1 prio nin _ _ _, of "cpus s" c] y idle by auto
    let ?s' = "s2\<lparr>run_queue_lock := False, cpus := cpus s, threads := (threads s2)(t := (threads s2 t)\<lparr>th_sleep_lock := False\<rparr>)\<rparr>"
    have w: "sched_wakeup c (Some t) reason s = Some (True, ?s')"
      using False sl lock e(1,5) y cs by (simp add: sched_wakeup_def sched_queue_def interrupt_set_def Let_def)
    let ?x = "(set_flags THREAD_FLAGS_QUEUED ?y)\<lparr>th_sleep_lock := False\<rparr>"
    have v: "th_view (threads ?s' a) = th_view (((threads s)(t := ?x)) a)" for a
      using unlinked_view [OF e(7) [rule_format, of a]] by (cases "a = t") (simp_all add: th_view_def)
    have p: "in_prio qs2 (threads ?s')" using e(3) by (simp add: in_prio_def)
    have "core (pl(t := Queue)) qs2 (threads ?s') (cpus s)"
      by (rule core_enqueued [OF core pt idle fl(3) e(4) p v]) (use fl fit(1) in \<open>auto simp: thread_ok_def\<close>)
    moreover have "rq_rep ?s' qs2" using e(2) rq_rep_cong [of ?s' s2 qs2] by (simp add: fun_eq_iff)
    ultimately have "sched_inv ?s'" by (intro sched_invI) simp_all
    then show ?thesis using w by blast
  qed
qed

lemma core_exit:
  assumes core: "core pl qs th cs" and t: "cpu_thread (cs c) = Some t" "cpu_idle_thread (cs c) \<noteq> Some t" "\<not> sleeping (th t)"
  shows "core (pl(t := Away)) qs (th(t := set_flags THREAD_FLAGS_DEAD (th t)))
     (cs(c := (cs c)\<lparr>cpu_thread := None, cpu_interrupt_status := False\<rparr>))"
proof -
  let ?p = "(cs c)\<lparr>cpu_thread := None, cpu_interrupt_status := False\<rparr>" and ?x = "set_flags THREAD_FLAGS_DEAD (th t)"
  let ?cs = "cs(c := ?p)" and ?pl = "pl(t := Away)" and ?th = "th(t := ?x)"
  have pt: "pl t = On c" using coreD(3) [OF core] t(1) by simp
  note fit = coreD(4,5) [OF core, of t, unfolded pt]
  have ok: "thread_ok ?cs x = thread_ok cs x" for x by (rule thread_ok_cpu) simp
  have on: "?pl a = On d \<longleftrightarrow> cpu_thread (?cs d) = Some a" for a d
    using coreD(3) [OF core, of a d] coreD(3) [OF core, of t d] pt t(1) by (cases "a = t"; cases "d = c") auto
  have q: "?pl a = Queue \<longleftrightarrow> a \<in> set (concat qs)" for a
    using coreD(2) [OF core, of a] pt by (cases "a = t") auto
  have f: "thread_ok ?cs (?th a) \<and> fit (?pl a) (?th a)" for a
    unfolding ok using coreD(4,5) [OF core, of a] fit t(3) by (cases "a = t") auto
  have int: "\<not> cpu_interrupt_status (?cs d)" if "?pl a = On d" "sleeping (?th a)" for a d
    using coreD(6) [OF core, of a d] that by (cases "a = t"; cases "d = c") auto
  have ne: "cpu_idle_thread (cs d) \<noteq> Some t" for d
    using idleD(1) [OF core, of d t] pt t(2) by (cases "d = c") auto
  have idle: "idle_ok ?pl ?th ?cs"
    unfolding idle_ok_def
  proof (intro conjI allI impI)
    fix d a
    assume "cpu_idle_thread (?cs d) = Some a"
    then have i: "cpu_idle_thread (cs d) = Some a" by (cases "d = c") simp_all
    then have "a \<noteq> t" using ne by auto
    then show "?pl a = Away \<or> ?pl a = On d" "\<not> sleeping (?th a)" "\<not> dead (?th a)" using idleD(1-3) [OF core i] by simp_all
  next
    fix d e a
    assume "cpu_idle_thread (?cs d) = Some a" "cpu_idle_thread (?cs e) = Some a"
    then show "d = e" using idleD(4) [OF core, of e a d] by (simp split: if_splits)
  next
    fix d
    assume "cpu_thread (?cs d) \<noteq> None"
    then show "cpu_idle_thread (?cs d) \<noteq> None" using idle_exists [OF core, of d] by (cases "d = c") auto
  qed
  have "in_prio qs ?th" using coreD(1) [OF core] by (simp add: in_prio_def)
  then show ?thesis unfolding core_def using q on f int idle by (intro conjI allI impI) blast+
qed

lemma internal_thread_exit_inv:
  assumes inv: "sched_inv s" and t: "cpu_thread (cpus s c) = Some t" "cpu_idle_thread (cpus s c) \<noteq> Some t" "\<not> sleeping (threads s t)"
  shows "\<exists>s'. internal_thread_exit c s = Some s' \<and> sched_inv s'"
proof -
  obtain pl qs where rep: "rq_rep s qs" and core: "core pl qs (threads s) (cpus s)" and lock: "\<not> run_queue_lock s"
    by (rule sched_invE [OF inv])
  let ?s = "s\<lparr>cpus := (cpus s)(c := (cpus s c)\<lparr>cpu_thread := None, cpu_interrupt_status := False\<rparr>),
    threads := (threads s)(t := set_flags THREAD_FLAGS_DEAD (threads s t)), run_queue_lock := False\<rparr>"
  have "internal_thread_exit c s = sched_stop_thread c ?s"
    using t lock by (simp add: internal_thread_exit_def interrupt_set_def current_thread_def Let_def)
  moreover have "core (pl(t := Away)) qs (threads ?s) (cpus ?s)" using core_exit [OF core t] by simp
  moreover have "rq_rep ?s qs" using rep rq_rep_cong [of ?s s qs] by (simp add: fun_eq_iff)
  ultimately show ?thesis using sched_stop_thread_inv [of ?s qs "pl(t := Away)" c] idle_exists [OF core t(1)] by simp
qed

lemma yield_body_inv:
  assumes rep: "rq_rep s qs" and core: "core pl qs (threads s) (cpus s)" and lock: "\<not> run_queue_lock s"
    and t: "cpu_thread (cpus s c) = Some t" and ctx: "\<And>d. sp_ok (cpus s d) context"
  shows "\<exists>s'. yield_body c context s = Some s' \<and> sched_inv s'"
proof -
  let ?s0 = "s\<lparr>run_queue_lock := True\<rparr>" and ?f = "\<lambda>x. (clear_flags THREAD_FLAGS_RUNNING x)\<lparr>th_context := context\<rparr>"
  have core0: "core pl qs (threads ?s0) (cpus ?s0)" and rep0: "rq_rep ?s0 qs" using core rep by simp_all
  have pt: "pl t = On c" using coreD(3) [OF core] t by simp
  note fit = coreD(4,5) [OF core, of t, unfolded pt]
  have f: "leaves (cpus ?s0) ?f" using ctx by (simp add: leaves_def thread_ok_def)
  have i: "cpu_idle_thread (cpus ?s0 c) \<noteq> None" using idle_exists [OF core t] by simp
  have aside: "\<exists>s'. switch_thread c n ((upd_thread t ?f s1)\<lparr>run_queue_lock := False\<rparr>) = Some s' \<and> sched_inv s'"
    if "taken c pl ?s0 n s1 qs1" "t \<noteq> n" for n s1 qs1
    by (rule step_aside [OF core0 that(1) _ i f]) (use t that(2) in simp_all)
  let ?g = "\<lambda>x. (clear_flags (THREAD_FLAGS_SLEEP OR THREAD_FLAGS_INTERRUPTIBLE) x)
    \<lparr>th_wakeup_reason := WAKEUP_REASON_INTERRUPTED, th_sleep_lock := False\<rparr>"
  have stay: "sched_inv ((upd_thread t ?g s2)\<lparr>run_queue_lock := False\<rparr>)"
    if "rq_rep s2 qs2" "core pl qs2 (threads s2) (cpus s2)" "cpus s2 = cpus s" for s2 qs2
  proof (rule sched_invI)
    note fit2 = coreD(4,5) [OF that(2), of t, unfolded pt]
    show "rq_rep ((upd_thread t ?g s2)\<lparr>run_queue_lock := False\<rparr>) qs2"
      using that(1) rq_rep_cong [of "(upd_thread t ?g s2)\<lparr>run_queue_lock := False\<rparr>" s2 qs2] by (simp add: fun_eq_iff)
    have "core pl qs2 ((threads s2)(t := ?g (threads s2 t))) (cpus s2)"
      by (rule core_on [OF that(2), of c]) (use t that(3) fit2 in \<open>auto simp: thread_ok_def\<close>)
    then show "core pl qs2 (threads ((upd_thread t ?g s2)\<lparr>run_queue_lock := False\<rparr>)) (cpus ((upd_thread t ?g s2)\<lparr>run_queue_lock := False\<rparr>))"
      by simp
  qed simp
  show ?thesis
  proof (cases "sleeping (threads s t)")
    case sl: True
    have idle: "cpu_idle_thread (cpus s c) \<noteq> Some t" using idleD(2) [OF core, of c t] sl by blast
    from core0 rep0 show ?thesis
    proof (cases rule: dequeue_taken [where c = c and mp = "0x0fffffff"])
      case none
      show ?thesis
      proof (cases "th_should_exit (threads s t) \<and> bit (th_flags (threads s t)) 3")
        case True
        have "yield_body c context s = Some ((upd_thread t ?g ?s0)\<lparr>run_queue_lock := False\<rparr>)"
          using none True lock t sl by (simp add: yield_body_def yield_pick_def current_thread_def Let_def spinlock_release_def)
        then show ?thesis using stay [OF rep0 core0] by auto
      next
        case False
        obtain n where n: "cpu_idle_thread (cpus s c) = Some n" using i by auto
        then have n0: "cpu_idle_thread (cpus ?s0 c) = Some n" by simp
        have "yield_body c context s = switch_thread c n ((upd_thread t ?f ?s0)\<lparr>run_queue_lock := False\<rparr>)"
          using none False lock t sl n by (auto simp: yield_body_def yield_pick_def current_thread_def Let_def spinlock_release_def)
        then show ?thesis using aside [OF idle_taken [OF core0 rep0 n0]] n idle by auto
      qed
    next
      case (some n s1 qs1)
      have tn: "t \<noteq> n" using some(2) pt by auto
      show ?thesis
      proof (cases "th_should_exit (threads s1 t) \<and> bit (th_flags (threads s1 t)) 3")
        case True
        obtain s2 qs2 where e: "enqueue_thread c n s1 = Some s2" "rq_rep s2 qs2" "core pl qs2 (threads s2) (cpus s2)" "cpus s2 = cpus s"
          using requeue [OF core0 some(3,2)] by auto
        have "yield_body c context s = Some ((upd_thread t ?g s2)\<lparr>run_queue_lock := False\<rparr>)"
          using some(1) True lock t sl e(1) by (simp add: yield_body_def yield_pick_def current_thread_def Let_def spinlock_release_def)
        then show ?thesis using stay [OF e(2-4)] by auto
      next
        case False
        have "yield_body c context s = switch_thread c n ((upd_thread t ?f s1)\<lparr>run_queue_lock := False\<rparr>)"
          using some(1) False lock t sl by (auto simp: yield_body_def yield_pick_def current_thread_def Let_def spinlock_release_def)
        then show ?thesis using aside [OF some(3) tn] by auto
      qed
    qed
  next
    case awake: False
    from core0 rep0 show ?thesis
    proof (cases rule: dequeue_taken [where c = c and mp = "th_priority (threads s t)"])
      case none
      have "yield_body c context s = Some (s\<lparr>run_queue_lock := False\<rparr>)"
        using none lock t awake by (simp add: yield_body_def yield_pick_def current_thread_def Let_def spinlock_release_def)
      moreover have "sched_inv (s\<lparr>run_queue_lock := False\<rparr>)" by (rule sched_invI) (use rep core in simp_all)
      ultimately show ?thesis by blast
    next
      case (some n s1 qs1)
      obtain s3 s' where e: "enqueue_thread c t (upd_thread t ?f s1) = Some s3"
        "switch_thread c n (s3\<lparr>run_queue_lock := False\<rparr>) = Some s'" "sched_inv s'"
        using give_way [OF core0 some(3,2) _ _ f] t awake by auto
      then show ?thesis
        using some(1) lock t awake by (auto simp: yield_body_def yield_pick_def current_thread_def Let_def spinlock_release_def)
    qed
  qed
qed

lemma sched_yield_inv:
  assumes inv: "sched_inv s" and t: "cpu_thread (cpus s c) = Some t" and ipl: "cpu_ipl (cpus s c) = IPL_NORMAL"
    and ctx: "\<And>d. sp_ok (cpus s d) context"
  shows "\<exists>s'. sched_yield c context s = Some s' \<and> sched_inv s'"
proof -
  obtain pl qs where rep: "rq_rep s qs" and core: "core pl qs (threads s) (cpus s)" and lock: "\<not> run_queue_lock s"
    by (rule sched_invE [OF inv])
  let ?s0 = "s\<lparr>cpus := (cpus s)(c := (cpus s c)\<lparr>cpu_interrupt_status := False\<rparr>)\<rparr>"
  show ?thesis
  proof (cases "sleeping (threads s t)")
    case True
    then have "sched_yield c context s = yield_body c context s"
      using t ipl by (simp add: sched_yield_def current_thread_def Let_def)
    then show ?thesis using yield_body_inv [OF rep core lock t ctx] by simp
  next
    case False
    then have y: "sched_yield c context s = yield_body c context ?s0"
      using t ipl by (simp add: sched_yield_def current_thread_def interrupt_set_def Let_def)
    have rep0: "rq_rep ?s0 qs" using rep by simp
    have core0: "core pl qs (threads ?s0) (cpus ?s0)" using core_off [OF core] by simp
    have ctx0: "sp_ok (cpus ?s0 d) context" for d using ctx [of d] by (cases "d = c") (simp_all add: sp_ok_def)
    show ?thesis unfolding y by (rule yield_body_inv [OF rep0 core0 _ _ ctx0]) (use lock t in simp_all)
  qed
qed

lemma interrupt_set_inv:
  assumes inv: "sched_inv s" and b: "\<And>t. cpu_thread (cpus s c) = Some t \<Longrightarrow> sleeping (threads s t) \<Longrightarrow> \<not> b"
  shows "sched_inv (snd (interrupt_set c b s))"
proof -
  obtain pl qs where rep: "rq_rep s qs" and core: "core pl qs (threads s) (cpus s)" and lock: "\<not> run_queue_lock s"
    by (rule sched_invE [OF inv])
  have "core pl qs (threads s) ((cpus s)(c := (cpus s c)\<lparr>cpu_interrupt_status := b\<rparr>))" by (rule core_interrupts [OF core b])
  then show ?thesis using rep lock by (intro sched_invI [of _ qs pl]) (simp_all add: interrupt_set_def)
qed

subsection \<open>Runs of the scheduler\<close>

lemma sched_pin_inv:
  assumes inv: "sched_inv s" and t: "cpu_thread (cpus s c) = Some t"
  shows "\<exists>s'. sched_pin c p s = Some s' \<and> sched_inv s'"
proof -
  obtain pl qs where rep: "rq_rep s qs" and core: "core pl qs (threads s) (cpus s)" and lock: "\<not> run_queue_lock s"
    by (rule sched_invE [OF inv])
  let ?cs = "(cpus s)(c := (cpus s c)\<lparr>cpu_interrupt_status := cpu_interrupt_status (cpus s c)\<rparr>)"
  let ?s' = "s\<lparr>cpus := ?cs, threads := (threads s)(t := (threads s t)\<lparr>th_pin := p\<rparr>)\<rparr>"
  have e: "sched_pin c p s = Some ?s'" using t by (simp add: sched_pin_def interrupt_set_def current_thread_def Let_def)
  have "core pl qs (threads s) ?cs"
    by (rule core_interrupts [OF core]) (use coreD(3,6) [OF core] in blast)
  then have "core pl qs (threads ?s') (cpus ?s')"
    using core_cong [of "threads s" "threads ?s'" pl qs ?cs] by (simp add: th_view_def)
  moreover have "rq_rep ?s' qs" using rep rq_rep_cong [of ?s' s qs] by (simp add: fun_eq_iff)
  ultimately have "sched_inv ?s'" by (intro sched_invI) (use lock in simp_all)
  then show ?thesis using e by blast
qed

text \<open>A thread as \<open>thread_create\<close> makes it, with its address space (\<open>scheduler_exec\<close> and \<open>fork\<close> set it).\<close>

definition created :: "(nat \<Rightarrow> cpu) \<Rightarrow> thread \<Rightarrow> bool" where
  "created cs x \<longleftrightarrow> (\<exists>kc st pid size priority proc us y ctx. thread_create kc True (Some st) pid size priority proc us = Some y \<and>
     x = y\<lparr>th_vmm_context := Some ctx\<rparr> \<and> 0 \<le> priority \<and> priority < int RUN_QUEUE_COUNT \<and> (\<forall>c. sp_ok (cs c) (th_context x)))"

lemma created_ok:
  assumes "created cs x"
  shows "thread_ok cs x" "fit Away x" "fit (On c) x" "\<not> sleeping x" "\<not> dead x"
  using assms by (auto simp: created_def thread_create_def thread_ok_def Let_def)

lemma rq_rep_outside:
  assumes rep: "rq_rep s qs" and t: "t \<notin> set (concat qs)"
  shows "rq_rep (upd_thread t (\<lambda>_. x) s) qs"
proof -
  have len: "length qs = RUN_QUEUE_COUNT" using rep by (simp add: rq_rep_def rq_links_def)
  have th: "th_next \<circ> (threads s)(t := x) = (th_next \<circ> threads s)(t := th_next x)"
    "th_prev \<circ> (threads s)(t := x) = (th_prev \<circ> threads s)(t := th_prev x)" by (auto simp: fun_eq_iff)
  have "t \<notin> set (qs ! i)" if "i < RUN_QUEUE_COUNT" for i using nth_in_concat [of i qs t] that len t by auto
  then have "dseg (th_next \<circ> (threads s)(t := x)) (th_prev \<circ> (threads s)(t := x)) None (qs ! i) None" if "i < RUN_QUEUE_COUNT" for i
    unfolding th using rep that by (simp add: rq_rep_def rq_links_def del: fun_upd_comp)
  then show ?thesis using rep unfolding rq_rep_def rq_links_def by simp
qed

lemma rq_rep_outside_f: "rq_rep s qs \<Longrightarrow> t \<notin> set (concat qs) \<Longrightarrow> rq_rep (upd_thread t f s) qs"
  using rq_rep_outside [of s qs t "f (threads s t)"] by simp

lemma in_prio_empty:
  assumes "set (concat qs) = {}"
  shows "in_prio qs th"
  unfolding in_prio_def
proof (intro allI impI ballI)
  fix i t assume "i < length qs" "t \<in> set (qs ! i)"
  then have "t \<in> set (concat qs)" by (rule nth_in_concat)
  then show "th_priority (th t) = int i" unfolding assms by (rule emptyE)
qed

lemma create_inv:
  assumes inv: "sched_inv s" and t: "\<forall>d. cpu_thread (cpus s d) \<noteq> Some t \<and> cpu_idle_thread (cpus s d) \<noteq> Some t"
    and fl: "\<not> queued (threads s t)" and x: "created (cpus s) x"
  shows "sched_inv (upd_thread t (\<lambda>_. x) s)"
proof -
  obtain pl qs where rep: "rq_rep s qs" and core: "core pl qs (threads s) (cpus s)" and lock: "\<not> run_queue_lock s"
    by (rule sched_invE [OF inv])
  have pt: "pl t = Away" using coreD(3,5) [OF core, of t] t fl by (cases "pl t") auto
  then have nq: "t \<notin> set (concat qs)" using coreD(2) [OF core, of t] by simp
  note ok = created_ok [OF x]
  have "core (pl(t := Away)) qs ((threads s)(t := x)) (cpus s)"
  proof (rule core_update [OF core])
    show "(pl(t := Away)) a = Queue \<longleftrightarrow> a \<in> set (concat qs)" for a using coreD(2) [OF core, of a] nq by (cases "a = t") auto
    show "in_prio qs ((threads s)(t := x))" using coreD(1) [OF core] nq by (auto simp: in_prio_def)
  qed (use ok t pt in simp_all)
  moreover have "rq_rep (upd_thread t (\<lambda>_. x) s) qs" by (rule rq_rep_outside [OF rep nq])
  ultimately show ?thesis by (intro sched_invI) (use lock in simp_all)
qed

text \<open>
  An operation of the scheduler on a processor. The guards say when the kernel calls it. The timer interrupts a processor that accepts
  interrupts. A thread prepares to sleep once and is not the idle thread. A thread is woken while it is not on its way into
  sleep. A thread that is queued is neither queued nor running, asleep, dead or an idle thread: \<open>sched_queue\<close> does not give its
  lock back for one that is queued or running, see \<open>sched_queue_keeps_lock\<close>. A thread is created in memory that no live thread has.
  Interrupts are not enabled between \<open>sched_prepare_sleep\<close> and \<open>sched_yield\<close>. A context that is saved has its stack pointer outside the
  scheduler stacks, since no code on a scheduler stack is interrupted or yields.
\<close>

datatype sched_op =
  Tick nat cpu_context | Yield nat cpu_context | Prepare_sleep nat bool | Wakeup nat nat int | Enqueue nat nat |
  Exit nat | Stop nat | Interrupts nat bool | Pin nat int | Create nat nat thread

primrec op_cpu :: "sched_op \<Rightarrow> nat" where
  "op_cpu (Tick c ctx) = c"
| "op_cpu (Yield c ctx) = c"
| "op_cpu (Prepare_sleep c i) = c"
| "op_cpu (Wakeup c t r) = c"
| "op_cpu (Enqueue c t) = c"
| "op_cpu (Exit c) = c"
| "op_cpu (Stop c) = c"
| "op_cpu (Interrupts c b) = c"
| "op_cpu (Pin c p) = c"
| "op_cpu (Create c t x) = c"

definition current_sleeping :: "nat \<Rightarrow> sched \<Rightarrow> bool" where
  "current_sleeping c s \<longleftrightarrow> (case cpu_thread (cpus s c) of None \<Rightarrow> False | Some t \<Rightarrow> sleeping (threads s t))"

definition on_own_thread :: "nat \<Rightarrow> sched \<Rightarrow> bool" where
  "on_own_thread c s \<longleftrightarrow> cpu_thread (cpus s c) \<noteq> None \<and> cpu_thread (cpus s c) \<noteq> cpu_idle_thread (cpus s c)"

fun enabled :: "sched_op \<Rightarrow> sched \<Rightarrow> bool" where
  "enabled (Tick c ctx) s \<longleftrightarrow> cpu_thread (cpus s c) \<noteq> None \<and> cpu_interrupt_status (cpus s c) \<and> (\<forall>d. sp_ok (cpus s d) ctx)"
| "enabled (Yield c ctx) s \<longleftrightarrow> cpu_thread (cpus s c) \<noteq> None \<and> cpu_ipl (cpus s c) = IPL_NORMAL \<and> (\<forall>d. sp_ok (cpus s d) ctx)"
| "enabled (Prepare_sleep c i) s \<longleftrightarrow> on_own_thread c s \<and> \<not> current_sleeping c s"
| "enabled (Wakeup c t r) s \<longleftrightarrow> (sleeping (threads s t) \<longrightarrow> (\<forall>d. cpu_thread (cpus s d) \<noteq> Some t))"
| "enabled (Enqueue c t) s \<longleftrightarrow> (\<forall>d. cpu_thread (cpus s d) \<noteq> Some t \<and> cpu_idle_thread (cpus s d) \<noteq> Some t) \<and>
     \<not> queued (threads s t) \<and> \<not> sleeping (threads s t) \<and> \<not> dead (threads s t)"
| "enabled (Exit c) s \<longleftrightarrow> on_own_thread c s \<and> \<not> current_sleeping c s"
| "enabled (Stop c) s \<longleftrightarrow> on_own_thread c s"
| "enabled (Interrupts c b) s \<longleftrightarrow> \<not> b \<or> \<not> current_sleeping c s"
| "enabled (Pin c p) s \<longleftrightarrow> cpu_thread (cpus s c) \<noteq> None"
| "enabled (Create c t x) s \<longleftrightarrow> (\<forall>d. cpu_thread (cpus s d) \<noteq> Some t \<and> cpu_idle_thread (cpus s d) \<noteq> Some t) \<and>
     \<not> queued (threads s t) \<and> \<not> sleeping (threads s t) \<and> created (cpus s) x"

fun perform :: "sched_op \<Rightarrow> sched \<Rightarrow> sched option" where
  "perform (Tick c ctx) s = timer_tick c ctx s"
| "perform (Yield c ctx) s = sched_yield c ctx s"
| "perform (Prepare_sleep c i) s = sched_prepare_sleep c i s"
| "perform (Wakeup c t r) s = map_option snd (sched_wakeup c (Some t) r s)"
| "perform (Enqueue c t) s = map_option snd (sched_queue c t s)"
| "perform (Exit c) s = internal_thread_exit c s"
| "perform (Stop c) s = sched_stop_thread c s"
| "perform (Interrupts c b) s = Some (snd (interrupt_set c b s))"
| "perform (Pin c p) s = sched_pin c p s"
| "perform (Create c t x) s = Some (upd_thread t (\<lambda>_. x) s)"

lemma perform_inv:
  assumes inv: "sched_inv s" and en: "enabled op s"
  shows "\<exists>s'. perform op s = Some s' \<and> sched_inv s'"
proof (cases op)
  case (Tick c ctx)
  then show ?thesis using en timer_tick_inv [OF inv, of c _ ctx] by auto
next
  case (Yield c ctx)
  then show ?thesis using en sched_yield_inv [OF inv, of c _ ctx] by auto
next
  case (Prepare_sleep c i)
  then show ?thesis using en sched_prepare_sleep_inv [OF inv, of c _ i] by (auto simp: on_own_thread_def current_sleeping_def)
next
  case (Wakeup c t r)
  then show ?thesis using en sched_wakeup_inv [OF inv, of t c r] by auto
next
  case (Enqueue c t)
  then show ?thesis using en sched_queue_inv [OF inv, of t c] by auto
next
  case (Exit c)
  then show ?thesis using en internal_thread_exit_inv [OF inv, of c] by (auto simp: on_own_thread_def current_sleeping_def)
next
  case (Stop c)
  obtain pl qs where s: "rq_rep s qs" "core pl qs (threads s) (cpus s)" "\<not> run_queue_lock s" by (rule sched_invE [OF inv])
  obtain r where r: "cpu_thread (cpus s c) = Some r" "cpu_thread (cpus s c) \<noteq> cpu_idle_thread (cpus s c)"
    using Stop en by (auto simp: on_own_thread_def)
  show ?thesis using Stop sched_stop_thread_inv [OF s, of c] r idle_exists [OF s(2) r(1)] by simp
next
  case (Interrupts c b)
  then show ?thesis using en interrupt_set_inv [OF inv, of c b] by (auto simp: current_sleeping_def split: option.splits)
next
  case (Pin c p)
  then show ?thesis using en sched_pin_inv [OF inv, of c _ p] by auto
next
  case (Create c t x)
  then show ?thesis using en create_inv [OF inv, of t x] by simp
qed

text \<open>The steps of a machine with one processor, the processor 0.\<close>

inductive sched_step :: "sched \<Rightarrow> sched \<Rightarrow> bool" where
  step: "op_cpu op = 0 \<Longrightarrow> enabled op s \<Longrightarrow> perform op s = Some s' \<Longrightarrow> sched_step s s'"

inductive_cases sched_stepE [elim!]: "sched_step s s'"

text \<open>
  Its start: \<open>scheduler_init\<close> on the cleared variables of the scheduler, with an idle thread of priority 3 and the thread of the kernel's
  start, of priority 0. The stacks are mapped apart, so no stack pointer of a thread is in the scheduler stack. The memory of threads that
  are not created yet is not read before \<open>thread_create\<close> writes it; it is taken to look like that of a new thread.
\<close>

definition cleared :: "sched \<Rightarrow> bool" where
  "cleared s \<longleftrightarrow> run_queue_bitmap s = 0 \<and> run_queues s = replicate RUN_QUEUE_COUNT \<lparr>rq_head = None, rq_last = None\<rparr> \<and>
     (\<forall>c. cpu_thread (cpus s c) = None \<and> cpu_idle_thread (cpus s c) = None)"

definition booted :: "sched \<Rightarrow> bool" where
  "booted s' \<longleftrightarrow> (\<exists>s kc st_i st_t us stack i t x y. cleared s \<and> i \<noteq> t \<and>
     thread_create kc True (Some st_i) 0 (4 * 4096) 3 None us = Some x \<and>
     thread_create kc True (Some st_t) 0 (32 * 4096) 0 None us = Some y \<and>
     scheduler_init 0 stack (Some (i, x)) (Some (t, y)) s = Some s' \<and> (\<forall>a. created (cpus s') (threads s' a)))"

lemma booted_inv:
  assumes "booted s'"
  shows "sched_inv s'"
proof -
  obtain s stack i t x y where c: "cleared s" and it: "i \<noteq> t"
    and init: "scheduler_init 0 stack (Some (i, x)) (Some (t, y)) s = Some s'"
    and cr: "\<forall>a. created (cpus s') (threads s' a)" using assms unfolding booted_def by blast
  have s': "run_queues s' = run_queues s" "run_queue_bitmap s' = run_queue_bitmap s" "\<not> run_queue_lock s'"
    "cpu_thread (cpus s' c) = (if c = 0 then Some t else None)" "cpu_idle_thread (cpus s' c) = (if c = 0 then Some i else None)" for c
    using init \<open>cleared s\<close> by (auto simp: scheduler_init_def cleared_def split: if_splits)
  have rep: "rq_rep s' no_queues"
    using empty_sched_rep [of "threads s'"] rq_rep_cong [of s' "empty_sched (threads s')" no_queues] s'(1,2) c
    by (simp add: cleared_def empty_sched_def)
  let ?pl = "\<lambda>a. if a = t then On 0 else Away"
  note ok = created_ok [OF cr [rule_format]]
  have "thread_ok (cpus s') (threads s' a) \<and> fit (?pl a) (threads s' a)" for a using ok(1-3) by simp
  moreover have "idle_ok ?pl (threads s') (cpus s')" using ok(4,5) it by (simp add: idle_ok_def s'(4,5) split: if_splits)
  moreover have "in_prio no_queues (threads s')" by (simp add: in_prio_def)
  moreover have "?pl a = On c \<longleftrightarrow> cpu_thread (cpus s' c) = Some a" for a c by (auto simp: s'(4))
  moreover have "?pl a = Queue \<longleftrightarrow> a \<in> set (concat no_queues)" for a by simp
  moreover have "\<not> cpu_interrupt_status (cpus s' c)" if "sleeping (threads s' a)" for a c using ok(4) that by blast
  ultimately have "core ?pl no_queues (threads s') (cpus s')" unfolding core_def by blast
  then show ?thesis using rep s'(3) by (intro sched_invI)
qed

inductive sched_reachable :: "sched \<Rightarrow> bool" where
  start: "booted s \<Longrightarrow> sched_reachable s"
| run: "sched_reachable s \<Longrightarrow> sched_step s s' \<Longrightarrow> sched_reachable s'"

lemma reachable_inv: "sched_reachable s \<Longrightarrow> sched_inv s"
proof (induction rule: sched_reachable.induct)
  case (start s)
  then show ?case by (rule booted_inv)
next
  case (run s s')
  then show ?case using perform_inv by fastforce
qed

text \<open>A start: one user thread after the other has priority 1; the stacks are at different addresses.\<close>

definition user_example :: thread where
  "user_example = (the (thread_create 0 True (Some 0x100000) 7 (16 * 4096) 1 (Some 5) 0x700000))\<lparr>th_vmm_context := Some 1\<rparr>"

definition idle_example :: thread where
  "idle_example = the (thread_create 0 True (Some 0x200000) 0 (4 * 4096) 3 None 0)"

definition start_example :: thread where
  "start_example = the (thread_create 0 True (Some 0x300000) 0 (32 * 4096) 0 None 0)"

definition cleared_example :: sched where
  "cleared_example = \<lparr>threads = (\<lambda>_. user_example),
     cpus = (\<lambda>c. \<lparr>cpu_thread = None, cpu_vmm_context = Some 0, cpu_interrupt_status = True, cpu_id = int c, cpu_ipl = IPL_NORMAL,
       cpu_idle_thread = None, cpu_scheduler_stack = 0\<rparr>),
     run_queue_lock = False, run_queue_bitmap = 0, run_queues = replicate RUN_QUEUE_COUNT \<lparr>rq_head = None, rq_last = None\<rparr>\<rparr>"

definition boot_example :: sched where
  "boot_example = the (scheduler_init 0 0x400000 (Some (0, idle_example)) (Some (1, start_example)) cleared_example)"

lemma boot_example_init:
  "scheduler_init 0 0x400000 (Some (0, idle_example)) (Some (1, start_example)) cleared_example = Some boot_example"
  by (simp add: boot_example_def scheduler_init_def)

lemma boot_example_simps:
  "threads boot_example = (\<lambda>_. user_example)(0 := idle_example, 1 := start_example)" "run_queue_lock boot_example = False"
  "cpu_thread (cpus boot_example c) = (if c = 0 then Some 1 else None)"
  "cpu_idle_thread (cpus boot_example c) = (if c = 0 then Some 0 else None)"
  "cpu_scheduler_stack (cpus boot_example c) = (if c = 0 then 0x410000 else 0)"
  by (simp_all only: boot_example_def scheduler_init_def cleared_example_def sched.simps cpu.simps) (simp_all split: if_splits)

lemma thread_examples:
  "th_flags user_example = 0" "th_priority user_example = 1" "th_pin user_example = - 1"
  "th_flags idle_example = 0" "th_flags start_example = 0" "th_priority start_example = 0" "th_pin start_example = - 1"
  by (simp_all add: user_example_def idle_example_def start_example_def thread_create_def)

lemma idle_example_create:
  "thread_create 0 True (Some 0x200000) 0 (4 * 4096) 3 None 0 = Some idle_example" "idle_example = idle_example\<lparr>th_vmm_context := Some 0\<rparr>"
  by (simp_all add: idle_example_def thread_create_def)

lemma start_example_create:
  "thread_create 0 True (Some 0x300000) 0 (32 * 4096) 0 None 0 = Some start_example" "start_example = start_example\<lparr>th_vmm_context := Some 0\<rparr>"
  by (simp_all add: start_example_def thread_create_def)

lemma created_examples:
  "created (cpus boot_example) user_example" "created (cpus boot_example) idle_example" "created (cpus boot_example) start_example"
proof -
  have "sp_ok (cpus boot_example c) (th_context user_example)" "sp_ok (cpus boot_example c) (th_context idle_example)"
    "sp_ok (cpus boot_example c) (th_context start_example)" for c
    by (simp_all add: sp_ok_def boot_example_simps user_example_def idle_example_def start_example_def thread_create_def)
  moreover have "thread_create 0 True (Some 0x100000) 7 (16 * 4096) 1 (Some 5) 0x700000 = Some (user_example\<lparr>th_vmm_context := None\<rparr>)"
    "user_example = user_example\<lparr>th_vmm_context := None, th_vmm_context := Some 1\<rparr>"
    by (simp_all add: user_example_def thread_create_def)
  moreover note idle_example_create start_example_create
  ultimately show "created (cpus boot_example) user_example" "created (cpus boot_example) idle_example"
    "created (cpus boot_example) start_example"
    unfolding created_def by fastforce+
qed

lemma booted_example: "booted boot_example"
proof -
  have "created (cpus boot_example) (threads boot_example a)" for a by (simp add: boot_example_simps created_examples)
  moreover have "cleared cleared_example" by (simp add: cleared_def cleared_example_def)
  moreover have "(0 :: nat) \<noteq> 1" by simp
  ultimately show ?thesis unfolding booted_def using idle_example_create(1) start_example_create(1) boot_example_init by blast
qed

text \<open>C15. The invariant of the scheduler on one processor: from \<open>scheduler_init\<close> on, in every state that its operations reach in whatever
  order, the run queue lock is free and the run queues, their links and their bitmap are well-formed. A thread has the
  \<open>QUEUED\<close> flag exactly when it is in the queue of its priority, and then it neither runs nor sleeps nor is dead. A thread that has the
  \<open>RUNNING\<close> flag is the current thread or dead; the current thread is neither queued nor dead. The sleep lock is held exactly by the current
  thread on its way into sleep. The idle thread is never queued, asleep or dead.\<close>

theorem scheduler_invariant:
  assumes "sched_reachable s"
  shows "\<not> run_queue_lock s \<and> (\<exists>qs. rq_rep s qs \<and>
    (\<forall>t. queued (threads s t) \<longleftrightarrow> t \<in> set (qs ! nat (th_priority (threads s t)))) \<and>
    (\<forall>t. queued (threads s t) \<longrightarrow> \<not> running (threads s t) \<and> \<not> sleeping (threads s t) \<and> \<not> dead (threads s t)) \<and>
    (\<forall>t. running (threads s t) \<longrightarrow> (\<exists>c. cpu_thread (cpus s c) = Some t) \<or> dead (threads s t)) \<and>
    (\<forall>c t. cpu_thread (cpus s c) = Some t \<longrightarrow> \<not> queued (threads s t) \<and> \<not> dead (threads s t)) \<and>
    (\<forall>t. th_sleep_lock (threads s t) \<longleftrightarrow> sleeping (threads s t) \<and> (\<exists>c. cpu_thread (cpus s c) = Some t)) \<and>
    (\<forall>c t. cpu_idle_thread (cpus s c) = Some t \<longrightarrow> \<not> queued (threads s t) \<and> \<not> sleeping (threads s t) \<and> \<not> dead (threads s t)))"
proof -
  obtain pl qs where rep: "rq_rep s qs" and core: "core pl qs (threads s) (cpus s)" and lock: "\<not> run_queue_lock s"
    by (rule sched_invE [OF reachable_inv [OF assms]])
  have on: "pl t = On c \<longleftrightarrow> cpu_thread (cpus s c) = Some t" and fit: "fit (pl t) (threads s t)" for t c
    by (rule coreD(3) [OF core], rule coreD(5) [OF core])
  have q: "queued (threads s t) \<longleftrightarrow> pl t = Queue" for t using fit [of t] by (cases "pl t") auto
  have len: "length qs = RUN_QUEUE_COUNT" using rep by (simp add: rq_rep_def rq_links_def)
  have mem: "pl t = Queue \<longleftrightarrow> t \<in> set (qs ! nat (th_priority (threads s t)))" for t
  proof
    assume "pl t = Queue"
    then have "t \<in> set (concat qs)" using coreD(2) [OF core] by simp
    then obtain i where i: "i < length qs" "t \<in> set (qs ! i)" by (auto simp: in_set_concat_nth simp del: set_concat)
    then have "th_priority (threads s t) = int i" using coreD(1) [OF core] by (simp add: in_prio_def)
    then show "t \<in> set (qs ! nat (th_priority (threads s t)))" using i(2) by simp
  next
    assume t: "t \<in> set (qs ! nat (th_priority (threads s t)))"
    have "nat (th_priority (threads s t)) < length qs" using coreD(4) [OF core, of t] len by (simp add: thread_ok_def nat_less_iff)
    then have "t \<in> set (concat qs)" using t by (rule nth_in_concat)
    then show "pl t = Queue" using coreD(2) [OF core] by simp
  qed
  have "\<not> running (threads s t) \<and> \<not> sleeping (threads s t) \<and> \<not> dead (threads s t)" if "queued (threads s t)" for t
    using fit [of t] q [of t] that by simp
  moreover have "(\<exists>c. cpu_thread (cpus s c) = Some t) \<or> dead (threads s t)" if "running (threads s t)" for t
    using fit [of t] on [of t] that by (cases "pl t") auto
  moreover have "\<not> queued (threads s t) \<and> \<not> dead (threads s t)" if "cpu_thread (cpus s c) = Some t" for c t
    using fit [of t] on [of t c] that by simp
  moreover have "th_sleep_lock (threads s t) \<longleftrightarrow> sleeping (threads s t) \<and> (\<exists>c. cpu_thread (cpus s c) = Some t)" for t
    using fit [of t] on [of t] by (cases "pl t") auto
  moreover have "\<not> queued (threads s t) \<and> \<not> sleeping (threads s t) \<and> \<not> dead (threads s t)" if "cpu_idle_thread (cpus s c) = Some t" for c t
    using idleD(1-3) [OF core that] q [of t] by auto
  ultimately show ?thesis using lock rep q mem by (intro conjI exI [of _ qs]) blast+
qed

text \<open>The boot thread queues a user thread and stops.\<close>

lemma example_run: "\<exists>s1 s2. perform (Enqueue 0 7) boot_example = Some s1 \<and> perform (Interrupts 0 False) s1 = Some s2 \<and> sched_reachable s2"
proof -
  have r0: "sched_reachable boot_example" by (rule sched_reachable.start [OF booted_example])
  have en: "enabled (Enqueue 0 7) boot_example" by (simp add: boot_example_simps thread_examples)
  then obtain s1 where s1: "perform (Enqueue 0 7) boot_example = Some s1" using perform_inv [OF booted_inv [OF booted_example]] by blast
  have r1: "sched_reachable s1" by (rule sched_reachable.run [OF r0 sched_step.step [OF _ en s1]]) simp
  obtain s2 where s2: "perform (Interrupts 0 False) s1 = Some s2" by simp
  have "sched_reachable s2" by (rule sched_reachable.run [OF r1 sched_step.step [OF _ _ s2]]) simp_all
  then show ?thesis using s1 s2 by blast
qed

theorem scheduler_invariant_witness:
  "\<exists>s1 s2 qs. perform (Enqueue 0 7) boot_example = Some s1 \<and> perform (Interrupts 0 False) s1 = Some s2 \<and> rq_rep s2 qs \<and> \<not> run_queue_lock s2"
proof -
  obtain s1 s2 where s: "perform (Enqueue 0 7) boot_example = Some s1" "perform (Interrupts 0 False) s1 = Some s2" "sched_reachable s2"
    using example_run by blast
  show ?thesis using scheduler_invariant [OF s(3)] s(1,2) by blast
qed



subsection \<open>Two processors\<close>

text \<open>Taking the only thread that is queued.\<close>

lemma dequeue_only:
  assumes rep: "rq_rep s qs" and prio: "in_prio qs (threads s)" and n: "set (concat qs) = {n}" "th_pin (threads s n) < 0"
    "th_priority (threads s n) \<le> mp"
  obtains s1 qs1 where "dequeue_next_thread c mp s = Some (Some n, s1)" "rq_rep s1 qs1" "set (concat qs1) = {}"
    "relinked s s1 ((threads s)(n := clear_flags THREAD_FLAGS_QUEUED (threads s n)))"
proof -
  have len: "length qs = RUN_QUEUE_COUNT" and dist: "distinct (concat qs)" using rep by (simp_all add: rq_rep_def rq_links_def)
  have "n \<in> set (concat qs)" using n(1) by simp
  then obtain i where i: "i < length qs" "n \<in> set (qs ! i)" by (auto simp: in_set_concat_nth simp del: set_concat)
  then have "th_priority (threads s n) = int i" using prio by (simp add: in_prio_def)
  then have "i < allowed mp" using n(3) i(1) len by (simp add: allowed_def)
  then have mem: "qs ! i \<in> set (take (allowed mp) qs)" using i(1) by (auto simp: in_set_conv_nth intro!: exI [of _ i])
  have "runnable_here c s n" using n(2) by (simp add: runnable_here_def)
  then have "List.find (runnable_here c s) (qs ! i) \<noteq> None" using i(2) by (auto simp: find_None_iff)
  then have some: "pick (runnable_here c s) (take (allowed mp) qs) \<noteq> None" using mem by (auto simp: pick_None)
  from rep show ?thesis
  proof (cases rule: dequeue_next_thread_rep [where c = c and mp = mp])
    case none
    then show ?thesis using some by simp
  next
    case (some j t s1)
    have j: "j < length qs" "t \<in> set (qs ! j)" using pick_take_Some [OF some(1)] by simp_all
    then have tn: "t = n" using nth_in_concat [OF j] n(1) by (simp del: set_concat)
    have "set (concat (qs[j := remove1 t (qs ! j)])) = {}" using queue_removed [OF dist j] n(1) tn by (simp del: set_concat)
    then show ?thesis using some(2-4) that tn by simp
  qed
qed

text \<open>C17. On two processors the scheduler can run one thread twice. Let processor \<open>c\<close> run the thread \<open>t\<close> and a single thread \<open>n\<close> of no
  lower priority be queued, both not pinned. The timer preempts \<open>c\<close>: \<open>preempt_callback\<close> takes \<open>n\<close>, queues \<open>t\<close> and releases the run
  queue lock before it has left \<open>t\<close>. If another processor \<open>d\<close> then enters the scheduler with \<open>sched_stop_thread\<close>, it takes \<open>t\<close>, so that
  \<open>t\<close> is the current thread of both; when \<open>c\<close> goes on with \<open>switch_thread\<close>, it clears the \<open>RUNNING\<close> flag of \<open>t\<close>, which runs on \<open>d\<close>.\<close>

theorem preempt_race:
  assumes inv: "sched_inv s" and cd: "c \<noteq> d"
    and t: "cpu_thread (cpus s c) = Some t" "cpu_idle_thread (cpus s c) \<noteq> Some t" "\<not> sleeping (threads s t)" "th_pin (threads s t) < 0"
    and d: "cpu_thread (cpus s d) = None"
    and n: "\<forall>a. queued (threads s a) \<longleftrightarrow> a = n" "th_priority (threads s n) \<le> th_priority (threads s t)" "th_pin (threads s n) < 0"
  shows "\<exists>s1 s2 s3. preempt_pick c s = Some (n, s1) \<and> sched_stop_thread d s1 = Some s2 \<and>
    cpu_thread (cpus s2 c) = Some t \<and> cpu_thread (cpus s2 d) = Some t \<and>
    switch_thread c n s2 = Some s3 \<and> cpu_thread (cpus s3 d) = Some t \<and> \<not> running (threads s3 t)"
proof -
  obtain pl qs where rep: "rq_rep s qs" and core: "core pl qs (threads s) (cpus s)" and lock: "\<not> run_queue_lock s"
    by (rule sched_invE [OF inv])
  have q: "queued (threads s a) \<longleftrightarrow> pl a = Queue" for a using coreD(5) [OF core, of a] by (cases "pl a") auto
  have pt: "pl t = On c" using coreD(3) [OF core] t(1) by simp
  then have tn: "t \<noteq> n" using q [of t] n(1) by auto
  have pn: "pl n = Queue" using q [of n] n(1) by simp
  have only: "set (concat qs) = {n}" using coreD(2) [OF core, symmetric] q n(1) by (simp add: set_eq_iff del: set_concat)
  have ok: "thread_ok (cpus s) (threads s a)" for a by (rule coreD(4) [OF core])
  have fn: "\<not> running (threads s n)" using coreD(5) [OF core, of n] pn by simp
  let ?s0 = "s\<lparr>run_queue_lock := True\<rparr>" and ?f = "\<lambda>x. clear_flags THREAD_FLAGS_RUNNING (clear_flags THREAD_FLAGS_PREEMPTED x)"
  obtain s1 qs1 where s1: "dequeue_next_thread c (th_priority (threads s t)) ?s0 = Some (Some n, s1)" "rq_rep s1 qs1"
    "set (concat qs1) = {}" "relinked ?s0 s1 ((threads ?s0)(n := clear_flags THREAD_FLAGS_QUEUED (threads ?s0 n)))"
  proof (rule dequeue_only [where s = ?s0 and qs = qs and n = n and mp = "th_priority (threads s t)" and c = c])
    show "rq_rep ?s0 qs" "in_prio qs (threads ?s0)" "th_pin (threads ?s0 n) < 0" "th_priority (threads ?s0 n) \<le> th_priority (threads s t)"
      using rep coreD(1) [OF core] n(2,3) by simp_all
    show "set (concat qs) = {n}" by (rule only)
  qed
  have u1: "unlinked (threads s1 a) = unlinked (if a = n then clear_flags THREAD_FLAGS_QUEUED (threads s n) else threads s a)"
    and c1: "cpus s1 = cpus s" "run_queue_lock s1 = True" for a using s1(4) by (simp_all add: relinked_def)
  let ?s2 = "upd_thread t ?f s1"
  note ut = unlinked_eqD [OF u1 [of t]] and un = unlinked_eqD [OF u1 [of n]]
  have tq: "t \<notin> set (concat qs1)" unfolding s1(3) by blast
  have rep2: "rq_rep ?s2 qs1" by (rule rq_rep_outside_f [OF s1(2) tq])
  have run2: "\<not> running (threads ?s2 t)" and idle2: "cpu_idle_thread (cpus ?s2 c) \<noteq> Some t" using t(2) c1(1) by simp_all
  have ok2: "thread_ok (cpus s) (threads ?s2 t)" using ok [of t] ut(2,7,8) tn by (simp add: thread_ok_def)
  obtain s3 qs3 where e3: "enqueue_thread c t ?s2 = Some s3" "rq_rep s3 qs3" "in_prio qs3 (threads s3)"
    "set (concat qs3) = insert t (set (concat qs1))" "cpus s3 = cpus ?s2" "run_queue_lock s3 = run_queue_lock ?s2"
    "\<forall>a. unlinked (threads s3 a) = unlinked (((threads ?s2)(t := set_flags THREAD_FLAGS_QUEUED (threads ?s2 t))) a)"
    using enqueue_effect [OF rep2 in_prio_empty [OF s1(3)] tq run2 ok2 idle2] by blast
  have only3: "set (concat qs3) = {t}" unfolding e3(4) s1(3) ..
  have s3: "cpus s3 = cpus s" "run_queue_lock s3 = True" using e3(5,6) c1 by simp_all
  define x where "x = set_flags THREAD_FLAGS_QUEUED (?f (threads s1 t))"
  have u3: "unlinked (threads s3 t) = unlinked x" "unlinked (threads s3 n) = unlinked (threads s1 n)"
    using e3(7) tn by (simp_all add: x_def)
  let ?s4 = "s3\<lparr>run_queue_lock := False\<rparr>"
  have pick: "preempt_pick c s = Some (n, ?s4)"
    using s1(1) e3(1) s3(2) lock t(1) by (simp add: preempt_pick_def current_thread_def Let_def spinlock_release_def)
  let ?cs = "(cpus s)(d := (cpus s d)\<lparr>cpu_interrupt_status := False\<rparr>)"
  let ?s5 = "?s4\<lparr>cpus := ?cs, run_queue_lock := True\<rparr>"
  note v3 = unlinked_eqD [OF u3(1)] and w3 = unlinked_eqD [OF u3(2)]
  have pin: "th_pin (threads s3 t) < 0" using v3(3) ut(3) t(4) tn by (simp add: x_def clear_flags_def set_flags_def)
  have "th_priority (threads s3 t) = th_priority (threads s t)" using v3(2) ut(2) tn by (simp add: x_def)
  then have le: "th_priority (threads s3 t) \<le> 0x0fffffff" using ok [of t] by (simp add: thread_ok_def)
  obtain s6 qs6 where s6: "dequeue_next_thread d 0x0fffffff ?s5 = Some (Some t, s6)" "rq_rep s6 qs6"
    "relinked ?s5 s6 ((threads ?s5)(t := clear_flags THREAD_FLAGS_QUEUED (threads ?s5 t)))"
  proof (rule dequeue_only [where s = ?s5 and qs = qs3 and n = t and mp = "0x0fffffff" and c = d])
    show "rq_rep ?s5 qs3" "in_prio qs3 (threads ?s5)" "th_pin (threads ?s5 t) < 0" "th_priority (threads ?s5 t) \<le> 0x0fffffff"
      using e3(2,3) pin le by simp_all
    show "set (concat qs3) = {t}" by (rule only3)
  qed
  have u6: "unlinked (threads s6 t) = unlinked (clear_flags THREAD_FLAGS_QUEUED (threads s3 t))"
    "unlinked (threads s6 n) = unlinked (threads s3 n)" and c6: "cpus s6 = ?cs" "run_queue_lock s6 = True"
    using s6(3) tn by (auto simp: relinked_def)
  note v6 = unlinked_eqD [OF u6(1)] and w6 = unlinked_eqD [OF u6(2)]
  have t6: "\<not> running (threads s6 t)" "\<not> queued (threads s6 t)" "th_vmm_context (threads s6 t) = th_vmm_context (threads s t)"
    "th_context (threads s6 t) = th_context (threads s t)"
    using v6(1,7,8) v3(1,7,8) ut(7,8) tn by (simp_all add: x_def)
  let ?s7 = "s6\<lparr>run_queue_lock := False\<rparr>"
  have stop: "sched_stop_thread d ?s4 = switch_thread d t ?s7"
    using s6(1) s3(1) c6(2) t6(2) d by (simp add: sched_stop_thread_def interrupt_set_def current_thread_def Let_def spinlock_release_def)
  obtain v s2 where s2: "switch_thread d t ?s7 = Some s2" "threads s2 = switched d None t (threads s6)"
    "cpus s2 = ?cs(d := (?cs d)\<lparr>cpu_thread := Some t, cpu_vmm_context := v, cpu_interrupt_status := ctx_int (th_context (threads s6 t))\<rparr>)"
    "\<not> run_queue_lock s2"
    using switch_thread_effect [of ?s7 t d] t6 ok [of t] d c6(1) by (auto simp: thread_ok_def sp_ok_def)
  have n2: "threads s2 n = threads s6 n" "cpu_thread (cpus s2 c) = Some t" "cpu_scheduler_stack (cpus s2 c) = cpu_scheduler_stack (cpus s c)"
    using s2(2,3) tn cd t(1) by (simp_all add: switched_def)
  have n6: "\<not> running (threads s6 n)" "\<not> queued (threads s6 n)" "th_vmm_context (threads s6 n) = th_vmm_context (threads s n)"
    "th_context (threads s6 n) = th_context (threads s n)"
    using w6(1,7,8) w3(1,7,8) un(1,7,8) fn by simp_all
  obtain w s8 where s8: "switch_thread c n s2 = Some s8" "threads s8 = switched c (Some t) n (threads s2)"
    "cpus s8 = (cpus s2)(c := (cpus s2 c)\<lparr>cpu_thread := Some n, cpu_vmm_context := w, cpu_interrupt_status := ctx_int (th_context (threads s2 n))\<rparr>)"
    using switch_thread_effect [OF s2(4), of n c] n2 n6 ok [of n] by (auto simp: thread_ok_def sp_ok_def)
  have "\<not> running (threads s8 t)" unfolding s8(2) switched_view(3) [OF tn] by (simp add: Let_def)
  moreover have "cpu_thread (cpus s8 d) = Some t" "cpu_thread (cpus s2 d) = Some t" using s8(3) s2(3) cd by simp_all
  ultimately show ?thesis using pick stop s2(1) n2(2) s8(1) by auto
qed

text \<open>The thread of the start, and a second kernel thread of priority 0 that is queued.\<close>

lemma race_example:
  "\<exists>s. sched_queue 0 7 (upd_thread 7 (\<lambda>_. start_example) boot_example) = Some (0, s) \<and> sched_inv s \<and> cpus s = cpus boot_example \<and>
     (\<forall>a. unlinked (threads s a) = unlinked (((threads boot_example)(7 := set_flags THREAD_FLAGS_QUEUED start_example)) a))"
proof -
  let ?s0 = "upd_thread 7 (\<lambda>_. start_example) boot_example"
  have free: "\<forall>d. cpu_thread (cpus ?s0 d) \<noteq> Some 7 \<and> cpu_idle_thread (cpus ?s0 d) \<noteq> Some 7" by (simp add: boot_example_simps)
  have inv0: "sched_inv ?s0"
    using created_examples(3) by (intro create_inv [OF booted_inv [OF booted_example]]) (simp_all add: boot_example_simps thread_examples)
  have fl: "\<not> queued (threads ?s0 7)" "\<not> sleeping (threads ?s0 7)" "\<not> dead (threads ?s0 7)" by (simp_all add: thread_examples)
  show ?thesis using sched_queue_effect [OF inv0 free fl, of 0] by simp
qed

theorem preempt_race_witness:
  "\<exists>s s1 s2. sched_queue 0 7 (upd_thread 7 (\<lambda>_. start_example) boot_example) = Some (0, s) \<and> preempt_pick 0 s = Some (7, s1) \<and>
     sched_stop_thread 1 s1 = Some s2 \<and> cpu_thread (cpus s2 0) = Some 1 \<and> cpu_thread (cpus s2 1) = Some 1"
proof -
  obtain s where s: "sched_queue 0 7 (upd_thread 7 (\<lambda>_. start_example) boot_example) = Some (0, s)" "sched_inv s" "cpus s = cpus boot_example"
    "\<forall>a. unlinked (threads s a) = unlinked (((threads boot_example)(7 := set_flags THREAD_FLAGS_QUEUED start_example)) a)"
    using race_example by blast
  note u = unlinked_eqD [OF s(4) [rule_format]]
  have q: "\<forall>a. queued (threads s a) \<longleftrightarrow> a = 7" unfolding u(1) by (simp add: boot_example_simps thread_examples)
  have "\<not> sleeping (threads s 1)" "th_pin (threads s 1) < 0" "th_pin (threads s 7) < 0"
    "th_priority (threads s 7) \<le> th_priority (threads s 1)"
    unfolding u(1-3) by (simp_all add: boot_example_simps thread_examples)
  moreover have "(0 :: nat) \<noteq> 1" by simp
  moreover have "cpu_thread (cpus s 0) = Some 1" "cpu_idle_thread (cpus s 0) \<noteq> Some 1" "cpu_thread (cpus s 1) = None"
    unfolding s(3) boot_example_simps by simp_all
  ultimately obtain s1 s2 where "preempt_pick 0 s = Some (7, s1)" "sched_stop_thread 1 s1 = Some s2" "cpu_thread (cpus s2 0) = Some 1"
    "cpu_thread (cpus s2 1) = Some 1" using preempt_race [OF s(2), of 0 1 1 7] q by blast
  then show ?thesis using s(1) by blast
qed

end
