(* ===== verification/ShardTok.thy ===== *)
theory ShardTok
  imports Prelude
begin

text \<open>
  The tokens of the shard language: the types of \<^verbatim>\<open>shard/libshard/include/libshard.h\<close> and the tables
  at the head of \<^verbatim>\<open>shard/libshard/lex.c\<close>.
\<close>

type_synonym i64 = "64 word"

datatype (plugins only: size code) shard_token_type =
    SHARD_TOK_EOF
  | SHARD_TOK_IDENT | SHARD_TOK_STRING | SHARD_TOK_PATH | SHARD_TOK_INT | SHARD_TOK_FLOAT
  | SHARD_TOK_LPAREN | SHARD_TOK_RPAREN | SHARD_TOK_LBRACKET | SHARD_TOK_RBRACKET | SHARD_TOK_LBRACE
  | SHARD_TOK_RBRACE | SHARD_TOK_ASSIGN | SHARD_TOK_EQ | SHARD_TOK_NE | SHARD_TOK_GT | SHARD_TOK_GE
  | SHARD_TOK_LT | SHARD_TOK_LE | SHARD_TOK_LCOMPOSE | SHARD_TOK_RCOMPOSE | SHARD_TOK_COLON
  | SHARD_TOK_DOUBLE_COLON | SHARD_TOK_SEMICOLON | SHARD_TOK_COMMA | SHARD_TOK_PERIOD | SHARD_TOK_ELLIPSE
  | SHARD_TOK_MERGE | SHARD_TOK_CONCAT | SHARD_TOK_QUESTIONMARK | SHARD_TOK_EXCLAMATIONMARK | SHARD_TOK_AT
  | SHARD_TOK_ADD | SHARD_TOK_SUB | SHARD_TOK_MUL | SHARD_TOK_DIV | SHARD_TOK_PIPE | SHARD_TOK_LOGAND
  | SHARD_TOK_LOGOR | SHARD_TOK_LOGIMPL | SHARD_TOK_ARROW | SHARD_TOK_DOLLAR | SHARD_TOK_INTERPOLATION
  | SHARD_TOK_REC | SHARD_TOK_OR | SHARD_TOK_IF | SHARD_TOK_THEN | SHARD_TOK_ELSE | SHARD_TOK_ASSERT
  | SHARD_TOK_LET | SHARD_TOK_IN | SHARD_TOK_WITH | SHARD_TOK_INHERIT | SHARD_TOK_CASE | SHARD_TOK_OF
  | SHARD_TOK_ERR

text \<open>A location, without the pointer to the source it belongs to.\<close>

record shard_location =
  loc_line :: u32
  loc_column :: u32
  loc_width :: u32
  loc_offset :: u32

text \<open>The value of a token. A floating literal carries the three integers its \<open>double\<close> is computed from:
  \<open>integer + fractional / divisor\<close>.\<close>

datatype token_value = NoValue | Str string | Integer i64 | Floating i64 i64 i64

record shard_token =
  tok_type :: shard_token_type
  tok_location :: shard_location
  tok_value :: token_value

text \<open>The table \<open>token_widths\<close>, row by row of equal width; every other token has width 1.\<close>

definition token_widths :: "shard_token_type \<Rightarrow> u32" where
  "token_widths t =
     (if t \<in> {SHARD_TOK_EOF, SHARD_TOK_IDENT, SHARD_TOK_STRING, SHARD_TOK_PATH, SHARD_TOK_INT, SHARD_TOK_FLOAT} then 0
      else if t \<in> {SHARD_TOK_EQ, SHARD_TOK_NE, SHARD_TOK_GE, SHARD_TOK_LE, SHARD_TOK_LCOMPOSE, SHARD_TOK_RCOMPOSE,
        SHARD_TOK_DOUBLE_COLON, SHARD_TOK_MERGE, SHARD_TOK_CONCAT, SHARD_TOK_LOGAND, SHARD_TOK_LOGOR,
        SHARD_TOK_LOGIMPL, SHARD_TOK_ARROW, SHARD_TOK_INTERPOLATION, SHARD_TOK_OR, SHARD_TOK_IF, SHARD_TOK_IN,
        SHARD_TOK_OF} then 2
      else if t \<in> {SHARD_TOK_ELLIPSE, SHARD_TOK_REC, SHARD_TOK_LET} then 3
      else if t \<in> {SHARD_TOK_THEN, SHARD_TOK_ELSE, SHARD_TOK_WITH, SHARD_TOK_CASE} then 4
      else if t = SHARD_TOK_ASSERT then 6
      else if t = SHARD_TOK_INHERIT then 7
      else 1)"

definition keyword_table :: "(string \<times> shard_token_type) list" where
  "keyword_table = [(''rec'', SHARD_TOK_REC), (''or'', SHARD_TOK_OR), (''if'', SHARD_TOK_IF), (''then'', SHARD_TOK_THEN),
     (''else'', SHARD_TOK_ELSE), (''assert'', SHARD_TOK_ASSERT), (''let'', SHARD_TOK_LET), (''in'', SHARD_TOK_IN),
     (''with'', SHARD_TOK_WITH), (''inherit'', SHARD_TOK_INHERIT), (''case'', SHARD_TOK_CASE), (''of'', SHARD_TOK_OF)]"

definition get_keyword :: "string \<Rightarrow> shard_token_type" where
  "get_keyword word = (case map_of keyword_table word of None \<Rightarrow> SHARD_TOK_IDENT | Some type \<Rightarrow> type)"

end
