(* ===== verification/ShardLex.thy ===== *)
theory ShardLex
  imports ShardTok "HOL-Library.Sublist"
begin

text \<open>
  The lexer of the shard language, \<^verbatim>\<open>shard/libshard/lex.c\<close>.

  A source is the buffer \<open>read_all\<close> fills; its last byte is the terminator. The type \<open>char\<close> of the code
  is a byte, and \<open>EOF\<close> stored in it is the byte 255. Offsets are \<open>unsigned\<close>; a source is shorter than
  \<open>2 ^ 32\<close> bytes, and the offset stays below its length (property below), so it is a \<open>nat\<close> here. The
  arithmetic on locations, which does wrap around, is on 32-bit words. A lexing function that returns gives
  its error code, the token and the lexer; \<open>None\<close> is a run that never returns or writes past a buffer.
\<close>

subsection \<open>Character classes\<close>

text \<open>The classes of \<^verbatim>\<open>ctype.h\<close> in the C locale; the value \<open>EOF\<close> is in none of them.\<close>

abbreviation (input) EOF_CHAR :: char where "EOF_CHAR \<equiv> CHR 0xFF"

definition char_code :: "char \<Rightarrow> nat" where
  "char_code c = of_char c"

definition isdigit :: "char \<Rightarrow> bool" where
  "isdigit c \<longleftrightarrow> 48 \<le> char_code c \<and> char_code c \<le> 57"

definition isalpha :: "char \<Rightarrow> bool" where
  "isalpha c \<longleftrightarrow> 65 \<le> char_code c \<and> char_code c \<le> 90 \<or> 97 \<le> char_code c \<and> char_code c \<le> 122"

definition isalnum :: "char \<Rightarrow> bool" where
  "isalnum c \<longleftrightarrow> isalpha c \<or> isdigit c"

definition isspace :: "char \<Rightarrow> bool" where
  "isspace c \<longleftrightarrow> char_code c = 32 \<or> 9 \<le> char_code c \<and> char_code c \<le> 13"

definition is_ident_char :: "char \<Rightarrow> bool" where
  "is_ident_char c \<longleftrightarrow> isalnum c \<or> c = CHR ''_'' \<or> c = CHR ''-''"

text \<open>A C string is the list of its characters without the terminator.\<close>

definition shard_is_valid_identifier :: "string \<Rightarrow> bool" where
  "shard_is_valid_identifier ident \<longleftrightarrow> (\<forall>c \<in> set ident. is_ident_char c)"

definition is_path_terminator :: "char \<Rightarrow> bool" where
  "is_path_terminator c \<longleftrightarrow> c = EOF_CHAR \<or> isspace c \<or> c = CHR '';'' \<or> c = CHR '','' \<or> c = CHR '')'' \<or>
     c = CHR '']'' \<or> c = CHR ''}''"

definition is_double_quote :: "char \<Rightarrow> bool" where
  "is_double_quote c \<longleftrightarrow> c = CHR 0x22"

definition is_gt_sign :: "char \<Rightarrow> bool" where
  "is_gt_sign c \<longleftrightarrow> c = CHR ''>''"

subsection \<open>Lexer state\<close>

record interpolation_data =
  id_multiline :: bool
  id_is_path :: bool
  id_brace_depth :: int
  id_is_end_quote :: "char \<Rightarrow> bool"

record lexer =
  buffer :: string
  lx_line :: u32
  lx_column :: u32
  lx_offset :: nat
  interpolation_stack :: "interpolation_data list"
  handle_interpolation :: bool
  brace_depth :: int
  string_literals :: "string list"

definition shard_lex_init :: "u32 \<Rightarrow> string \<Rightarrow> string list \<Rightarrow> lexer" where
  "shard_lex_init line_offset contents literals =
     \<lparr>buffer = contents, lx_line = line_offset, lx_column = 1, lx_offset = 0, interpolation_stack = [],
      handle_interpolation = False, brace_depth = 0, string_literals = literals\<rparr>"

definition peek_char_n :: "lexer \<Rightarrow> nat \<Rightarrow> char" where
  "peek_char_n l off =
     (if length (buffer l) \<le> lx_offset l + 1 + off then EOF_CHAR
      else let c = buffer l ! (lx_offset l + off) in if c = CHR 0x00 then EOF_CHAR else c)"

definition peek_char :: "lexer \<Rightarrow> char" where
  "peek_char l =
     (if length (buffer l) \<le> lx_offset l + 1 then EOF_CHAR
      else let c = buffer l ! lx_offset l in if c = CHR 0x00 then EOF_CHAR else c)"

definition next_char :: "lexer \<Rightarrow> char \<times> lexer" where
  "next_char l =
     (if length (buffer l) \<le> lx_offset l + 1 then (EOF_CHAR, l)
      else let c = buffer l ! lx_offset l;
               l1 = (if c = CHR 0x0A then l\<lparr>lx_line := lx_line l + 1, lx_column := 0\<rparr> else l)
           in if c = CHR 0x00 \<or> c = EOF_CHAR then (EOF_CHAR, l)
              else (c, l1\<lparr>lx_offset := lx_offset l1 + 1, lx_column := lx_column l1 + 1\<rparr>))"

text \<open>\<open>next_char\<close> for its effect.\<close>

definition skip_char :: "lexer \<Rightarrow> lexer" where
  "skip_char l = snd (next_char l)"

definition l_offset :: "lexer \<Rightarrow> u32" where
  "l_offset l = of_nat (lx_offset l)"

definition LOC_FROM_LEXER :: "lexer \<Rightarrow> u32 \<Rightarrow> shard_location" where
  "LOC_FROM_LEXER l w =
     \<lparr>loc_line = lx_line l, loc_column = lx_column l, loc_width = w, loc_offset = l_offset l - w\<rparr>"

type_synonym lexed = "(errno \<times> shard_token \<times> lexer) option"

definition KEYWORD_TOK :: "shard_token_type \<Rightarrow> lexer \<Rightarrow> lexed" where
  "KEYWORD_TOK type l = Some (0,
     \<lparr>tok_type = type, tok_location = LOC_FROM_LEXER l (token_widths type), tok_value = NoValue\<rparr>, l)"

definition ERR_TOK :: "errno \<Rightarrow> string \<Rightarrow> lexer \<Rightarrow> lexed" where
  "ERR_TOK errno err l = Some (errno,
     \<lparr>tok_type = SHARD_TOK_ERR, tok_location = LOC_FROM_LEXER l 1, tok_value = Str err\<rparr>, l)"

subsection \<open>Every loop of the lexer consumes input\<close>

text \<open>What is left to read. It bounds the number of turns of the loops below.\<close>

definition lex_left :: "lexer \<Rightarrow> nat" where
  "lex_left l = length (buffer l) - lx_offset l"

lemma next_char_left: "lex_left (skip_char l) \<le> lex_left l"
  by (auto simp: skip_char_def next_char_def lex_left_def Let_def)

lemma peek_char_left: "peek_char l \<noteq> EOF_CHAR \<Longrightarrow> lex_left (skip_char l) < lex_left l"
  by (auto simp: peek_char_def skip_char_def next_char_def lex_left_def Let_def split: if_splits)

lemma next_char_left':
  "fst (next_char l) \<noteq> EOF_CHAR \<Longrightarrow> lex_left (skip_char l) < lex_left l"
  by (auto simp: skip_char_def next_char_def lex_left_def Let_def split: if_splits)

lemma class_not_EOF [simp]:
  "\<not> isspace EOF_CHAR" "\<not> isdigit EOF_CHAR" "\<not> is_ident_char EOF_CHAR" "\<not> isalnum EOF_CHAR"
  "is_path_terminator EOF_CHAR"
  by (simp_all add: isspace_def isdigit_def is_ident_char_def isalnum_def isalpha_def char_code_def
      is_path_terminator_def)


subsection \<open>Identifiers and numbers\<close>

text \<open>\<open>tmpbuf\<close> has \<open>PATH_MAX + 1\<close> bytes.\<close>

abbreviation (input) TMPBUF_LEN :: nat where "TMPBUF_LEN \<equiv> 4097"

text \<open>The loop of \<open>lex_ident\<close>: \<open>Inl\<close> when the identifier is too long.\<close>

function lex_ident_loop :: "lexer \<Rightarrow> string \<Rightarrow> lexer + string \<times> lexer" where
  "lex_ident_loop l tmpbuf =
     (let c = peek_char l
      in if is_ident_char c then
           if TMPBUF_LEN \<le> length tmpbuf then Inl l
           else lex_ident_loop (skip_char l) (tmpbuf @ [c])
         else Inr (tmpbuf, l))"
  by pat_completeness auto
termination
  by (relation "measure (lex_left \<circ> fst)") (auto intro: peek_char_left)

declare lex_ident_loop.simps [simp del]

text \<open>The terminator is written at index \<open>i\<close>, which must be inside \<open>tmpbuf\<close>.\<close>

definition lex_ident :: "lexer \<Rightarrow> lexed" where
  "lex_ident l = (case lex_ident_loop l [] of
       Inl l1 \<Rightarrow> ERR_TOK ENAMETOOLONG ''identifier too long'' l1
     | Inr (tmpbuf, l1) \<Rightarrow>
         if length tmpbuf < TMPBUF_LEN then
           let type = get_keyword tmpbuf
           in if type = SHARD_TOK_IDENT then
                Some (0, \<lparr>tok_type = type,
                  tok_location = \<lparr>loc_line = lx_line l1, loc_column = 0, loc_width = l_offset l1 - l_offset l - 1,
                                  loc_offset = l_offset l\<rparr>,
                  tok_value = Str tmpbuf\<rparr>, l1)
              else KEYWORD_TOK type l1
         else None)"

definition digit_value :: "char \<Rightarrow> i64" where
  "digit_value c = of_nat (char_code c) - 48"

text \<open>The loop of \<open>lex_number\<close>: \<open>Inl\<close> at a second period. A literal of more than 18 digits can overflow the \<open>int64_t\<close> of the code, which
  C leaves undefined; the model reads it as the wrap-around that the compiled code has.\<close>

function lex_number_loop :: "lexer \<Rightarrow> i64 \<Rightarrow> i64 \<Rightarrow> i64 \<Rightarrow> bool \<Rightarrow> lexer + i64 \<times> i64 \<times> i64 \<times> bool \<times> lexer" where
  "lex_number_loop l integer fractional divisor floating =
     (let c = peek_char l
      in if isdigit c \<or> c = CHR 0x27 \<or> c = CHR ''.'' then
           if c = CHR 0x27 then lex_number_loop (skip_char l) integer fractional divisor floating
           else if c = CHR ''.'' then
             if floating then Inl l else lex_number_loop (skip_char l) integer fractional divisor True
           else if floating then
             lex_number_loop (skip_char l) integer (fractional * 10 + digit_value c) (divisor * 10) floating
           else lex_number_loop (skip_char l) (integer * 10 + digit_value c) fractional divisor floating
         else Inr (integer, fractional, divisor, floating, l))"
  by pat_completeness auto
termination
  by (relation "measure (lex_left \<circ> fst)") (auto intro: peek_char_left)

declare lex_number_loop.simps [simp del]

definition lex_number :: "lexer \<Rightarrow> lexed" where
  "lex_number l = (case lex_number_loop l 0 0 1 False of
       Inl l1 \<Rightarrow> ERR_TOK EINVAL ''more than one period (`.`) in floating literal'' l1
     | Inr (integer, fractional, divisor, floating, l1) \<Rightarrow>
         let loc = \<lparr>loc_line = lx_line l1, loc_column = 0, loc_width = l_offset l1 - l_offset l, loc_offset = l_offset l\<rparr>
         in if floating
            then Some (0, \<lparr>tok_type = SHARD_TOK_FLOAT, tok_location = loc,
                           tok_value = Floating integer fractional divisor\<rparr>, l1)
            else Some (0, \<lparr>tok_type = SHARD_TOK_INT, tok_location = loc, tok_value = Integer integer\<rparr>, l1))"

subsection \<open>Strings, paths and interpolation\<close>

definition interpolation_top :: "lexer \<Rightarrow> interpolation_data option" where
  "interpolation_top l =
     (if interpolation_stack l = [] then None else Some (last (interpolation_stack l)))"

definition closes_interpolation :: "lexer \<Rightarrow> bool" where
  "closes_interpolation l = (case interpolation_top l of
       None \<Rightarrow> False | Some d \<Rightarrow> id_brace_depth d = brace_depth l)"

definition push_interpolation :: "bool \<Rightarrow> (char \<Rightarrow> bool) \<Rightarrow> bool \<Rightarrow> lexer \<Rightarrow> lexer" where
  "push_interpolation multiline is_end_quote is_path l =
     l\<lparr>interpolation_stack := interpolation_stack l @
         [\<lparr>id_multiline = multiline, id_is_path = is_path, id_brace_depth = brace_depth l,
           id_is_end_quote = is_end_quote\<rparr>]\<rparr>"

text \<open>How the loop of a string lexer ends: at the closing quote, at \<open>${\<close> or at the end of the source.\<close>

datatype string_end = Closed string lexer | Interpolated string lexer | Unterminated lexer

text \<open>
  The loop of \<open>lex_string\<close>. A newline only prepares an error token that the code overwrites in every case.
  The variable \<open>escaped\<close> is false again when the case of \<open>$\<close> tests it.
\<close>

function lex_string_loop :: "(char \<Rightarrow> bool) \<Rightarrow> lexer \<Rightarrow> string \<Rightarrow> bool \<Rightarrow> string_end" where
  "lex_string_loop is_end_quote l str escaped =
     (let c = peek_char l
      in if \<not> is_end_quote c \<or> escaped then
           if c = EOF_CHAR then Unterminated l
           else if c = CHR 0x5C then lex_string_loop is_end_quote (skip_char l) (str @ [c]) True
           else if c = CHR ''$'' \<and> peek_char_n l 1 = CHR ''{'' then Interpolated str l
           else lex_string_loop is_end_quote (skip_char l) (str @ [c]) False
         else Closed str l)"
  by pat_completeness auto
termination
  by (relation "measure (\<lambda>(e, l, s, b). lex_left l)") (auto intro: peek_char_left)

declare lex_string_loop.simps [simp del]

definition STRING_TOK :: "shard_token_type \<Rightarrow> string \<Rightarrow> u32 \<Rightarrow> u32 \<Rightarrow> lexer \<Rightarrow> lexed" where
  "STRING_TOK type str line start l = Some (0,
     \<lparr>tok_type = type,
      tok_location = \<lparr>loc_line = line, loc_column = 0, loc_width = l_offset l - start + 1, loc_offset = start - 1\<rparr>,
      tok_value = Str str\<rparr>,
     l\<lparr>string_literals := string_literals l @ [str]\<rparr>)"

definition lex_string :: "(char \<Rightarrow> bool) \<Rightarrow> bool \<Rightarrow> lexer \<Rightarrow> lexed" where
  "lex_string is_end_quote is_path l =
     (let start = l_offset l - 1;
          type = (if is_path then SHARD_TOK_PATH else SHARD_TOK_STRING)
      in case lex_string_loop is_end_quote l [] False of
           Closed str l1 \<Rightarrow>
             let l2 = (if is_path then l1 else skip_char l1) in STRING_TOK type str (lx_line l2) start l2
         | Interpolated str l1 \<Rightarrow>
             STRING_TOK type str (lx_line l1) start (push_interpolation False is_end_quote is_path l1)
         | Unterminated l1 \<Rightarrow>
             ERR_TOK EINVAL (if is_path then ''unterminated path literal'' else ''unterminated string literal'') l1)"

text \<open>
  The loop of \<open>lex_multiline_string\<close>; \<open>e0\<close> and \<open>e1\<close> are \<open>escaped[0]\<close> and \<open>escaped[1]\<close> at the end of the
  previous turn, so that \<open>escaped[1]\<close> is \<open>e0\<close> and \<open>escaped[2]\<close> is \<open>e1\<close> in this one. At a \<open>$\<close> that starts no
  interpolation the code continues without reading it.
\<close>

partial_function (option) lex_multiline_loop :: "lexer \<Rightarrow> string \<Rightarrow> bool \<Rightarrow> bool \<Rightarrow> string_end option" where
  "lex_multiline_loop l str e0 e1 =
     (let c = peek_char l
      in if c = CHR 0x27 then
           if e0 \<or> e1 then lex_multiline_loop (skip_char l) (str @ [CHR 0x27]) False e0
           else if peek_char_n l 1 = CHR 0x27 then Some (Closed str (skip_char (skip_char l)))
           else lex_multiline_loop (skip_char l) str False e0
         else if c = CHR 0x5C then lex_multiline_loop (skip_char l) (str @ [CHR 0x5C]) True e0
         else if c = CHR ''$'' then
           if e1 \<or> peek_char_n l 1 \<noteq> CHR ''{'' then lex_multiline_loop l str False e0
           else Some (Interpolated str l)
         else if c = EOF_CHAR then Some (Unterminated l)
         else lex_multiline_loop (skip_char l) (str @ [c]) False e0)"

text \<open>The quote test of a multiline interpolation is the null pointer; it is never called.\<close>

definition lex_multiline_string :: "lexer \<Rightarrow> lexed" where
  "lex_multiline_string l = do {
     let start = l_offset l - 1;
     r \<leftarrow> lex_multiline_loop l [] False False;
     (case r of
        Closed str l1 \<Rightarrow> STRING_TOK SHARD_TOK_STRING str (lx_line l) start l1
      | Interpolated str l1 \<Rightarrow>
          STRING_TOK SHARD_TOK_STRING str (lx_line l) start (push_interpolation True (\<lambda>_. False) False l1)
      | Unterminated l1 \<Rightarrow> 
          ERR_TOK EINVAL (''unterminated multiline string literal, expect `'' @ [CHR 0x27, CHR 0x27, CHR ''`'']) l1)
   }"

definition pop_interpolation :: "lexer \<Rightarrow> lexed" where
  "pop_interpolation l = do {
     d \<leftarrow> interpolation_top l;
     let l1 = l\<lparr>interpolation_stack := butlast (interpolation_stack l), handle_interpolation := False\<rparr>;
     if id_multiline d then lex_multiline_string l1
     else lex_string (id_is_end_quote d) (id_is_path d) l1
   }"

subsection \<open>Spaces and comments\<close>

function skip_whitespace :: "lexer \<Rightarrow> lexer" where
  "skip_whitespace l = (if isspace (peek_char l) then skip_whitespace (skip_char l) else l)"
  by pat_completeness auto
termination
  by (relation "measure lex_left") (auto intro: peek_char_left)

declare skip_whitespace.simps [simp del]

text \<open>The loop after \<open>#\<close>.\<close>

function skip_line_comment :: "lexer \<Rightarrow> lexer" where
  "skip_line_comment l =
     (let c = fst (next_char l)
      in if c \<noteq> CHR 0x0A \<and> c \<noteq> EOF_CHAR then skip_line_comment (skip_char l) else skip_char l)"
  by pat_completeness auto
termination
  by (relation "measure lex_left") (auto intro: next_char_left')

declare skip_line_comment.simps [simp del]

text \<open>The loops after \<open>/*\<close>, started before the slash: \<open>Inl\<close> at the end of the source.\<close>

function skip_block_comment :: "lexer \<Rightarrow> lexer + lexer" where
  "skip_block_comment l =
     (let c = fst (next_char l); l1 = skip_char l
      in if c = CHR ''*'' then
           if fst (next_char l1) = CHR ''/'' then Inr (skip_char l1) else skip_block_comment (skip_char l1)
         else if c = EOF_CHAR then Inl l1
         else skip_block_comment l1)"
  by pat_completeness auto
termination
proof (relation "measure lex_left")
  show "\<And>l c l1. c = fst (next_char l) \<Longrightarrow> l1 = skip_char l \<Longrightarrow> c = CHR ''*'' \<Longrightarrow>
      fst (next_char l1) \<noteq> CHR ''/'' \<Longrightarrow> (skip_char l1, l) \<in> measure lex_left"
    by (auto intro: le_less_trans [OF next_char_left next_char_left'])
qed (auto intro: next_char_left')

declare skip_block_comment.simps [simp del]

lemma skip_whitespace_left: "lex_left (skip_whitespace l) \<le> lex_left l"
proof (induction l rule: skip_whitespace.induct)
  case (1 l)
  then show ?case using next_char_left [of l] by (subst skip_whitespace.simps) auto
qed

lemma skip_line_comment_left: "lex_left (skip_line_comment l) \<le> lex_left (skip_char l)"
proof (induction l rule: skip_line_comment.induct)
  case (1 l)
  then show ?case using next_char_left [of "skip_char l"] by (subst skip_line_comment.simps) (auto simp: Let_def)
qed

lemma skip_block_comment_left: "skip_block_comment l = Inr l' \<Longrightarrow> lex_left l' \<le> lex_left (skip_char l)"
proof (induction l rule: skip_block_comment.induct)
  case (1 l)
  show ?case
  proof (cases "fst (next_char l) = CHR ''*''")
    case True
    then show ?thesis
      using 1(1) [OF refl refl] 1(3) next_char_left [of "skip_char l"] next_char_left [of "skip_char (skip_char l)"]
      by (auto simp: skip_block_comment.simps [of l] Let_def split: if_splits)
  next
    case False
    then show ?thesis
      using 1(2) [OF refl refl] 1(3) next_char_left [of "skip_char l"]
      by (auto simp: skip_block_comment.simps [of l] Let_def split: if_splits)
  qed
qed

subsection \<open>The lexer\<close>

text \<open>Tokens of one character, and those whose second character decides.\<close>

definition lex_one :: "shard_token_type \<Rightarrow> lexer \<Rightarrow> lexed" where
  "lex_one type l = KEYWORD_TOK type (skip_char l)"

definition lex_two :: "(char \<times> shard_token_type) list \<Rightarrow> shard_token_type \<Rightarrow> lexer \<Rightarrow> lexed" where
  "lex_two seconds type l =
     (let l1 = skip_char l
      in case map_of seconds (peek_char l1) of
           Some type2 \<Rightarrow> KEYWORD_TOK type2 (skip_char l1)
         | None \<Rightarrow> KEYWORD_TOK type l1)"

text \<open>The cases of the switch in \<open>shard_lex\<close> that do more.\<close>

definition lex_rbrace :: "lexer \<Rightarrow> lexed" where
  "lex_rbrace l =
     (let l1 = skip_char l;
          l2 = l1\<lparr>brace_depth := brace_depth l1 - 1\<rparr>;
          l3 = (if closes_interpolation l2 then l2\<lparr>handle_interpolation := True\<rparr> else l2)
      in KEYWORD_TOK SHARD_TOK_RBRACE l3)"

definition lex_slash :: "lexer \<Rightarrow> lexed" where
  "lex_slash l =
     (if peek_char_n l 1 = CHR ''/'' then KEYWORD_TOK SHARD_TOK_MERGE (skip_char (skip_char l))
      else if \<not> isspace (peek_char_n l 1) then lex_string is_path_terminator True l
      else lex_one SHARD_TOK_DIV l)"

definition lex_ampersand :: "lexer \<Rightarrow> lexed" where
  "lex_ampersand l =
     (let l1 = skip_char l
      in if peek_char l1 = CHR ''&'' then KEYWORD_TOK SHARD_TOK_LOGAND (skip_char l1)
         else ERR_TOK EINVAL ''unknown token `&`, did you mean `&&`?'' l1)"

definition lex_period :: "lexer \<Rightarrow> lexed" where
  "lex_period l =
     (if peek_char_n l 1 = CHR ''.'' \<and> peek_char_n l 2 = CHR ''.''
      then KEYWORD_TOK SHARD_TOK_ELLIPSE (skip_char (skip_char (skip_char l)))
      else if peek_char_n l 1 = CHR ''.'' \<and> peek_char_n l 2 = CHR ''/'' then lex_string is_path_terminator True l
      else if peek_char_n l 1 = CHR ''/'' then lex_string is_path_terminator True l
      else lex_one SHARD_TOK_PERIOD l)"

definition lex_less :: "lexer \<Rightarrow> lexed" where
  "lex_less l =
     (let l1 = skip_char l
      in if peek_char l1 = CHR ''='' then KEYWORD_TOK SHARD_TOK_LE (skip_char l1)
         else if peek_char l1 = CHR ''<'' then KEYWORD_TOK SHARD_TOK_LCOMPOSE (skip_char l1)
         else if \<not> isspace (peek_char l1) then do {
           (err, token, l2) \<leftarrow> lex_string is_gt_sign False l1;
           Some (err, token\<lparr>tok_type := SHARD_TOK_PATH\<rparr>, l2)
         }
         else KEYWORD_TOK SHARD_TOK_LT l1)"

definition lex_dollar :: "lexer \<Rightarrow> lexed" where
  "lex_dollar l =
     (let l1 = skip_char l
      in if peek_char l1 = CHR ''{'' then
           let l2 = skip_char l1 in KEYWORD_TOK SHARD_TOK_INTERPOLATION (l2\<lparr>brace_depth := brace_depth l2 + 1\<rparr>)
         else KEYWORD_TOK SHARD_TOK_DOLLAR l1)"

definition lex_quote :: "lexer \<Rightarrow> lexed" where
  "lex_quote l =
     (let l1 = skip_char l; l2 = skip_char l1
      in if fst (next_char l1) = CHR 0x27 then lex_multiline_string l2
         else ERR_TOK EINVAL (''unexpected character, expect second `'' @ [CHR 0x27] @ ''` for multiline string'') l2)"

text \<open>The switch of \<open>shard_lex\<close> on the next character, without the comments.\<close>

definition lex_token :: "char \<Rightarrow> lexer \<Rightarrow> lexed" where
  "lex_token c l =
     (if c = EOF_CHAR then KEYWORD_TOK SHARD_TOK_EOF l
      else if c = CHR ''('' then lex_one SHARD_TOK_LPAREN l
      else if c = CHR '')'' then lex_one SHARD_TOK_RPAREN l
      else if c = CHR ''['' then lex_one SHARD_TOK_LBRACKET l
      else if c = CHR '']'' then lex_one SHARD_TOK_RBRACKET l
      else if c = CHR ''{'' then
        let l1 = skip_char l in KEYWORD_TOK SHARD_TOK_LBRACE (l1\<lparr>brace_depth := brace_depth l1 + 1\<rparr>)
      else if c = CHR ''}'' then lex_rbrace l
      else if c = CHR ''+'' then lex_two [(CHR ''+'', SHARD_TOK_CONCAT)] SHARD_TOK_ADD l
      else if c = CHR ''-'' then lex_two [(CHR ''>'', SHARD_TOK_LOGIMPL)] SHARD_TOK_SUB l
      else if c = CHR ''*'' then lex_one SHARD_TOK_MUL l
      else if c = CHR ''/'' then lex_slash l
      else if c = CHR ''~'' then lex_string is_path_terminator True l
      else if c = CHR '':'' then lex_two [(CHR '':'', SHARD_TOK_DOUBLE_COLON)] SHARD_TOK_COLON l
      else if c = CHR '';'' then lex_one SHARD_TOK_SEMICOLON l
      else if c = CHR ''&'' then lex_ampersand l
      else if c = CHR ''|'' then lex_two [(CHR ''|'', SHARD_TOK_LOGOR)] SHARD_TOK_PIPE l
      else if c = CHR '','' then lex_one SHARD_TOK_COMMA l
      else if c = CHR ''.'' then lex_period l
      else if c = CHR ''?'' then lex_one SHARD_TOK_QUESTIONMARK l
      else if c = CHR ''!'' then lex_two [(CHR ''='', SHARD_TOK_NE)] SHARD_TOK_EXCLAMATIONMARK l
      else if c = CHR ''>'' then lex_two [(CHR ''='', SHARD_TOK_GE), (CHR ''>'', SHARD_TOK_RCOMPOSE)] SHARD_TOK_GT l
      else if c = CHR ''<'' then lex_less l
      else if c = CHR ''@'' then lex_one SHARD_TOK_AT l
      else if c = CHR ''$'' then lex_dollar l
      else if c = CHR ''='' then lex_two [(CHR ''='', SHARD_TOK_EQ), (CHR ''>'', SHARD_TOK_ARROW)] SHARD_TOK_ASSIGN l
      else if c = CHR 0x27 then lex_quote l
      else if c = CHR 0x22 then lex_string is_double_quote False (skip_char l)
      else if isdigit c then lex_number l
      else if is_ident_char c then lex_ident l
      else ERR_TOK EINVAL ''Unexpected character'' l)"

text \<open>\<open>shard_lex\<close> from the label \<open>repeat\<close>.\<close>

function lex_repeat :: "lexer \<Rightarrow> lexed" where
  "lex_repeat l0 =
     (let l = skip_whitespace l0; c = peek_char l
      in if c = CHR ''#'' then lex_repeat (skip_line_comment l)
         else if c = CHR ''/'' \<and> peek_char_n l 1 = CHR ''*'' then
           (case skip_block_comment l of
              Inl l1 \<Rightarrow> ERR_TOK EOVERFLOW ''unterminated multiline comment, expect `*/`'' l1
            | Inr l1 \<Rightarrow> lex_repeat l1)
         else lex_token c l)"
  by pat_completeness auto
termination
proof (relation "measure lex_left")
  fix l0 l c
  assume *: "l = skip_whitespace l0" "c = peek_char l"
  have le: "lex_left l \<le> lex_left l0" using * skip_whitespace_left by simp
  { assume "c = CHR ''#''"
    then have "lex_left (skip_char l) < lex_left l" using * by (intro peek_char_left) simp
    then show "(skip_line_comment l, l0) \<in> measure lex_left" using le skip_line_comment_left [of l] by simp }
  { fix l1
    assume "c \<noteq> CHR ''#''" "c = CHR ''/'' \<and> peek_char_n l 1 = CHR ''*''" and l1: "skip_block_comment l = Inr l1"
    then have "lex_left (skip_char l) < lex_left l" using * by (intro peek_char_left) simp
    then show "(l1, l0) \<in> measure lex_left" using le skip_block_comment_left [OF l1] by simp }
qed simp

declare lex_repeat.simps [simp del]

definition shard_lex :: "lexer \<Rightarrow> lexed" where
  "shard_lex l = (if handle_interpolation l then pop_interpolation l else lex_repeat l)"


subsection \<open>The text that is left\<close>

text \<open>\<open>rest l\<close>: the characters up to the end of the source, as \<open>next_char\<close> delivers them.\<close>

definition rest :: "lexer \<Rightarrow> string" where
  "rest l = takeWhile (\<lambda>c. c \<noteq> CHR 0x00 \<and> c \<noteq> EOF_CHAR) (drop (lx_offset l) (butlast (buffer l)))"

lemma drop_butlast_cases:
  "drop i (butlast xs) = (if length xs \<le> i + 1 then [] else xs ! i # drop (Suc i) (butlast xs))"
  by (auto simp: Cons_nth_drop_Suc [symmetric] nth_butlast)

lemma rest_unfold:
  "rest l = (if length (buffer l) \<le> lx_offset l + 1 then []
     else let c = buffer l ! lx_offset l
          in if c = CHR 0x00 \<or> c = EOF_CHAR then []
             else c # takeWhile (\<lambda>c. c \<noteq> CHR 0x00 \<and> c \<noteq> EOF_CHAR) (drop (Suc (lx_offset l)) (butlast (buffer l))))"
  by (subst rest_def, subst drop_butlast_cases) (simp add: Let_def)

lemma peek_rest: "peek_char l = (case rest l of [] \<Rightarrow> EOF_CHAR | c # cs \<Rightarrow> c)"
  by (subst rest_unfold) (auto simp: peek_char_def Let_def)

lemma next_char_peek [simp]: "fst (next_char l) = peek_char l"
  by (auto simp: next_char_def peek_char_def Let_def)

lemma rest_skip [simp]: "rest (skip_char l) = tl (rest l)"
proof (cases "rest l = []")
  case True
  then have "skip_char l = l"
    by (auto simp: rest_unfold [of l] skip_char_def next_char_def Let_def split: if_splits)
  then show ?thesis using True by simp
next
  case False
  then have c: "\<not> length (buffer l) \<le> lx_offset l + 1" "buffer l ! lx_offset l \<noteq> CHR 0x00"
    "buffer l ! lx_offset l \<noteq> EOF_CHAR"
    by (auto simp: rest_unfold [of l] Let_def split: if_splits)
  then have "lx_offset (skip_char l) = Suc (lx_offset l)" "buffer (skip_char l) = buffer l"
    by (simp_all add: skip_char_def next_char_def Let_def)
  then show ?thesis using c by (subst rest_def) (simp add: rest_unfold [of l] Let_def)
qed

lemma peek_char_n_skip: "rest l \<noteq> [] \<Longrightarrow> peek_char_n l (Suc n) = peek_char_n (skip_char l) n"
  by (auto simp: rest_unfold [of l] peek_char_n_def skip_char_def next_char_def Let_def split: if_splits)

lemma peek_char_n_0 [simp]: "peek_char_n l 0 = peek_char l"
  by (simp add: peek_char_n_def peek_char_def)

lemma peek_char_n_rest:
  "rest l = c # cs \<Longrightarrow> peek_char_n l (Suc 0) = (case cs of [] \<Rightarrow> EOF_CHAR | d # ds \<Rightarrow> d)"
  "rest l = c # c' # cs \<Longrightarrow> peek_char_n l 2 = (case cs of [] \<Rightarrow> EOF_CHAR | d # ds \<Rightarrow> d)"
  using peek_char_n_skip [of l 0] peek_char_n_skip [of l 1] peek_char_n_skip [of "skip_char l" 0]
  by (auto simp: peek_rest numeral_2_eq_2)

lemma skip_char_fields [simp]:
  "interpolation_stack (skip_char l) = interpolation_stack l"
  "handle_interpolation (skip_char l) = handle_interpolation l"
  "brace_depth (skip_char l) = brace_depth l" "buffer (skip_char l) = buffer l"
  "string_literals (skip_char l) = string_literals l"
  by (simp_all add: skip_char_def next_char_def Let_def)

lemma rest_update [simp]:
  "rest (interpolation_stack_update f l) = rest l" "rest (handle_interpolation_update g l) = rest l"
  "rest (brace_depth_update h l) = rest l" "rest (string_literals_update k l) = rest l"
  by (simp_all add: rest_def)

lemma rest_no_eof: "EOF_CHAR \<notin> set (rest l)" "CHR 0x00 \<notin> set (rest l)"
  by (auto simp: rest_def dest: set_takeWhileD)

lemma skip_left: "lx_offset l < length (buffer l) \<Longrightarrow> lx_offset (skip_char l) < length (buffer l)"
  by (auto simp: skip_char_def next_char_def Let_def)

text \<open>\<open>adv n l\<close>: the lexer after \<open>n\<close> characters.\<close>

primrec adv :: "nat \<Rightarrow> lexer \<Rightarrow> lexer" where
  "adv 0 l = l"
| "adv (Suc n) l = adv n (skip_char l)"

lemma adv_fields [simp]:
  "interpolation_stack (adv n l) = interpolation_stack l" "handle_interpolation (adv n l) = handle_interpolation l"
  "brace_depth (adv n l) = brace_depth l" "buffer (adv n l) = buffer l" "string_literals (adv n l) = string_literals l"
  by (induction n arbitrary: l) auto

lemma rest_adv [simp]: "rest (adv n l) = drop n (rest l)"
  by (induction n arbitrary: l) (auto simp: drop_Suc)

lemma skip_adv: "skip_char (adv n l) = adv (Suc n) l"
  by (induction n arbitrary: l) auto

lemma adv_adv: "adv m (adv n l) = adv (n + m) l"
  by (induction n arbitrary: l) auto

lemma adv_bound: "lx_offset l < length (buffer l) \<Longrightarrow> lx_offset (adv n l) < length (buffer l)"
proof (induction n arbitrary: l)
  case (Suc n)
  then show ?case using Suc.IH [of "skip_char l"] skip_left [of l] by simp
qed simp

text \<open>The loops, in terms of the text that is left.\<close>

lemma skip_whitespace_adv: "skip_whitespace l = adv (length (takeWhile isspace (rest l))) l"
proof (induction l rule: skip_whitespace.induct)
  case (1 l)
  then show ?case by (cases "rest l") (simp_all add: skip_whitespace.simps [of l] peek_rest)
qed

lemma skip_line_comment_adv:
  "skip_line_comment l = adv (Suc (length (takeWhile (\<lambda>c. c \<noteq> CHR 0x0A) (rest l)))) l"
proof (induction l rule: skip_line_comment.induct)
  case (1 l)
  show ?case
  proof (cases "rest l")
    case Nil
    then show ?thesis by (simp add: skip_line_comment.simps [of l] peek_rest)
  next
    case (Cons c cs)
    moreover have "c \<noteq> EOF_CHAR" using rest_no_eof [of l] Cons by auto
    ultimately show ?thesis using 1 by (simp add: skip_line_comment.simps [of l] peek_rest Let_def)
  qed
qed

lemma lex_ident_loop_adv:
  assumes "length w \<le> TMPBUF_LEN"
  shows "lex_ident_loop l w =
    (let v = takeWhile is_ident_char (rest l)
     in if length w + length v \<le> TMPBUF_LEN then Inr (w @ v, adv (length v) l) else Inl (adv (TMPBUF_LEN - length w) l))"
  using assms
proof (induction l w rule: lex_ident_loop.induct)
  case (1 l w)
  show ?case
  proof (cases "rest l")
    case Nil
    then show ?thesis using 1(2) by (simp add: lex_ident_loop.simps [of l] peek_rest Let_def)
  next
    case (Cons c cs)
    show ?thesis
    proof (cases "is_ident_char c \<and> length w < TMPBUF_LEN")
      case True
      then have "TMPBUF_LEN - length w = Suc (TMPBUF_LEN - Suc (length w))" by linarith
      then show ?thesis using 1(1) [OF refl] Cons True
        by (simp add: lex_ident_loop.simps [of l] peek_rest Let_def)
    next
      case False
      then show ?thesis using 1(2) Cons by (auto simp: lex_ident_loop.simps [of l] peek_rest Let_def)
    qed
  qed
qed

datatype scan_end = Scan_quote | Scan_dollar | Scan_eof

definition starts :: "char \<Rightarrow> string \<Rightarrow> bool" where
  "starts c cs \<longleftrightarrow> (case cs of [] \<Rightarrow> False | d # ds \<Rightarrow> d = c)"

lemma starts_simps [simp]: "\<not> starts c []" "starts c (d # ds) \<longleftrightarrow> d = c"
  by (simp_all add: starts_def)

lemma peek_n_starts: "rest l = c # cs \<Longrightarrow> d \<noteq> EOF_CHAR \<Longrightarrow> peek_char_n l (Suc 0) = d \<longleftrightarrow> starts d cs"
  by (auto simp: peek_char_n_rest(1) split: list.splits)

text \<open>A string literal, read from the text: the characters up to its end.\<close>

fun scan_string :: "(char \<Rightarrow> bool) \<Rightarrow> string \<Rightarrow> bool \<Rightarrow> string \<times> scan_end" where
  "scan_string e [] escaped = ([], if \<not> e EOF_CHAR \<or> escaped then Scan_eof else Scan_quote)"
| "scan_string e (c # cs) escaped =
     (if e c \<and> \<not> escaped then ([], Scan_quote)
      else if c = CHR ''$'' \<and> starts (CHR ''{'') cs then ([], Scan_dollar)
      else apfst (Cons c) (scan_string e cs (c = CHR 0x5C)))"

definition string_end_of :: "string \<Rightarrow> lexer \<Rightarrow> scan_end \<Rightarrow> string_end" where
  "string_end_of str l e = (case e of
       Scan_quote \<Rightarrow> Closed str l | Scan_dollar \<Rightarrow> Interpolated str l | Scan_eof \<Rightarrow> Unterminated l)"

lemma string_end_of_simps [simp]:
  "string_end_of str l Scan_quote = Closed str l" "string_end_of str l Scan_dollar = Interpolated str l"
  "string_end_of str l Scan_eof = Unterminated l"
  by (simp_all add: string_end_of_def)

lemma lex_string_loop_adv:
  "lex_string_loop e l str escaped =
     (case scan_string e (rest l) escaped of (w, q) \<Rightarrow> string_end_of (str @ w) (adv (length w) l) q)"
proof (induction e l str escaped rule: lex_string_loop.induct)
  case (1 e l str escaped)
  show ?case
  proof (cases "rest l")
    case Nil
    then show ?thesis by (simp add: lex_string_loop.simps [of e l] peek_rest Let_def)
  next
    case (Cons c cs)
    have c: "c \<noteq> EOF_CHAR" using rest_no_eof [of l] Cons by auto
    have p: "peek_char l = c" using Cons by (simp add: peek_rest)
    have d: "peek_char_n l (Suc 0) = CHR ''{'' \<longleftrightarrow> starts (CHR ''{'') cs" using Cons by (simp add: peek_n_starts)
    note step = lex_string_loop.simps [of e l] Let_def p d Cons c
    consider "e c" "\<not> escaped" | "\<not> e c \<or> escaped" "c = CHR 0x5C" | "\<not> e c \<or> escaped" "c \<noteq> CHR 0x5C" by blast
    then show ?thesis
    proof cases
      case 1
      then show ?thesis by (simp add: step)
    next
      case 2
      then show ?thesis using "1.IH"(1) [OF refl] by (auto simp: step split: prod.split)
    next
      case 3
      then show ?thesis using "1.IH"(2) [OF refl] by (auto simp: step split: prod.split)
    qed
  qed
qed

subsection \<open>Multiline strings\<close>

text \<open>
  A multiline string, read from the text: its contents, the number of characters read and how it ends. A quote
  that is not part of a pair is dropped. At a \<open>$\<close> that starts no interpolation there is no result.
\<close>

fun scan_multiline :: "string \<Rightarrow> bool \<Rightarrow> bool \<Rightarrow> (string \<times> nat \<times> scan_end) option" where
  "scan_multiline [] e0 e1 = Some ([], 0, Scan_eof)"
| "scan_multiline (c # cs) e0 e1 =
     (if c = CHR 0x27 then
        if e0 \<or> e1 then map_option (\<lambda>(w, n, q). (c # w, Suc n, q)) (scan_multiline cs False e0)
        else if starts (CHR 0x27) cs then Some ([], 2, Scan_quote)
        else map_option (\<lambda>(w, n, q). (w, Suc n, q)) (scan_multiline cs False e0)
      else if c = CHR ''$'' then if starts (CHR ''{'') cs then Some ([], 0, Scan_dollar) else None
      else map_option (\<lambda>(w, n, q). (c # w, Suc n, q)) (scan_multiline cs (c = CHR 0x5C) e0))"

lemma multiline_stuck:
  assumes "lex_multiline_loop l str e0 e1 = Some r"
  shows "starts (CHR ''$'') (rest l) \<longrightarrow> peek_char_n l (Suc 0) = CHR ''{''"
proof (rule lex_multiline_loop.raw_induct [OF _ assms])
  fix loop l str e0 e1 r
  assume IH: "\<And>l str e0 e1 r. loop l str e0 e1 = Some r \<Longrightarrow>
      starts (CHR ''$'') (rest l) \<longrightarrow> peek_char_n l (Suc 0) = CHR ''{''"
    and turn: "(let c = peek_char l
      in if c = CHR 0x27 then
           if e0 \<or> e1 then loop (skip_char l) (str @ [CHR 0x27]) False e0
           else if peek_char_n l 1 = CHR 0x27 then Some (Closed str (skip_char (skip_char l)))
           else loop (skip_char l) str False e0
         else if c = CHR 0x5C then loop (skip_char l) (str @ [CHR 0x5C]) True e0
         else if c = CHR ''$'' then
           if e1 \<or> peek_char_n l 1 \<noteq> CHR ''{'' then loop l str False e0
           else Some (Interpolated str l)
         else if c = EOF_CHAR then Some (Unterminated l)
         else loop (skip_char l) (str @ [c]) False e0) = Some r"
  show "starts (CHR ''$'') (rest l) \<longrightarrow> peek_char_n l (Suc 0) = CHR ''{''"
  proof
    assume s: "starts (CHR ''$'') (rest l)"
    then have "peek_char l = CHR ''$''" by (auto simp: peek_rest starts_def split: list.splits)
    then show "peek_char_n l (Suc 0) = CHR ''{''" using turn IH [of l str False e0 r] s by (auto split: if_splits)
  qed
qed

lemma multiline_dollar:
  assumes "starts (CHR ''$'') (rest l)"
  shows "lex_multiline_loop l str e0 e1 =
    (if peek_char_n l (Suc 0) = CHR ''{'' then Some (Interpolated str l) else None)"
proof (cases "peek_char_n l (Suc 0) = CHR ''{''")
  case True
  have p: "peek_char l = CHR ''$''" using assms by (auto simp: peek_rest starts_def split: list.splits)
  have "lex_multiline_loop l str e False = Some (Interpolated str l)" for e
    using True p by (simp add: lex_multiline_loop.simps)
  moreover have "lex_multiline_loop l str e True = lex_multiline_loop l str False e" for e
    using True p by (subst lex_multiline_loop.simps) simp
  ultimately show ?thesis using True by (cases e1; cases e0) simp_all
next
  case False
  then show ?thesis using multiline_stuck assms by (cases "lex_multiline_loop l str e0 e1") auto
qed

lemma lex_multiline_loop_adv:
  "lex_multiline_loop l str e0 e1 =
     map_option (\<lambda>(w, n, q). string_end_of (str @ w) (adv n l) q) (scan_multiline (rest l) e0 e1)"
proof (induction "rest l" arbitrary: l str e0 e1)
  case Nil
  then show ?case by (subst lex_multiline_loop.simps) (simp add: peek_rest Let_def flip: Nil)
next
  case (Cons c cs)
  have r: "rest l = c # cs" using Cons(2) by simp
  have IH: "lex_multiline_loop (skip_char l) str e0 e1 =
     map_option (\<lambda>(w, n, q). string_end_of (str @ w) (adv n (skip_char l)) q) (scan_multiline cs e0 e1)" for str e0 e1
    using Cons(1) [of "skip_char l"] r by simp
  have p: "peek_char l = c" using r by (simp add: peek_rest)
  have n: "d \<noteq> EOF_CHAR \<Longrightarrow> peek_char_n l (Suc 0) = d \<longleftrightarrow> starts d cs" for d using r by (simp add: peek_n_starts)
  have c: "c \<noteq> EOF_CHAR" using rest_no_eof [of l] r by auto
  show ?case
  proof (cases "c = CHR ''$''")
    case True
    then show ?thesis using multiline_dollar [of l] r n by simp
  next
    case False
    then show ?thesis
      by (subst lex_multiline_loop.simps)
        (simp add: Let_def p n c IH r option.map_comp comp_def case_prod_unfold numeral_2_eq_2)
  qed
qed

text \<open>C24. The loop of \<open>lex_multiline_string\<close> reads exactly what the reference scanner reads from the text that is
  left: it ends at the first pair of quotes that no backslash precedes, at \<open>${\<close> or at the end of the source, and it
  never returns exactly when the scanner meets a \<open>$\<close> that is not followed by an opening brace.\<close>

theorem lex_multiline_reference:
  "lex_multiline_loop l [] False False =
     map_option (\<lambda>(w, n, q). string_end_of w (adv n l) q) (scan_multiline (rest l) False False)"
  by (simp add: lex_multiline_loop_adv)

subsection \<open>Progress\<close>

text \<open>\<open>moved l l' n\<close>: \<open>l'\<close> stands \<open>n\<close> characters after \<open>l\<close> in the same source.\<close>

definition moved :: "lexer \<Rightarrow> lexer \<Rightarrow> nat \<Rightarrow> bool" where
  "moved l l' n \<longleftrightarrow> buffer l' = buffer l \<and> lx_offset l' = lx_offset (adv n l)"

lemma offset_skip_cong:
  "buffer l' = buffer l \<Longrightarrow> lx_offset l' = lx_offset l \<Longrightarrow> lx_offset (skip_char l') = lx_offset (skip_char l)"
  by (simp add: skip_char_def next_char_def Let_def)

lemma moved_refl [simp]: "moved l l 0"
  by (simp add: moved_def)

lemma moved_skip [intro]: "moved l l' n \<Longrightarrow> moved l (skip_char l') (Suc n)"
  unfolding moved_def skip_adv [symmetric] by (auto intro: offset_skip_cong)

lemma moved_adv: "moved l l' n \<Longrightarrow> moved l (adv m l') (n + m)"
proof (induction m arbitrary: l' n)
  case (Suc m)
  then show ?case using Suc.IH [of "skip_char l'" "Suc n"] by auto
qed simp

lemma moved_self: "moved l (adv n l) n"
  by (simp add: moved_def)

lemma moved_trans: "moved l l1 m \<Longrightarrow> moved l1 l2 n \<Longrightarrow> moved l l2 (m + n)"
  using moved_adv [of l l1 m n] by (simp add: moved_def)

lemma moved_update [simp]:
  "moved l (interpolation_stack_update f l') n = moved l l' n" "moved l (handle_interpolation_update g l') n = moved l l' n"
  "moved l (brace_depth_update h l') n = moved l l' n" "moved l (string_literals_update k l') n = moved l l' n"
  "moved l (push_interpolation b e p l') n = moved l l' n"
  by (simp_all add: moved_def push_interpolation_def)

lemma moved_rest: "moved l l' n \<Longrightarrow> rest l' = drop n (rest l)"
  using rest_adv [of n l] by (simp add: moved_def rest_def)

lemma moved_bound: "moved l l' n \<Longrightarrow> lx_offset l < length (buffer l) \<Longrightarrow> lx_offset l' < length (buffer l')"
  using adv_bound [of l n] by (simp add: moved_def)

text \<open>\<open>consumes k l r\<close>: the result \<open>r\<close> was lexed from \<open>l\<close>, and a proper token took at least \<open>k\<close> characters.\<close>

definition consumes :: "nat \<Rightarrow> lexer \<Rightarrow> lexed \<Rightarrow> bool" where
  "consumes k l r \<longleftrightarrow> (\<forall>e t l'. r = Some (e, t, l') \<longrightarrow>
     (\<exists>n. moved l l' n \<and> (e = 0 \<and> tok_type t \<noteq> SHARD_TOK_EOF \<longrightarrow> k \<le> n)))"

lemma consumes_KEYWORD_TOK: "moved l l' n \<Longrightarrow> k \<le> n \<Longrightarrow> consumes k l (KEYWORD_TOK type l')"
  by (auto simp: consumes_def KEYWORD_TOK_def)

lemma consumes_EOF: "moved l l' n \<Longrightarrow> consumes k l (KEYWORD_TOK SHARD_TOK_EOF l')"
  by (auto simp: consumes_def KEYWORD_TOK_def)

lemma consumes_ERR_TOK: "moved l l' n \<Longrightarrow> err \<noteq> 0 \<Longrightarrow> consumes k l (ERR_TOK err msg l')"
  by (auto simp: consumes_def ERR_TOK_def)

lemma consumes_STRING_TOK: "moved l l' n \<Longrightarrow> k \<le> n \<Longrightarrow> consumes k l (STRING_TOK type str line start l')"
  by (auto simp: consumes_def STRING_TOK_def)

lemma consumes_None [simp]: "consumes k l None"
  by (simp add: consumes_def)

lemma consumes_if: "(b \<Longrightarrow> consumes k l x) \<Longrightarrow> (\<not> b \<Longrightarrow> consumes k l y) \<Longrightarrow> consumes k l (if b then x else y)"
  by simp

lemma brace_moved: "moved l l' n \<Longrightarrow> moved l (l'\<lparr>brace_depth := d\<rparr>) n"
  by simp

lemma consumes_after:
  assumes "consumes k l' r" "moved l l' m"
  shows "consumes (m + k) l r"
  unfolding consumes_def
proof (intro allI impI)
  fix e t l2
  assume "r = Some (e, t, l2)"
  then obtain n where n: "moved l' l2 n" "e = 0 \<and> tok_type t \<noteq> SHARD_TOK_EOF \<longrightarrow> k \<le> n"
    using assms(1) by (auto simp: consumes_def)
  show "\<exists>n. moved l l2 n \<and> (e = 0 \<and> tok_type t \<noteq> SHARD_TOK_EOF \<longrightarrow> m + k \<le> n)"
    by (rule exI [of _ "m + n"]) (use n moved_trans [OF assms(2) n(1)] in auto)
qed

lemma consumes_mono: "consumes k l r \<Longrightarrow> j \<le> k \<Longrightarrow> consumes j l r"
  unfolding consumes_def by (blast intro: le_trans)

lemma consumes_lex_string:
  assumes "k = 0 \<or> k = 1 \<and> \<not> e (peek_char l) \<and> peek_char l \<noteq> CHR ''$'' \<and> peek_char l \<noteq> EOF_CHAR"
  shows "consumes k l (lex_string e is_path l)"
proof -
  obtain w q where w: "scan_string e (rest l) False = (w, q)" by (cases "scan_string e (rest l) False")
  have k: "k \<le> length w"
    using assms w by (cases "rest l") (auto simp: peek_rest apfst_def map_prod_def split: if_splits prod.splits)
  have m: "moved l (adv (length w) l) (length w)" by (rule moved_self)
  show ?thesis
  proof (cases q)
    case Scan_quote
    then show ?thesis using w k moved_skip [OF m] m
      by (auto simp: lex_string_def lex_string_loop_adv Let_def intro!: consumes_STRING_TOK)
  next
    case Scan_dollar
    then show ?thesis using w k m
      by (auto simp: lex_string_def lex_string_loop_adv Let_def intro!: consumes_STRING_TOK)
  next
    case Scan_eof
    then show ?thesis using w m
      by (auto simp: lex_string_def lex_string_loop_adv Let_def intro!: consumes_ERR_TOK)
  qed
qed

lemma consumes_lex_multiline_string: "consumes 0 l (lex_multiline_string l)"
proof (cases "scan_multiline (rest l) False False")
  case None
  then show ?thesis by (simp add: lex_multiline_string_def lex_multiline_loop_adv Let_def)
next
  case (Some r)
  obtain w n q where r: "r = (w, n, q)" by (cases r)
  have m: "moved l (adv n l) n" by (rule moved_self)
  show ?thesis using Some r m
    by (cases q) (auto simp: lex_multiline_string_def lex_multiline_loop_adv Let_def
        intro!: consumes_STRING_TOK consumes_ERR_TOK)
qed

lemma consumes_lex_ident:
  assumes "is_ident_char (peek_char l)"
  shows "consumes 1 l (lex_ident l)"
proof -
  let ?v = "takeWhile is_ident_char (rest l)"
  have k: "1 \<le> length ?v" using assms by (cases "rest l") (auto simp: peek_rest)
  have m: "moved l (adv n l) n" for n by (rule moved_self)
  show ?thesis using k m
    by (auto simp: lex_ident_def lex_ident_loop_adv Let_def consumes_def ERR_TOK_def KEYWORD_TOK_def)
qed

lemma lex_number_loop_moved:
  "case lex_number_loop l i f d b of
     Inl l1 \<Rightarrow> \<exists>n. moved l l1 n
   | Inr (i', f', d', b', l1) \<Rightarrow> \<exists>n. moved l l1 n \<and> (isdigit (peek_char l) \<longrightarrow> 1 \<le> n)"
proof (induction l i f d b rule: lex_number_loop.induct)
  case (1 l i f d b)
  have step: "case r of Inl l1 \<Rightarrow> \<exists>n. moved l l1 n
      | Inr (i', f', d', b', l1) \<Rightarrow> \<exists>n. moved l l1 n \<and> (isdigit (peek_char l) \<longrightarrow> 1 \<le> n)"
    if "case r of Inl l1 \<Rightarrow> \<exists>n. moved (skip_char l) l1 n
      | Inr (i', f', d', b', l1) \<Rightarrow> \<exists>n. moved (skip_char l) l1 n \<and> P n" for P r
    using that moved_trans [OF moved_skip [OF moved_refl], of l] by (auto split: sum.splits)
  show ?case
    using 1(1-4) [OF refl, THEN step] moved_refl [of l] exI [of "moved l l", OF moved_refl]
    by (auto simp: lex_number_loop.simps [of l] Let_def)
qed

lemma consumes_lex_number: "isdigit (peek_char l) \<Longrightarrow> consumes 1 l (lex_number l)"
  using lex_number_loop_moved [of l 0 0 1 False]
  by (auto simp: lex_number_def consumes_def ERR_TOK_def Let_def split: sum.splits if_splits)

lemma consumes_lex_less: "consumes 1 l (lex_less l)"
proof -
  have m: "moved l (skip_char l) 1" "moved l (skip_char (skip_char l)) 2"
    using moved_skip [of l l 0] moved_skip [of l "skip_char l" 1] by (simp_all add: numeral_2_eq_2)
  have "consumes 0 (skip_char l) (lex_string is_gt_sign False (skip_char l))" by (rule consumes_lex_string) simp
  then have s: "consumes (1 + 0) l (lex_string is_gt_sign False (skip_char l))" by (rule consumes_after) (rule m(1))
  have "consumes 1 l (lex_string is_gt_sign False (skip_char l) \<bind>
      (\<lambda>(err, token, l2). Some (err, token\<lparr>tok_type := SHARD_TOK_PATH\<rparr>, l2)))"
  proof (cases "lex_string is_gt_sign False (skip_char l)")
    case (Some r)
    obtain e t l2 where r: "r = (e, t, l2)" by (cases r)
    have "tok_type t \<noteq> SHARD_TOK_EOF"
      using Some r by (auto simp: lex_string_def STRING_TOK_def ERR_TOK_def Let_def split: string_end.splits)
    then show ?thesis using s Some r by (auto simp: consumes_def)
  qed simp
  then show ?thesis using m by (auto simp: lex_less_def Let_def intro: consumes_KEYWORD_TOK)
qed

lemma consumes_lex_token: "consumes 1 l (lex_token (peek_char l) l)"
proof -
  have m1: "moved l (skip_char l) 1" and m2: "moved l (skip_char (skip_char l)) 2"
    and m3: "moved l (skip_char (skip_char (skip_char l))) 3"
    using moved_skip [of l l 0] moved_skip [of l "skip_char l" 1] moved_skip [of l "skip_char (skip_char l)" 2]
    by (simp_all add: numeral_2_eq_2 numeral_3_eq_3)
  have one: "consumes 1 l (lex_one type l)" for type
    using m1 by (auto simp: lex_one_def intro: consumes_KEYWORD_TOK)
  have two: "consumes 1 l (lex_two seconds type l)" for seconds type
    using m1 m2 by (auto simp: lex_two_def Let_def intro: consumes_KEYWORD_TOK split: option.split)
  have path: "peek_char l \<in> {CHR ''/'', CHR ''~'', CHR ''.''} \<Longrightarrow> consumes 1 l (lex_string is_path_terminator True l)"
    by (intro consumes_lex_string) (auto simp: is_path_terminator_def isspace_def char_code_def)
  have str: "consumes 1 l (lex_string e p (skip_char l))" for e p
    using consumes_after [OF consumes_lex_string [of 0] m1] by simp
  have ml: "consumes 1 l (lex_multiline_string (skip_char (skip_char l)))"
    by (rule consumes_mono [OF consumes_after [OF consumes_lex_multiline_string m2]]) simp
  note toks = consumes_KEYWORD_TOK [OF m1] consumes_KEYWORD_TOK [OF m2] consumes_ERR_TOK [OF m1] consumes_ERR_TOK [OF m2]
    consumes_KEYWORD_TOK [OF m3]
  have rb: "consumes 1 l (lex_rbrace l)"
    unfolding lex_rbrace_def Let_def by (rule consumes_KEYWORD_TOK [of _ _ 1]) (use m1 in simp_all)
  have sl: "peek_char l = CHR ''/'' \<Longrightarrow> consumes 1 l (lex_slash l)"
    unfolding lex_slash_def by (intro consumes_if toks one path) simp_all
  have am: "consumes 1 l (lex_ampersand l)"
    unfolding lex_ampersand_def Let_def by (intro consumes_if toks) simp_all
  have pe: "peek_char l = CHR ''.'' \<Longrightarrow> consumes 1 l (lex_period l)"
    unfolding lex_period_def by (intro consumes_if toks one path) simp_all
  have dl: "consumes 1 l (lex_dollar l)"
    unfolding lex_dollar_def Let_def
    by (intro consumes_if toks consumes_KEYWORD_TOK [OF m2 [THEN brace_moved]]) simp_all
  have qu: "consumes 1 l (lex_quote l)"
    unfolding lex_quote_def Let_def by (intro consumes_if toks ml) simp_all
  note m0 = moved_refl [of l]
  show ?thesis
    unfolding lex_token_def Let_def
    by (intro consumes_if one two path str rb sl am pe dl qu consumes_lex_less consumes_lex_number consumes_lex_ident
        consumes_EOF [OF m0] consumes_ERR_TOK [OF m0] consumes_KEYWORD_TOK [OF m1 [THEN brace_moved]]) simp_all
qed

lemma skip_block_comment_moved: "\<exists>n. moved l (case skip_block_comment l of Inl l1 \<Rightarrow> l1 | Inr l1 \<Rightarrow> l1) n"
proof (induction l rule: skip_block_comment.induct)
  case (1 l)
  have m: "moved l (skip_char l) 1" "moved l (skip_char (skip_char l)) 2"
    using moved_skip [of l l 0] moved_skip [of l "skip_char l" 1] by (simp_all add: numeral_2_eq_2)
  have IH: "\<exists>n. moved l (case skip_block_comment l' of Inl l1 \<Rightarrow> l1 | Inr l1 \<Rightarrow> l1) n"
    if "\<exists>n. moved l' (case skip_block_comment l' of Inl l1 \<Rightarrow> l1 | Inr l1 \<Rightarrow> l1) n" "moved l l' k" for l' k
    using that moved_trans by blast
  show ?case
    using 1(1) [OF refl refl, THEN IH, OF _ _ m(2)] 1(2) [OF refl refl, THEN IH, OF _ _ m(1)] m
    by (auto simp: skip_block_comment.simps [of l] Let_def)
qed

lemma consumes_lex_repeat: "consumes 1 l (lex_repeat l)"
proof (induction l rule: lex_repeat.induct)
  case (1 l0)
  define l where "l = skip_whitespace l0"
  have l: "moved l0 l (length (takeWhile isspace (rest l0)))"
    unfolding l_def skip_whitespace_adv by (rule moved_self)
  have down: "consumes (Suc 0) l0 r" if "consumes (Suc 0) l' r" "moved l0 l' n" for l' n r
    by (rule consumes_mono [OF consumes_after [OF that]]) simp
  note unf = lex_repeat.simps [of l0] l_def [symmetric] Let_def
  consider "peek_char l = CHR ''#''" | "peek_char l \<noteq> CHR ''#''" "peek_char l = CHR ''/'' \<and> peek_char_n l 1 = CHR ''*''"
    | "peek_char l \<noteq> CHR ''#''" "\<not> (peek_char l = CHR ''/'' \<and> peek_char_n l 1 = CHR ''*'')" by blast
  then show ?case
  proof cases
    case 1
    have "moved l0 (skip_line_comment l) (length (takeWhile isspace (rest l0)) +
        Suc (length (takeWhile (\<lambda>c. c \<noteq> CHR 0x0A) (rest l))))"
      unfolding skip_line_comment_adv by (rule moved_adv [OF l])
    then show ?thesis using down [of "skip_line_comment l"] "1.IH"(1) [OF l_def refl 1] 1 by (simp add: unf)
  next
    case 2
    obtain n where n: "moved l0 (case skip_block_comment l of Inl l1 \<Rightarrow> l1 | Inr l1 \<Rightarrow> l1) n"
      using skip_block_comment_moved [of l] moved_trans [OF l] by blast
    show ?thesis
    proof (cases "skip_block_comment l")
      case (Inl l1)
      then show ?thesis using n 2 by (auto simp: unf intro: consumes_ERR_TOK)
    next
      case (Inr l1)
      then show ?thesis using n 2 down [of l1] "1.IH"(2) [OF l_def refl 2 Inr] by (simp add: unf)
    qed
  next
    case 3
    then have "lex_repeat l0 = lex_token (peek_char l) l" by (auto simp: unf)
    then show ?thesis using down [OF consumes_lex_token [unfolded One_nat_def] l] by simp
  qed
qed

lemma consumes_shard_lex: "consumes (if handle_interpolation l then 0 else 1) l (shard_lex l)"
proof (cases "handle_interpolation l")
  case True
  have "consumes 0 l (lex_string e p (l\<lparr>interpolation_stack := s, handle_interpolation := False\<rparr>))" for e p s
    by (rule consumes_after [OF consumes_lex_string, of 0 e _ l 0, simplified]) simp
  moreover have "consumes 0 l (lex_multiline_string (l\<lparr>interpolation_stack := s, handle_interpolation := False\<rparr>))" for s
    by (rule consumes_after [OF consumes_lex_multiline_string, where m = 0, simplified]) simp
  ultimately show ?thesis using True
    by (cases "interpolation_top l") (simp_all add: shard_lex_def pop_interpolation_def Let_def)
next
  case False
  then show ?thesis using consumes_lex_repeat by (simp add: shard_lex_def)
qed

text \<open>What bounds the number of tokens: two for each character, and one for a string that continues after an
  interpolation.\<close>

definition lex_measure :: "lexer \<Rightarrow> nat" where
  "lex_measure l = 2 * length (rest l) + (if handle_interpolation l then 1 else 0)"

lemma lex_string_handle: "lex_string e p l = Some (err, t, l') \<Longrightarrow> handle_interpolation l' = handle_interpolation l"
  by (auto simp: lex_string_def lex_string_loop_adv STRING_TOK_def ERR_TOK_def Let_def string_end_of_def
      push_interpolation_def split: prod.splits scan_end.splits if_splits)

lemma lex_multiline_handle: "lex_multiline_string l = Some (err, t, l') \<Longrightarrow> handle_interpolation l' = handle_interpolation l"
  by (auto simp: lex_multiline_string_def lex_multiline_loop_adv STRING_TOK_def ERR_TOK_def Let_def string_end_of_def
      push_interpolation_def map_option_case split: prod.splits scan_end.splits if_splits option.splits)

lemma lex_repeat_empty: "rest l = [] \<Longrightarrow> lex_repeat l = KEYWORD_TOK SHARD_TOK_EOF l"
  by (simp add: lex_repeat.simps [of l] skip_whitespace_adv peek_rest lex_token_def)

lemma shard_lex_consumes:
  assumes "shard_lex l = Some (e, t, l')" "e = 0" "tok_type t \<noteq> SHARD_TOK_EOF"
  shows "if handle_interpolation l then \<not> handle_interpolation l' else length (rest l') < length (rest l)"
proof (cases "handle_interpolation l")
  case True
  then show ?thesis
    using assms lex_string_handle lex_multiline_handle
    by (fastforce simp: shard_lex_def pop_interpolation_def Let_def split: bind_splits if_splits)
next
  case False
  then obtain n where n: "moved l l' n" "1 \<le> n" using consumes_shard_lex [of l] assms by (auto simp: consumes_def)
  have "rest l \<noteq> []"
    using assms False lex_repeat_empty [of l] by (auto simp: shard_lex_def KEYWORD_TOK_def)
  then show ?thesis using moved_rest [OF n(1)] n(2) False by (cases "rest l") auto
qed

lemma shard_lex_measure:
  assumes "shard_lex l = Some (e, t, l')" "e = 0" "tok_type t \<noteq> SHARD_TOK_EOF"
  shows "lex_measure l' < lex_measure l"
proof -
  obtain n where n: "moved l l' n" using consumes_shard_lex [of l] assms by (auto simp: consumes_def)
  then show ?thesis using shard_lex_consumes [OF assms] moved_rest [OF n]
    by (cases "handle_interpolation l") (auto simp: lex_measure_def)
qed

text \<open>C23. The progress of the lexer. When a call of \<open>shard_lex\<close> gives a token without an error, other than the end of the source, then
  the text that is left is strictly shorter, unless the call continued a string or path after an interpolation. A continuation may
  read nothing, but it takes back the flag that asked for it, so two calls in a row cannot both read nothing: the measure of
  two for each character and one for a pending continuation decreases. A token with an error may leave the text as it was. In
  every case the buffer is the same, what is left is a suffix of what was left before, and the position stays inside the buffer.\<close>

theorem shard_lex_progress:
  assumes "shard_lex l = Some (e, t, l')"
  shows "(e = 0 \<and> tok_type t \<noteq> SHARD_TOK_EOF \<longrightarrow>
      (if handle_interpolation l then \<not> handle_interpolation l' else length (rest l') < length (rest l)) \<and>
      lex_measure l' < lex_measure l) \<and> buffer l' = buffer l \<and>
    suffix (rest l') (rest l) \<and> (lx_offset l < length (buffer l) \<longrightarrow> lx_offset l' < length (buffer l'))"
proof -
  obtain n where n: "moved l l' n" using consumes_shard_lex [of l] assms by (auto simp: consumes_def)
  then have "buffer l' = buffer l \<and> suffix (rest l') (rest l) \<and>
      (lx_offset l < length (buffer l) \<longrightarrow> lx_offset l' < length (buffer l'))"
    using moved_bound [OF n] moved_rest [OF n] by (auto simp: moved_def suffix_drop)
  then show ?thesis using shard_lex_measure [OF assms] shard_lex_consumes [OF assms] by blast
qed

theorem shard_lex_progress_witness:
  "\<exists>e t l'. shard_lex (shard_lex_init 1 (''{ }'' @ [CHR 0x00]) []) = Some (e, t, l') \<and> tok_type t = SHARD_TOK_LBRACE \<and>
     length (rest l') < 3 \<and> lex_measure l' < 6"
proof -
  define l where "l = shard_lex_init 1 (''{ }'' @ [CHR 0x00]) []"
  have r: "rest l = ''{ }''" "\<not> handle_interpolation l" "brace_depth l = 0"
    by (simp_all add: l_def rest_def shard_lex_init_def)
  have "shard_lex l = KEYWORD_TOK SHARD_TOK_LBRACE ((skip_char l)\<lparr>brace_depth := 1\<rparr>)"
    by (simp add: shard_lex_def lex_repeat.simps [of l] skip_whitespace_adv r isspace_def char_code_def peek_rest
        lex_token_def)
  then have s: "shard_lex l = Some (0, \<lparr>tok_type = SHARD_TOK_LBRACE,
      tok_location = LOC_FROM_LEXER ((skip_char l)\<lparr>brace_depth := 1\<rparr>) (token_widths SHARD_TOK_LBRACE), tok_value = NoValue\<rparr>,
      (skip_char l)\<lparr>brace_depth := 1\<rparr>)"
    by (simp add: KEYWORD_TOK_def)
  have "lex_measure l = 6" "length (rest l) = 3" using r by (simp_all add: lex_measure_def)
  then show ?thesis using shard_lex_progress [OF s] s r(2) unfolding l_def by auto
qed

subsection \<open>Sources without interpolation\<close>

text \<open>Outside of every interpolation.\<close>

definition quiet :: "lexer \<Rightarrow> bool" where
  "quiet l \<longleftrightarrow> interpolation_stack l = [] \<and> \<not> handle_interpolation l"

lemma quiet_simps [simp]:
  "quiet (skip_char l) = quiet l" "quiet (adv n l) = quiet l" "quiet (brace_depth_update f l) = quiet l"
  "quiet (string_literals_update g l) = quiet l"
  by (simp_all add: quiet_def)

text \<open>A text the lexer gets through: no \<open>$\<close>, and no run of 4097 or more characters of an identifier.\<close>

definition plain_text :: "string \<Rightarrow> bool" where
  "plain_text cs \<longleftrightarrow> CHR ''$'' \<notin> set cs \<and> (\<forall>n. length (takeWhile is_ident_char (drop n cs)) < TMPBUF_LEN)"

lemma plain_drop: "plain_text cs \<Longrightarrow> plain_text (drop n cs)"
  by (auto simp: plain_text_def dest: in_set_dropD)

lemma plain_takeWhile:
  assumes "plain_text cs"
  shows "plain_text (takeWhile P cs)"
proof -
  have "length (takeWhile is_ident_char (drop n (takeWhile P cs))) \<le> length (takeWhile is_ident_char (drop n cs))" for n
  proof -
    have "prefix (drop n (takeWhile P cs)) (drop n cs)"
      by (metis takeWhile_eq_take take_is_prefix drop_take)
    then obtain zs where "drop n cs = drop n (takeWhile P cs) @ zs" by (auto simp: prefix_def)
    then show ?thesis using takeWhile_append [of is_ident_char "drop n (takeWhile P cs)" zs]
        length_takeWhile_le [of is_ident_char "drop n (takeWhile P cs)"] by (simp split: if_splits)
  qed
  then show ?thesis using assms unfolding plain_text_def by (meson le_less_trans set_takeWhileD)
qed

definition settles :: "lexed \<Rightarrow> bool" where
  "settles r \<longleftrightarrow> (\<exists>e t l'. r = Some (e, t, l') \<and> quiet l')"

lemma settles_toks:
  "quiet l \<Longrightarrow> settles (KEYWORD_TOK type l)" "quiet l \<Longrightarrow> settles (ERR_TOK err msg l)"
  "quiet l \<Longrightarrow> settles (STRING_TOK type str line start l)"
  by (simp_all add: settles_def KEYWORD_TOK_def ERR_TOK_def STRING_TOK_def)

lemma settles_if: "(b \<Longrightarrow> settles x) \<Longrightarrow> (\<not> b \<Longrightarrow> settles y) \<Longrightarrow> settles (if b then x else y)"
  by simp

lemma scan_string_plain: "CHR ''$'' \<notin> set cs \<Longrightarrow> snd (scan_string e cs b) \<noteq> Scan_dollar"
  by (induction cs arbitrary: b) auto

lemma settles_lex_string: "quiet l \<Longrightarrow> CHR ''$'' \<notin> set (rest l) \<Longrightarrow> settles (lex_string e p l)"
  using scan_string_plain [of "rest l" e False]
  by (auto simp: lex_string_def lex_string_loop_adv string_end_of_def Let_def intro!: settles_toks
      split: prod.splits scan_end.splits)

lemma scan_multiline_plain:
  "CHR ''$'' \<notin> set cs \<Longrightarrow> \<exists>w n q. scan_multiline cs a b = Some (w, n, q) \<and> q \<noteq> Scan_dollar"
proof (induction cs arbitrary: a b)
  case (Cons c cs)
  then have "\<exists>w n q. scan_multiline cs a b = Some (w, n, q) \<and> q \<noteq> Scan_dollar" for a b by simp
  from this [of False a] this [of "c = CHR 0x5C" a] show ?case using Cons.prems by auto
qed simp

lemma settles_lex_multiline_string:
  assumes "quiet l" "CHR ''$'' \<notin> set (rest l)"
  shows "settles (lex_multiline_string l)"
proof -
  obtain w n q where "scan_multiline (rest l) False False = Some (w, n, q)" "q \<noteq> Scan_dollar"
    using scan_multiline_plain [OF assms(2)] by blast
  then show ?thesis using assms(1)
    by (cases q) (simp_all add: lex_multiline_string_def lex_multiline_loop_adv settles_toks Let_def)
qed

lemma settles_lex_ident:
  assumes "quiet l" "plain_text (rest l)"
  shows "settles (lex_ident l)"
proof -
  have "length (takeWhile is_ident_char (rest l)) < TMPBUF_LEN" using assms(2) drop_0 unfolding plain_text_def by metis
  then show ?thesis using assms(1)
    by (simp add: lex_ident_def lex_ident_loop_adv settles_def KEYWORD_TOK_def Let_def)
qed

lemma lex_number_loop_quiet:
  "quiet l \<Longrightarrow> case lex_number_loop l i f d b of Inl l1 \<Rightarrow> quiet l1 | Inr (i', f', d', b', l1) \<Rightarrow> quiet l1"
proof (induction l i f d b rule: lex_number_loop.induct)
  case (1 l i f d b)
  then show ?case using 1(1-4) [OF refl] 1(5) by (auto simp: lex_number_loop.simps [of l] Let_def)
qed

lemma settles_lex_number: "quiet l \<Longrightarrow> settles (lex_number l)"
  using lex_number_loop_quiet [of l 0 0 1 False]
  by (auto simp: lex_number_def settles_def ERR_TOK_def Let_def split: sum.splits)

lemma settles_lex_token:
  assumes q: "quiet l" and t: "plain_text (rest l)"
  shows "settles (lex_token c l)"
proof -
  have d: "CHR ''$'' \<notin> set (rest l)" "CHR ''$'' \<notin> set (tl (rest l))" "CHR ''$'' \<notin> set (tl (tl (rest l)))"
    using t by (auto simp: plain_text_def dest: list.set_sel(2) [rotated])
      (metis list.sel(2) list.set_sel(2))+
  have str: "settles (lex_string e p l)" "settles (lex_string e p (skip_char l))"
    "settles (lex_multiline_string (skip_char (skip_char l)))" for e p
    using q d by (simp_all add: settles_lex_string settles_lex_multiline_string)
  have less: "settles (lex_string is_gt_sign False (skip_char l) \<bind>
      (\<lambda>(err, token, l2). Some (err, token\<lparr>tok_type := SHARD_TOK_PATH\<rparr>, l2)))"
    using str(2) [of is_gt_sign False] by (auto simp: settles_def)
  have two: "settles (lex_two seconds type l)" for seconds type
    using q by (simp add: lex_two_def Let_def settles_toks split: option.split)
  have rb: "settles (lex_rbrace l)"
    using q by (simp add: lex_rbrace_def Let_def closes_interpolation_def interpolation_top_def settles_toks quiet_def)
  show ?thesis
    unfolding lex_token_def lex_one_def lex_slash_def lex_ampersand_def lex_period_def lex_less_def lex_dollar_def
      lex_quote_def Let_def
    by (intro settles_if settles_toks str two rb less settles_lex_ident settles_lex_number q t) (simp_all add: q)
qed

lemma skip_block_comment_quiet: "quiet l \<Longrightarrow> quiet (case skip_block_comment l of Inl l1 \<Rightarrow> l1 | Inr l1 \<Rightarrow> l1)"
proof (induction l rule: skip_block_comment.induct)
  case (1 l)
  then show ?case using 1(1,2) [OF refl refl] 1(3) by (auto simp: skip_block_comment.simps [of l] Let_def)
qed

lemma settles_lex_repeat: "quiet l \<Longrightarrow> plain_text (rest l) \<Longrightarrow> settles (lex_repeat l)"
proof (induction l rule: lex_repeat.induct)
  case (1 l0)
  define l where "l = skip_whitespace l0"
  have l: "quiet l" "plain_text (rest l)" using 1(3,4) by (simp_all add: l_def skip_whitespace_adv plain_drop)
  have line: "quiet (skip_line_comment l)" "plain_text (rest (skip_line_comment l))"
    using l unfolding skip_line_comment_adv by (simp_all add: plain_drop del: adv.simps)
  note unf = lex_repeat.simps [of l0] l_def [symmetric] Let_def
  show ?case
  proof (cases "skip_block_comment l")
    case (Inl l1)
    then show ?thesis using "1.IH"(1) [OF l_def refl _ line] settles_lex_token [OF l] skip_block_comment_quiet [OF l(1)]
      by (auto simp: unf intro: settles_toks)
  next
    case (Inr l1)
    obtain n where "moved l l1 n" using skip_block_comment_moved [of l] Inr by auto
    then have "plain_text (rest l1)" using l(2) by (simp add: moved_rest plain_drop)
    then show ?thesis
      using Inr "1.IH"(1) [OF l_def refl _ line] "1.IH"(2) [OF l_def refl _ _ Inr] settles_lex_token [OF l]
        skip_block_comment_quiet [OF l(1)]
      by (auto simp: unf)
  qed
qed

lemma shard_lex_plain:
  assumes "quiet l" "plain_text (rest l)"
  obtains e t l' where "shard_lex l = Some (e, t, l')" "quiet l'" "plain_text (rest l')"
proof -
  obtain e t l' where r: "shard_lex l = Some (e, t, l')" "quiet l'"
    using settles_lex_repeat [OF assms] assms(1) by (auto simp: settles_def shard_lex_def quiet_def)
  then obtain n where "moved l l' n" using consumes_shard_lex [of l] by (auto simp: consumes_def)
  then have "plain_text (rest l')" using assms(2) by (simp add: moved_rest plain_drop)
  with r show ?thesis by (rule that)
qed

end
