(* ===== verification/ShardAst.thy ===== *)
theory ShardAst
  imports ShardTok
begin

text \<open>
  The syntax tree of the shard language, \<open>struct shard_expr\<close> and \<open>struct shard_pattern\<close> of
  \<^verbatim>\<open>shard/libshard/include/libshard.h\<close>. The union of the code becomes a datatype; expressions whose type tag
  selects the member \<open>binop\<close> share the constructor \<open>EBinop\<close>, and so do the unary ones. Source locations, which only
  reach error messages, are left out. \<open>EUninit\<close> is memory the parser has not filled in.
\<close>

datatype shard_binop =
    SHARD_EXPR_ADD | SHARD_EXPR_SUB | SHARD_EXPR_MUL | SHARD_EXPR_DIV | SHARD_EXPR_EQ | SHARD_EXPR_NE
  | SHARD_EXPR_GT | SHARD_EXPR_GE | SHARD_EXPR_LT | SHARD_EXPR_LE | SHARD_EXPR_MERGE | SHARD_EXPR_CONCAT
  | SHARD_EXPR_LOGOR | SHARD_EXPR_LOGAND | SHARD_EXPR_LOGIMPL | SHARD_EXPR_LCOMPOSE | SHARD_EXPR_RCOMPOSE
  | SHARD_EXPR_CALL | SHARD_EXPR_WITH | SHARD_EXPR_ASSERT

datatype shard_unop = SHARD_EXPR_NOT | SHARD_EXPR_NEGATE

text \<open>The bits of \<open>enum shard_value_type\<close>.\<close>

abbreviation (input) SHARD_VAL_NULL :: u32 where "SHARD_VAL_NULL \<equiv> 1"
abbreviation (input) SHARD_VAL_BOOL :: u32 where "SHARD_VAL_BOOL \<equiv> 2"
abbreviation (input) SHARD_VAL_INT :: u32 where "SHARD_VAL_INT \<equiv> 4"
abbreviation (input) SHARD_VAL_FLOAT :: u32 where "SHARD_VAL_FLOAT \<equiv> 8"
abbreviation (input) SHARD_VAL_STRING :: u32 where "SHARD_VAL_STRING \<equiv> 16"
abbreviation (input) SHARD_VAL_PATH :: u32 where "SHARD_VAL_PATH \<equiv> 32"
abbreviation (input) SHARD_VAL_LIST :: u32 where "SHARD_VAL_LIST \<equiv> 64"
abbreviation (input) SHARD_VAL_SET :: u32 where "SHARD_VAL_SET \<equiv> 128"
abbreviation (input) SHARD_VAL_FUNCTION :: u32 where "SHARD_VAL_FUNCTION \<equiv> 256"
abbreviation (input) SHARD_VAL_BUILTIN :: u32 where "SHARD_VAL_BUILTIN \<equiv> 512"
abbreviation (input) SHARD_VAL_ANY :: u32 where "SHARD_VAL_ANY \<equiv> 1023"

datatype shard_pattern_type = SHARD_PAT_IDENT | SHARD_PAT_SET | SHARD_PAT_CONSTANT

datatype shard_expr =
    EIdent string
  | EInt i64
  | EFloat i64 i64 i64
  | EString string
  | EPath string
  | EInterpolated_string "string list" "shard_expr list"
  | EInterpolated_path "string list" "shard_expr list"
  | EUnop shard_unop shard_expr
  | ETernary shard_expr shard_expr shard_expr
  | ECase_of shard_expr "shard_expr list" "shard_pattern list"
  | EBinop shard_binop shard_expr shard_expr
  | EAttr_test shard_expr "string list"
  | EAttr_sel shard_expr "string list" "shard_expr option"
  | EList "shard_expr list"
  | ESet bool "(string \<times> shard_expr) list"
  | EFunction shard_pattern shard_expr
  | ELet "(string \<times> shard_expr) list" shard_expr
  | EBuiltin nat
  | EUninit
and shard_pattern =
    Pattern (pat_type: shard_pattern_type) (pat_ellipsis: bool) (pat_type_constraint: u32)
      (pat_attrs: "(string \<times> shard_expr option) list") (pat_ident: "string option")
      (pat_constant: "shard_expr option") (pat_condition: "shard_expr option")

end
