(* ===== verification/ShardParse.thy ===== *)
theory ShardParse
  imports ShardLex ShardAst
begin

text \<open>
  The recursive-descent parser of the shard language, \<^verbatim>\<open>shard/libshard/parse.c\<close>.

  The state is the lexer, the current token and the list of recorded errors. A parsing function returns its error code,
  the tree it fills in and the new state. The mutual recursion is open: a function that calls \<open>parse_expr\<close> or
  \<open>parse_prefix_expr\<close> takes it as an argument (\<open>pe\<close>, \<open>pp\<close>); the knot is tied at the end over a fuel that bounds
  the depth of the recursion and the turns of each loop. \<open>None\<close> is a run without a result: the lexer has none, the code
  uses a pointer that is not valid, or the fuel is spent. The elements of an array initialiser are evaluated from left
  to right, as the compilers do.
\<close>

subsection \<open>State\<close>

datatype parse_message =
    Lexer_error string
  | Unexpected_token shard_token_type shard_token_type
  | Invalid_escape char
  | Unknown_typename string
  | At_already_applied
  | Expect_expression shard_token_type
  | Expect_infix shard_token_type
  | End_of_file
  | Already_defined string
  | Not_a_set string

record parser =
  p_lexer :: lexer
  p_token :: shard_token
  p_errors :: "(parse_message \<times> errno) list"

abbreviation token_type :: "parser \<Rightarrow> shard_token_type" where
  "token_type p \<equiv> tok_type (p_token p)"

text \<open>\<open>token.value.string\<close>, which is a string for some tokens only.\<close>

definition token_string :: "parser \<Rightarrow> string option" where
  "token_string p = (case tok_value (p_token p) of Str s \<Rightarrow> Some s | _ \<Rightarrow> None)"

type_synonym presult = "(errno \<times> parser) option"
type_synonym 'a parsed = "(errno \<times> 'a \<times> parser) option"

definition error :: "parse_message \<Rightarrow> errno \<Rightarrow> parser \<Rightarrow> parser" where
  "error msg e p = p\<lparr>p_errors := p_errors p @ [(msg, e)]\<rparr>"

definition errorf :: "parse_message \<Rightarrow> parser \<Rightarrow> errno \<times> parser" where
  "errorf msg p = (EINVAL, error msg EINVAL p)"

definition advance :: "parser \<Rightarrow> presult" where
  "advance p = do {
     (err, token, l) \<leftarrow> shard_lex (p_lexer p);
     let p1 = p\<lparr>p_lexer := l, p_token := token\<rparr>;
     Some (err, if err \<noteq> 0 then error (Lexer_error (case tok_value token of Str s \<Rightarrow> s | _ \<Rightarrow> [])) err p1 else p1)
   }"

fun any_err :: "errno list \<Rightarrow> errno" where
  "any_err [] = 0"
| "any_err (e # es) = (if e \<noteq> 0 then e else any_err es)"

definition unexpected_token_error :: "shard_token_type \<Rightarrow> shard_token_type \<Rightarrow> parser \<Rightarrow> errno \<times> parser" where
  "unexpected_token_error got expect p =
     (if got = SHARD_TOK_ERR then (EINVAL, p) else errorf (Unexpected_token got expect) p)"

definition consume :: "shard_token_type \<Rightarrow> parser \<Rightarrow> presult" where
  "consume type p =
     (if token_type p = type then advance p
      else do {
        (err, p1) \<leftarrow> advance p;
        Some (unexpected_token_error (token_type p) type p1)
      })"

subsection \<open>String literals\<close>

definition parse_escape_code :: "char \<Rightarrow> char option" where
  "parse_escape_code c = map_of
     [(CHR ''e'', CHR 0x1B), (CHR ''n'', CHR 0x0A), (CHR ''r'', CHR 0x0D), (CHR 0x5C, CHR 0x5C), (CHR ''b'', CHR 0x08),
      (CHR ''t'', CHR 0x09), (CHR 0x27, CHR 0x27), (CHR 0x22, CHR 0x22), (CHR ''f'', CHR 0x0C), (CHR '' '', CHR '' ''),
      (CHR 0x09, CHR 0x09), (CHR 0x0B, CHR 0x0B), (CHR 0x0A, CHR 0x0A), (CHR 0x0D, CHR 0x0D), (CHR ''$'', CHR ''$'')] c"

text \<open>The loop of \<open>escaped_string\<close>. A backslash that ends the string makes the code read behind its terminator.\<close>

fun escape_loop :: "string \<Rightarrow> errno \<Rightarrow> string \<Rightarrow> parser \<Rightarrow> string parsed" where
  "escape_loop [] err str p = Some (err, str, p)"
| "escape_loop (c # cs) err str p =
     (if c = CHR 0x5C then
        (case cs of
           [] \<Rightarrow> None
         | d # ds \<Rightarrow> (case parse_escape_code d of
             Some c' \<Rightarrow> escape_loop ds 0 (str @ [c']) p
           | None \<Rightarrow> let (err', p') = errorf (Invalid_escape d) p in escape_loop ds err' (str @ [CHR 0x5C, d]) p'))
      else escape_loop cs err (str @ [c]) p)"

definition escaped_string :: "shard_token_type \<Rightarrow> parser \<Rightarrow> string parsed" where
  "escaped_string type p =
     (if token_type p \<noteq> type then
        let (err, p1) = unexpected_token_error (token_type p) type p in Some (err, [], p1)
      else do { s \<leftarrow> token_string p; escape_loop s 0 [] p })"

type_synonym expr_parser = "parser \<Rightarrow> shard_expr parsed"
type_synonym prec_parser = "nat \<Rightarrow> expr_parser"

abbreviation (input) PREC_LOWEST :: nat where "PREC_LOWEST \<equiv> 0"
abbreviation (input) PREC_LOGIMPL :: nat where "PREC_LOGIMPL \<equiv> 1"
abbreviation (input) PREC_LOGOR :: nat where "PREC_LOGOR \<equiv> 2"
abbreviation (input) PREC_LOGAND :: nat where "PREC_LOGAND \<equiv> 3"
abbreviation (input) PREC_EQUALITY :: nat where "PREC_EQUALITY \<equiv> 4"
abbreviation (input) PREC_COMPARISON :: nat where "PREC_COMPARISON \<equiv> 5"
abbreviation (input) PREC_MERGE :: nat where "PREC_MERGE \<equiv> 6"
abbreviation (input) PREC_NOT :: nat where "PREC_NOT \<equiv> 7"
abbreviation (input) PREC_ADDITION :: nat where "PREC_ADDITION \<equiv> 8"
abbreviation (input) PREC_MULTIPLICATION :: nat where "PREC_MULTIPLICATION \<equiv> 9"
abbreviation (input) PREC_CONCATENATION :: nat where "PREC_CONCATENATION \<equiv> 10"
abbreviation (input) PREC_ATTRIBUTE_TEST :: nat where "PREC_ATTRIBUTE_TEST \<equiv> 11"
abbreviation (input) PREC_COMPOSITION :: nat where "PREC_COMPOSITION \<equiv> 12"
abbreviation (input) PREC_NEGATION :: nat where "PREC_NEGATION \<equiv> 13"
abbreviation (input) PREC_CALL :: nat where "PREC_CALL \<equiv> 14"
abbreviation (input) PREC_LIST_LITERAL :: nat where "PREC_LIST_LITERAL \<equiv> 15"
abbreviation (input) PREC_ATTRIBUTE_SELECTION :: nat where "PREC_ATTRIBUTE_SELECTION \<equiv> 16"

text \<open>The loop of \<open>parse_string_lit\<close> over the interpolated expressions.\<close>

primrec interpolation_loop ::
  "nat \<Rightarrow> prec_parser \<Rightarrow> shard_token_type \<Rightarrow> string list \<Rightarrow> shard_expr list \<Rightarrow> parser \<Rightarrow> (string list \<times> shard_expr list) parsed"
where
  "interpolation_loop 0 pe type strings exprs p = None"
| "interpolation_loop (Suc n) pe type strings exprs p =
     (if token_type p = SHARD_TOK_INTERPOLATION then do {
        (e1, p1) \<leftarrow> advance p;
        (e2, part_expr, p2) \<leftarrow> pe PREC_LOWEST p1;
        (e3, p3) \<leftarrow> consume SHARD_TOK_RBRACE p2;
        (e4, str, p4) \<leftarrow> escaped_string type p3;
        (e5, p5) \<leftarrow> advance p4;
        let err = any_err [e1, e2, e3, e4, e5];
        if err \<noteq> 0 then Some (err, (strings, exprs), p5)
        else interpolation_loop n pe type (strings @ [str]) (exprs @ [part_expr]) p5
      }
      else Some (0, (strings, exprs), p))"

definition parse_string_lit :: "nat \<Rightarrow> prec_parser \<Rightarrow> bool \<Rightarrow> expr_parser" where
  "parse_string_lit n pe is_path p = do {
     let type = (if is_path then SHARD_TOK_PATH else SHARD_TOK_STRING);
     (e1, str, p1) \<leftarrow> escaped_string type p;
     (e2, p2) \<leftarrow> advance p1;
     let err = any_err [e1, e2];
     if err \<noteq> 0 then Some (err, EUninit, p2)
     else if token_type p2 \<noteq> SHARD_TOK_INTERPOLATION
     then Some (0, if is_path then EPath str else EString str, p2)
     else do {
       (err2, (strings, exprs), p3) \<leftarrow> interpolation_loop n pe type [str] [] p2;
       Some (err2, if is_path then EInterpolated_path strings exprs else EInterpolated_string strings exprs, p3)
     }
   }"

subsection \<open>Expressions with fixed syntax\<close>

text \<open>\<open>parse_with\<close> and \<open>parse_assert\<close> differ in the tag only.\<close>

definition parse_stmt :: "shard_binop \<Rightarrow> prec_parser \<Rightarrow> expr_parser" where
  "parse_stmt type pe p = do {
     (e1, p1) \<leftarrow> advance p;
     (e2, lhs, p2) \<leftarrow> pe PREC_LOWEST p1;
     (e3, p3) \<leftarrow> consume SHARD_TOK_SEMICOLON p2;
     (e4, rhs, p4) \<leftarrow> pe PREC_LOWEST p3;
     Some (any_err [e1, e2, e3, e4], EBinop type lhs rhs, p4)
   }"

definition parse_with :: "prec_parser \<Rightarrow> expr_parser" where
  "parse_with pe = parse_stmt SHARD_EXPR_WITH pe"

definition parse_assert :: "prec_parser \<Rightarrow> expr_parser" where
  "parse_assert pe = parse_stmt SHARD_EXPR_ASSERT pe"

definition parse_unary_op :: "shard_unop \<Rightarrow> nat \<Rightarrow> prec_parser \<Rightarrow> expr_parser" where
  "parse_unary_op type prec pe p = do {
     (e1, p1) \<leftarrow> advance p;
     (e2, e, p2) \<leftarrow> pe prec p1;
     Some (any_err [e1, e2], EUnop type e, p2)
   }"

definition parse_compound :: "prec_parser \<Rightarrow> expr_parser" where
  "parse_compound pe p = do {
     (e1, p1) \<leftarrow> advance p;
     (e2, e, p2) \<leftarrow> pe PREC_LOWEST p1;
     (e3, p3) \<leftarrow> consume SHARD_TOK_RPAREN p2;
     Some (any_err [e1, e2, e3], e, p3)
   }"

definition parse_function :: "shard_pattern \<Rightarrow> prec_parser \<Rightarrow> expr_parser" where
  "parse_function arg pe p = do {
     (err, body, p1) \<leftarrow> pe PREC_LOWEST p;
     Some (err, EFunction arg body, p1)
   }"

definition parse_ternary :: "prec_parser \<Rightarrow> expr_parser" where
  "parse_ternary pe p = do {
     (e1, p1) \<leftarrow> advance p;
     (e2, cond, p2) \<leftarrow> pe PREC_LOWEST p1;
     (e3, p3) \<leftarrow> consume SHARD_TOK_THEN p2;
     (e4, if_branch, p4) \<leftarrow> pe PREC_LOWEST p3;
     (e5, p5) \<leftarrow> consume SHARD_TOK_ELSE p4;
     (e6, else_branch, p6) \<leftarrow> pe PREC_LOWEST p5;
     Some (any_err [e1, e2, e3, e4, e5, e6], ETernary cond if_branch else_branch, p6)
   }"

subsection \<open>Types and patterns\<close>

definition typenames :: "(string \<times> u32) list" where
  "typenames = [(''any'', SHARD_VAL_ANY), (''bool'', SHARD_VAL_BOOL), (''float'', SHARD_VAL_FLOAT),
     (''function'', SHARD_VAL_FUNCTION OR SHARD_VAL_BUILTIN), (''int'', SHARD_VAL_INT), (''list'', SHARD_VAL_LIST),
     (''null'', SHARD_VAL_NULL), (''path'', SHARD_VAL_PATH), (''set'', SHARD_VAL_SET), (''string'', SHARD_VAL_STRING)]"

primrec parse_type :: "nat \<Rightarrow> u32 \<Rightarrow> parser \<Rightarrow> u32 parsed" where
  "parse_type 0 type p = None"
| "parse_type (Suc n) type p = do {
     (err, p1) \<leftarrow> consume SHARD_TOK_IDENT p;
     if err \<noteq> 0 then Some (err, type, p1)
     else do {
       ident \<leftarrow> token_string p;
       let (type1, p2) = (case map_of typenames ident of
             Some bits \<Rightarrow> (type OR bits, p1)
           | None \<Rightarrow> (type, snd (errorf (Unknown_typename ident) p1)));
       (err3, type3, p3) \<leftarrow> (if token_type p2 = SHARD_TOK_QUESTIONMARK then do {
             (e, p3) \<leftarrow> advance p2; Some (e, type1 OR SHARD_VAL_NULL, p3) }
           else Some (0, type1, p2));
       if err3 \<noteq> 0 then Some (err3, type3, p3)
       else if token_type p3 = SHARD_TOK_PIPE then do {
         (e, p4) \<leftarrow> advance p3;
         if e \<noteq> 0 then Some (e, type3, p4) else parse_type n type3 p4
       }
       else Some (0, type3, p3)
     }
   }"

text \<open>The default value of an attribute in \<open>parse_set_pattern\<close>.\<close>

definition attr_default :: "prec_parser \<Rightarrow> errno \<Rightarrow> parser \<Rightarrow> (shard_expr option) parsed" where
  "attr_default pe err p =
     (if token_type p = SHARD_TOK_QUESTIONMARK then do {
        (e, p1) \<leftarrow> advance p;
        (e2, v, p2) \<leftarrow> pe PREC_LOWEST p1;
        Some (if e2 \<noteq> 0 then e2 else if e \<noteq> 0 then EINVAL else err, Some v, p2)
      }
      else Some (err, None, p))"

text \<open>The loop of \<open>parse_set_pattern\<close>. The result holds the attributes and whether an ellipsis was met.\<close>

primrec set_pattern_loop ::
  "nat \<Rightarrow> prec_parser \<Rightarrow> string option \<Rightarrow> errno \<Rightarrow> (string \<times> shard_expr option) list \<Rightarrow> parser \<Rightarrow>
   ((string \<times> shard_expr option) list \<times> bool) parsed"
where
  "set_pattern_loop 0 pe first_attr err attrs p = None"
| "set_pattern_loop (Suc n) pe first_attr err attrs p =
     (if token_type p = SHARD_TOK_RBRACE then Some (err, (attrs, False), p)
      else if token_type p = SHARD_TOK_ELLIPSE then do {
        (e, p1) \<leftarrow> advance p;
        Some (if e \<noteq> 0 then EINVAL else err, (attrs, True), p1)
      }
      else do {
        (e1, ident, p1) \<leftarrow> (case first_attr of
            Some a \<Rightarrow> Some (0, Some a, p)
          | None \<Rightarrow> do { (e, p1) \<leftarrow> consume SHARD_TOK_IDENT p; Some (e, token_string p, p1) });
        if e1 \<noteq> 0 then Some (EINVAL, (attrs, False), p1)
        else do {
          name \<leftarrow> ident;
          (err2, dflt, p2) \<leftarrow> attr_default pe err p1;
          let attrs2 = attrs @ [(name, dflt)];
          if token_type p2 \<noteq> SHARD_TOK_RBRACE then do {
            (e3, p3) \<leftarrow> consume SHARD_TOK_COMMA p2;
            if e3 \<noteq> 0 then Some (e3, (attrs2, False), p3)
            else set_pattern_loop n pe None err2 attrs2 p3
          }
          else set_pattern_loop n pe None err2 attrs2 p2
        }
      })"

definition parse_set_pattern ::
  "nat \<Rightarrow> prec_parser \<Rightarrow> string option \<Rightarrow> bool \<Rightarrow> string option \<Rightarrow> parser \<Rightarrow> shard_pattern parsed" where
  "parse_set_pattern n pe prefix_id skip_lbrace first_attr p = do {
     (err, p1) \<leftarrow> (if skip_lbrace then Some (0, p) else advance p);
     (err2, (attrs, ellipsis), p2) \<leftarrow> set_pattern_loop n pe first_attr err [] p1;
     (e, p3) \<leftarrow> consume SHARD_TOK_RBRACE p2;
     let err3 = (if e \<noteq> 0 then EINVAL else err2);
     let pat = (\<lambda>ident. Pattern SHARD_PAT_SET ellipsis (SHARD_VAL_SET OR SHARD_VAL_NULL) attrs ident None None);
     if token_type p3 = SHARD_TOK_AT then do {
       let (err4, p4) = (if prefix_id \<noteq> None then errorf At_already_applied p3 else (err3, p3));
       (e5, p5) \<leftarrow> advance p4;
       let err5 = (if e5 \<noteq> 0 then EINVAL else err4);
       (e6, p6) \<leftarrow> consume SHARD_TOK_IDENT p5;
       if e6 \<noteq> 0 then Some (EINVAL, pat prefix_id, p6)
       else Some (err5, pat (token_string p5), p6)
     }
     else Some (err3, pat prefix_id, p3)
   }"

fun set_condition :: "shard_pattern \<Rightarrow> shard_expr \<Rightarrow> shard_pattern" where
  "set_condition (Pattern ty el tc attrs ident const cond) c = Pattern ty el tc attrs ident const (Some c)"

definition parse_postfix_pattern :: "nat \<Rightarrow> prec_parser \<Rightarrow> string \<Rightarrow> parser \<Rightarrow> shard_pattern parsed" where
  "parse_postfix_pattern n pe ident p = do {
     let pat = (\<lambda>tc. Pattern SHARD_PAT_IDENT False tc [] (Some ident) None None);
     (err, pattern, p1) \<leftarrow>
       (if token_type p = SHARD_TOK_DOUBLE_COLON then do {
          (e1, p1) \<leftarrow> advance p;
          (e2, tc, p2) \<leftarrow> parse_type n 0 p1;
          Some (any_err [e1, e2], pat tc, p2) }
        else if token_type p = SHARD_TOK_AT then parse_set_pattern n pe (Some ident) False None p
        else Some (0, pat SHARD_VAL_ANY, p));
     if err \<noteq> 0 then Some (err, pattern, p1)
     else if token_type p1 = SHARD_TOK_IF then do {
       (e1, p2) \<leftarrow> advance p1;
       (e2, cond, p3) \<leftarrow> pe PREC_LOWEST p2;
       Some (any_err [e1, e2], set_condition pattern cond, p3)
     }
     else Some (0, pattern, p1)
   }"

text \<open>\<open>parse_const_pattern\<close> is called at one of five token types; at another one its assertion fails.\<close>

definition const_pattern_type :: "shard_token_type \<Rightarrow> u32 option" where
  "const_pattern_type type = map_of
     [(SHARD_TOK_INT, SHARD_VAL_INT), (SHARD_TOK_FLOAT, SHARD_VAL_FLOAT), (SHARD_TOK_STRING, SHARD_VAL_STRING),
      (SHARD_TOK_PATH, SHARD_VAL_PATH), (SHARD_TOK_LBRACKET, SHARD_VAL_LIST)] type"

definition parse_const_pattern :: "expr_parser \<Rightarrow> parser \<Rightarrow> shard_pattern parsed" where
  "parse_const_pattern pp p = do {
     tc \<leftarrow> const_pattern_type (token_type p);
     (err, e, p1) \<leftarrow> pp p;
     Some (err, Pattern SHARD_PAT_CONSTANT False tc [] None (Some e) None, p1)
   }"

definition parse_pattern :: "nat \<Rightarrow> prec_parser \<Rightarrow> expr_parser \<Rightarrow> parser \<Rightarrow> shard_pattern parsed" where
  "parse_pattern n pe pp p =
     (if token_type p = SHARD_TOK_IDENT then do {
        ident \<leftarrow> token_string p;
        (e1, p1) \<leftarrow> advance p;
        (e2, pattern, p2) \<leftarrow> parse_postfix_pattern n pe ident p1;
        Some (any_err [e1, e2], pattern, p2)
      }
      else if token_type p = SHARD_TOK_LBRACE then parse_set_pattern n pe None False None p
      else if const_pattern_type (token_type p) \<noteq> None then parse_const_pattern pp p
      else let (err, p1) = errorf (Expect_expression (token_type p)) p
           in Some (err, Pattern SHARD_PAT_IDENT False 0 [] None None None, p1))"

subsection \<open>Identifiers, lists and sets\<close>

definition parse_ident :: "nat \<Rightarrow> prec_parser \<Rightarrow> expr_parser" where
  "parse_ident n pe p = do {
     ident \<leftarrow> token_string p;
     (err, p1) \<leftarrow> advance p;
     if err \<noteq> 0 then Some (err, EUninit, p1)
     else if token_type p1 \<in> {SHARD_TOK_DOUBLE_COLON, SHARD_TOK_COLON, SHARD_TOK_AT} then do {
       (e1, arg, p2) \<leftarrow> parse_postfix_pattern n pe ident p1;
       (e2, p3) \<leftarrow> consume SHARD_TOK_COLON p2;
       (e3, f, p4) \<leftarrow> parse_function arg pe p3;
       Some (any_err [e1, e2, e3], f, p4)
     }
     else Some (0, EIdent ident, p1)
   }"

primrec list_loop :: "nat \<Rightarrow> prec_parser \<Rightarrow> errno \<Rightarrow> shard_expr list \<Rightarrow> parser \<Rightarrow> (shard_expr list) parsed" where
  "list_loop 0 pe err elems p = None"
| "list_loop (Suc n) pe err elems p =
     (if token_type p \<noteq> SHARD_TOK_RBRACKET then
        if token_type p = SHARD_TOK_EOF then
          let (e, p1) = errorf End_of_file p in Some (e, elems, p1)
        else do {
          (err2, elem, p1) \<leftarrow> pe PREC_LIST_LITERAL p;
          list_loop n pe (if err2 \<noteq> 0 then err2 else err) (elems @ [elem]) p1
        }
      else do {
        (err3, p1) \<leftarrow> advance p;
        Some (if err \<noteq> 0 then err else err3, elems, p1)
      })"

definition parse_list :: "nat \<Rightarrow> prec_parser \<Rightarrow> expr_parser" where
  "parse_list n pe p = do {
     (err, p1) \<leftarrow> advance p;
     (err2, elems, p2) \<leftarrow> list_loop n pe err [] p1;
     Some (err2, EList elems, p2)
   }"

text \<open>The attributes of a set, as the hash map of the tree holds them: \<open>shard_hashmap_put\<close> keeps an entry that exists. The hash map has no
  order; the list has the attributes in the order in which they were put, which says more than the code keeps. No put fails: the maps are
  created for 8 attributes, and one of that size grows before it is full.\<close>

type_synonym attrs = "(string \<times> shard_expr) list"

definition attrs_put :: "string \<Rightarrow> shard_expr \<Rightarrow> attrs \<Rightarrow> attrs" where
  "attrs_put key e attrs = (if map_of attrs key = None then attrs @ [(key, e)] else attrs)"

text \<open>The attributes of the set below a path of keys, and the insertion there.\<close>

fun attrs_at :: "string list \<Rightarrow> attrs \<Rightarrow> attrs option" where
  "attrs_at [] attrs = Some attrs"
| "attrs_at (k # ks) attrs = (case map_of attrs k of Some (ESet r as) \<Rightarrow> attrs_at ks as | _ \<Rightarrow> None)"

fun put_at :: "string list \<Rightarrow> string \<Rightarrow> shard_expr \<Rightarrow> attrs \<Rightarrow> attrs" where
  "put_at [] key e attrs = attrs_put key e attrs"
| "put_at (k # ks) key e attrs =
     map (\<lambda>(k', e'). (k', if k' = k then (case e' of ESet r as \<Rightarrow> ESet r (put_at ks key e as) | _ \<Rightarrow> e') else e')) attrs"

text \<open>The loop of \<open>parse_set_inherit\<close>.\<close>

primrec inherit_loop :: "nat \<Rightarrow> shard_expr option \<Rightarrow> errno \<Rightarrow> attrs \<Rightarrow> parser \<Rightarrow> attrs parsed" where
  "inherit_loop 0 base err attrs p = None"
| "inherit_loop (Suc n) base err attrs p =
     (if token_type p = SHARD_TOK_IDENT then do {
        key \<leftarrow> token_string p;
        let (err1, p1) = (if map_of attrs key \<noteq> None then errorf (Already_defined key) p else (err, p));
        let e = (case base of Some b \<Rightarrow> EAttr_sel b [key] None | None \<Rightarrow> EIdent key);
        (e2, p2) \<leftarrow> advance p1;
        inherit_loop n base (if e2 \<noteq> 0 then EINVAL else err1) (attrs_put key e attrs) p2
      }
      else Some (err, attrs, p))"

definition parse_set_inherit :: "nat \<Rightarrow> prec_parser \<Rightarrow> attrs \<Rightarrow> parser \<Rightarrow> attrs parsed" where
  "parse_set_inherit n pe attrs p = do {
     (err, p1) \<leftarrow> advance p;
     (err1, base, p2) \<leftarrow> (if token_type p1 = SHARD_TOK_LPAREN then do {
         (e1, p2) \<leftarrow> advance p1;
         (e2, b, p3) \<leftarrow> pe PREC_LOWEST p2;
         (e3, p4) \<leftarrow> consume SHARD_TOK_RPAREN p3;
         let err3 = any_err [e1, e2, e3];
         Some (if err3 \<noteq> 0 then err3 else err, Some b, p4) }
       else Some (err, None, p1));
     inherit_loop n base err1 attrs p2
   }"

text \<open>
  The loop of \<open>parse_set\<close> over the periods of an attribute name \<open>a.b.c\<close>; \<open>path\<close> leads to the set the code points to.
  The result is the path, the last key and the attributes. An attribute that is not a set is an error after which the
  code reads it as one.
\<close>

primrec attr_name_loop ::
  "nat \<Rightarrow> bool \<Rightarrow> errno \<Rightarrow> string list \<Rightarrow> string option \<Rightarrow> attrs \<Rightarrow> parser \<Rightarrow>
   (string list \<times> string option \<times> attrs) parsed" where
  "attr_name_loop 0 recursive err path key attrs p = None"
| "attr_name_loop (Suc n) recursive err path key attrs p =
     (if token_type p = SHARD_TOK_PERIOD then do {
        (err1, p1) \<leftarrow> advance p;
        if err1 \<noteq> 0 then Some (err1, (path, key, attrs), p1)
        else do {
          k \<leftarrow> key;
          cur \<leftarrow> attrs_at path attrs;
          attrs1 \<leftarrow> (case map_of cur k of
              Some (ESet r as) \<Rightarrow> Some attrs
            | Some _ \<Rightarrow> None
            | None \<Rightarrow> Some (put_at path k (ESet recursive []) attrs));
          (err2, p2) \<leftarrow> (if token_type p1 = SHARD_TOK_STRING then do { (e, p2) \<leftarrow> advance p1; Some (0, p2) }
            else consume SHARD_TOK_IDENT p1);
          if err2 \<noteq> 0 then Some (err2, (path @ [k], token_string p1, attrs1), p2)
          else attr_name_loop n recursive 0 (path @ [k]) (token_string p1) attrs1 p2
        }
      }
      else Some (err, (path, key, attrs), p))"

text \<open>\<open>parse_set\<close> when the braces turn out to open the pattern of a function.\<close>

definition set_function :: "nat \<Rightarrow> prec_parser \<Rightarrow> errno \<Rightarrow> string option \<Rightarrow> expr_parser" where
  "set_function n pe err first_attr p = do {
     (e1, arg, p1) \<leftarrow> parse_set_pattern n pe None True first_attr p;
     (e2, p2) \<leftarrow> consume SHARD_TOK_COLON p1;
     (e3, f, p3) \<leftarrow> parse_function arg pe p2;
     Some (any_err [err, e1, e2, e3], f, p3)
   }"

text \<open>What follows the name of an attribute: \<open>= value ;\<close>, evaluated until the first error.\<close>

definition set_binding :: "prec_parser \<Rightarrow> parser \<Rightarrow> (shard_expr option) parsed" where
  "set_binding pe p = do {
     (e1, p1) \<leftarrow> consume SHARD_TOK_ASSIGN p;
     if e1 \<noteq> 0 then Some (EINVAL, None, p1)
     else do {
       (e2, e, p2) \<leftarrow> pe PREC_LOWEST p1;
       if e2 \<noteq> 0 then Some (EINVAL, None, p2)
       else do {
         (e3, p3) \<leftarrow> consume SHARD_TOK_SEMICOLON p2;
         if e3 \<noteq> 0 then Some (EINVAL, None, p3) else Some (0, Some e, p3)
       }
     }
   }"

primrec set_loop :: "nat \<Rightarrow> prec_parser \<Rightarrow> bool \<Rightarrow> bool \<Rightarrow> errno \<Rightarrow> attrs \<Rightarrow> expr_parser" where
  "set_loop 0 pe recursive first_iter err attrs p = None"
| "set_loop (Suc n) pe recursive first_iter err attrs p =
     (if token_type p = SHARD_TOK_RBRACE then do {
        (err3, p1) \<leftarrow> advance p;
        Some (if err \<noteq> 0 then err else err3, ESet recursive attrs, p1)
      }
      else if token_type p = SHARD_TOK_EOF then
        let (e, p1) = errorf End_of_file p in Some (e, ESet recursive attrs, p1)
      else if token_type p = SHARD_TOK_INHERIT then do {
        (e1, attrs1, p1) \<leftarrow> parse_set_inherit n pe attrs p;
        (e2, p2) \<leftarrow> consume SHARD_TOK_SEMICOLON p1;
        let err3 = any_err [e1, e2];
        set_loop n pe recursive False (if err3 \<noteq> 0 then err3 else err) attrs1 p2
      }
      else if first_iter \<and> token_type p = SHARD_TOK_ELLIPSE then set_function n pe err None p
      else do {
        (err1, p1) \<leftarrow> (if token_type p = SHARD_TOK_STRING then do {
            token_string p; (e, p1) \<leftarrow> advance p; Some (err, p1) }
          else do {
            (e, p1) \<leftarrow> consume SHARD_TOK_IDENT p; Some (if e \<noteq> 0 then EINVAL else err, p1) });
        let key = token_string p;
        if first_iter \<and> token_type p1 \<in> {SHARD_TOK_COMMA, SHARD_TOK_QUESTIONMARK} then
          (case tok_value (p_token p) of
             Str s \<Rightarrow> set_function n pe err1 (Some s) p1
           | NoValue \<Rightarrow> set_function n pe err1 None p1
           | _ \<Rightarrow> None)
        else do {
          (err2, (path, key2, attrs2), p2) \<leftarrow> attr_name_loop n recursive err1 [] key attrs p1;
          k \<leftarrow> key2;
          cur \<leftarrow> attrs_at path attrs2;
          let (err3, p3) = (if map_of cur k \<noteq> None then errorf (Already_defined k) p2 else (err2, p2));
          (e4, v, p4) \<leftarrow> set_binding pe p3;
          (case v of
             None \<Rightarrow> do {
               (e5, p5) \<leftarrow> advance p4;
               Some (EINVAL, ESet recursive attrs2, p5) }
           | Some e \<Rightarrow> set_loop n pe recursive False err3 (put_at path k e attrs2) p4)
        }
      })"

definition parse_set :: "nat \<Rightarrow> prec_parser \<Rightarrow> bool \<Rightarrow> expr_parser" where
  "parse_set n pe recursive p = do {
     p1 \<leftarrow> (if recursive then map_option snd (advance p) else Some p);
     (err, p2) \<leftarrow> consume SHARD_TOK_LBRACE p1;
     set_loop n pe recursive True err [] p2
   }"

subsection \<open>Case and let\<close>

primrec case_loop ::
  "nat \<Rightarrow> prec_parser \<Rightarrow> expr_parser \<Rightarrow> shard_expr list \<Rightarrow> shard_pattern list \<Rightarrow> parser \<Rightarrow>
   (shard_expr list \<times> shard_pattern list) parsed" where
  "case_loop 0 pe pp branches patterns p = None"
| "case_loop (Suc n) pe pp branches patterns p = do {
     (e1, pattern, p1) \<leftarrow> parse_pattern n pe pp p;
     (e2, p2) \<leftarrow> consume SHARD_TOK_ARROW p1;
     (e3, branch, p3) \<leftarrow> pe PREC_LOWEST p2;
     let err = any_err [e1, e2, e3];
     if err \<noteq> 0 then Some (err, (branches, patterns), p3)
     else if token_type p3 = SHARD_TOK_SEMICOLON then do {
       (err4, p4) \<leftarrow> advance p3;
       if err4 \<noteq> 0 then Some (err4, (branches @ [branch], patterns @ [pattern]), p4)
       else case_loop n pe pp (branches @ [branch]) (patterns @ [pattern]) p4
     }
     else Some (0, (branches @ [branch], patterns @ [pattern]), p3)
   }"

definition parse_case_of :: "nat \<Rightarrow> prec_parser \<Rightarrow> expr_parser \<Rightarrow> expr_parser" where
  "parse_case_of n pe pp p = do {
     (e1, p1) \<leftarrow> advance p;
     (e2, cond, p2) \<leftarrow> pe PREC_LOWEST p1;
     (e3, p3) \<leftarrow> consume SHARD_TOK_OF p2;
     let err = any_err [e1, e2, e3];
     if err \<noteq> 0 then Some (err, EUninit, p3)
     else do {
       (err2, (branches, patterns), p4) \<leftarrow> case_loop n pe pp [] [] p3;
       Some (err2, ECase_of cond branches patterns, p4)
     }
   }"

text \<open>The name of a binding is the string of the current token; it is used only when the token is an identifier.\<close>

definition parse_let_binding :: "prec_parser \<Rightarrow> parser \<Rightarrow> (string \<times> shard_expr) parsed" where
  "parse_let_binding pe p = do {
     (e1, p1) \<leftarrow> consume SHARD_TOK_IDENT p;
     (e2, p2) \<leftarrow> consume SHARD_TOK_ASSIGN p1;
     (e3, e, p3) \<leftarrow> pe PREC_LOWEST p2;
     (e4, p4) \<leftarrow> consume SHARD_TOK_SEMICOLON p3;
     Some (any_err [e1, e2, e3, e4], (case token_string p of Some s \<Rightarrow> s | None \<Rightarrow> [], e), p4)
   }"

primrec let_loop :: "nat \<Rightarrow> prec_parser \<Rightarrow> errno \<Rightarrow> attrs \<Rightarrow> parser \<Rightarrow> attrs parsed" where
  "let_loop 0 pe err bindings p = None"
| "let_loop (Suc n) pe err bindings p =
     (if token_type p \<noteq> SHARD_TOK_IN then do {
        (err2, binding, p1) \<leftarrow> parse_let_binding pe p;
        if err2 \<noteq> 0 then Some (err2, bindings @ [binding], p1)
        else let_loop n pe err (bindings @ [binding]) p1
      }
      else Some (err, bindings, p))"

definition parse_let :: "nat \<Rightarrow> prec_parser \<Rightarrow> expr_parser" where
  "parse_let n pe p = do {
     (err, p1) \<leftarrow> advance p;
     (err1, bindings, p2) \<leftarrow> let_loop n pe err [] p1;
     (e2, p3) \<leftarrow> advance p2;
     (e3, e, p4) \<leftarrow> pe PREC_LOWEST p3;
     Some (any_err [err1, e2, e3], ELet bindings e, p4)
   }"

subsection \<open>Prefix expressions\<close>

definition parse_prefix_expr :: "nat \<Rightarrow> prec_parser \<Rightarrow> expr_parser \<Rightarrow> expr_parser" where
  "parse_prefix_expr n pe pp p = (case token_type p of
       SHARD_TOK_IDENT \<Rightarrow> parse_ident n pe p
     | SHARD_TOK_INT \<Rightarrow> do {
         (err, p1) \<leftarrow> advance p;
         i \<leftarrow> (case tok_value (p_token p) of Integer i \<Rightarrow> Some i | _ \<Rightarrow> None);
         Some (err, EInt i, p1) }
     | SHARD_TOK_FLOAT \<Rightarrow> do {
         (err, p1) \<leftarrow> advance p;
         (i, f, d) \<leftarrow> (case tok_value (p_token p) of Floating i f d \<Rightarrow> Some (i, f, d) | _ \<Rightarrow> None);
         Some (err, EFloat i f d, p1) }
     | SHARD_TOK_STRING \<Rightarrow> parse_string_lit n pe False p
     | SHARD_TOK_PATH \<Rightarrow> parse_string_lit n pe True p
     | SHARD_TOK_WITH \<Rightarrow> parse_with pe p
     | SHARD_TOK_ASSERT \<Rightarrow> parse_assert pe p
     | SHARD_TOK_EXCLAMATIONMARK \<Rightarrow> parse_unary_op SHARD_EXPR_NOT PREC_NOT pe p
     | SHARD_TOK_SUB \<Rightarrow> parse_unary_op SHARD_EXPR_NEGATE PREC_NEGATION pe p
     | SHARD_TOK_LPAREN \<Rightarrow> parse_compound pe p
     | SHARD_TOK_LBRACKET \<Rightarrow> parse_list n pe p
     | SHARD_TOK_LBRACE \<Rightarrow> parse_set n pe False p
     | SHARD_TOK_REC \<Rightarrow> parse_set n pe True p
     | SHARD_TOK_IF \<Rightarrow> parse_ternary pe p
     | SHARD_TOK_CASE \<Rightarrow> parse_case_of n pe pp p
     | SHARD_TOK_LET \<Rightarrow> parse_let n pe p
     | SHARD_TOK_DOLLAR \<Rightarrow> do { (e, p1) \<leftarrow> advance p; pe PREC_LOWEST p1 }
     | SHARD_TOK_ERR \<Rightarrow> Some (EINVAL, EUninit, p)
     | type \<Rightarrow> do {
         let (err, p1) = errorf (Expect_expression type) p;
         (e, p2) \<leftarrow> advance p1;
         Some (err, EUninit, p2) })"

subsection \<open>Infix expressions\<close>

definition parse_binop :: "shard_binop \<Rightarrow> nat \<Rightarrow> prec_parser \<Rightarrow> shard_expr \<Rightarrow> expr_parser" where
  "parse_binop type prec pe left p = do {
     (e1, p1) \<leftarrow> advance p;
     (e2, rhs, p2) \<leftarrow> pe prec p1;
     Some (any_err [e1, e2], EBinop type left rhs, p2)
   }"

definition parse_call :: "prec_parser \<Rightarrow> shard_expr \<Rightarrow> expr_parser" where
  "parse_call pe left p = do {
     (err, rhs, p1) \<leftarrow> pe PREC_CALL p;
     Some (err, EBinop SHARD_EXPR_CALL left rhs, p1)
   }"

text \<open>A path element whose token carries no string is recorded as the empty string; \<open>consume\<close> then reports the error.\<close>

primrec parse_attribute_path :: "nat \<Rightarrow> errno \<Rightarrow> string list \<Rightarrow> parser \<Rightarrow> (string list) parsed" where
  "parse_attribute_path 0 err path p = None"
| "parse_attribute_path (Suc n) err path p = do {
     (e1, p1) \<leftarrow> advance p;
     let path1 = path @ [case token_string p1 of Some s \<Rightarrow> s | None \<Rightarrow> []];
     (e2, p2) \<leftarrow> consume SHARD_TOK_IDENT p1;
     let err2 = (if e2 \<noteq> 0 then e2 else if e1 \<noteq> 0 then e1 else err);
     if token_type p2 = SHARD_TOK_PERIOD then parse_attribute_path n err2 path1 p2
     else Some (err2, path1, p2)
   }"

definition parse_attribute_selection :: "nat \<Rightarrow> prec_parser \<Rightarrow> shard_expr \<Rightarrow> expr_parser" where
  "parse_attribute_selection n pe base p = do {
     (e0, path, p1) \<leftarrow> parse_attribute_path n 0 [] p;
     if token_type p1 = SHARD_TOK_OR then do {
       (e1, p2) \<leftarrow> advance p1;
       (e2, dflt, p3) \<leftarrow> pe PREC_ATTRIBUTE_SELECTION p2;
       Some (any_err [e0, e1, e2], EAttr_sel base path (Some dflt), p3)
     }
     else Some (e0, EAttr_sel base path None, p1)
   }"

definition parse_attribute_test :: "nat \<Rightarrow> shard_expr \<Rightarrow> expr_parser" where
  "parse_attribute_test n base p = do {
     (err, path, p1) \<leftarrow> parse_attribute_path n 0 [] p;
     Some (err, EAttr_test base path, p1)
   }"

definition token_terminates_expr :: "shard_token_type \<Rightarrow> bool" where
  "token_terminates_expr type \<longleftrightarrow> type \<in> {SHARD_TOK_OF, SHARD_TOK_RPAREN, SHARD_TOK_RBRACE, SHARD_TOK_RBRACKET,
     SHARD_TOK_SEMICOLON, SHARD_TOK_COLON, SHARD_TOK_EOF, SHARD_TOK_ELSE, SHARD_TOK_THEN, SHARD_TOK_OR,
     SHARD_TOK_ARROW, SHARD_TOK_ASSIGN, SHARD_TOK_COMMA}"

text \<open>The binary operators with the expression type and the precedence \<open>parse_infix_expr\<close> gives them.\<close>

definition binops :: "(shard_token_type \<times> shard_binop \<times> nat) list" where
  "binops =
     [(SHARD_TOK_ADD, SHARD_EXPR_ADD, PREC_ADDITION), (SHARD_TOK_SUB, SHARD_EXPR_SUB, PREC_ADDITION),
      (SHARD_TOK_MUL, SHARD_EXPR_MUL, PREC_MULTIPLICATION), (SHARD_TOK_DIV, SHARD_EXPR_DIV, PREC_MULTIPLICATION),
      (SHARD_TOK_EQ, SHARD_EXPR_EQ, PREC_EQUALITY), (SHARD_TOK_NE, SHARD_EXPR_NE, PREC_EQUALITY),
      (SHARD_TOK_LT, SHARD_EXPR_LT, PREC_COMPARISON), (SHARD_TOK_LE, SHARD_EXPR_LE, PREC_COMPARISON),
      (SHARD_TOK_GT, SHARD_EXPR_GT, PREC_COMPARISON), (SHARD_TOK_GE, SHARD_EXPR_GE, PREC_COMPARISON),
      (SHARD_TOK_LOGIMPL, SHARD_EXPR_LOGIMPL, PREC_LOGIMPL), (SHARD_TOK_LOGOR, SHARD_EXPR_LOGOR, PREC_LOGOR),
      (SHARD_TOK_LOGAND, SHARD_EXPR_LOGAND, PREC_LOGAND), (SHARD_TOK_MERGE, SHARD_EXPR_MERGE, PREC_MERGE),
      (SHARD_TOK_CONCAT, SHARD_EXPR_CONCAT, PREC_CONCATENATION), (SHARD_TOK_LCOMPOSE, SHARD_EXPR_LCOMPOSE, PREC_COMPOSITION),
      (SHARD_TOK_RCOMPOSE, SHARD_EXPR_RCOMPOSE, PREC_COMPOSITION)]"

definition get_precedence :: "shard_token_type \<Rightarrow> nat" where
  "get_precedence type =
     (if type = SHARD_TOK_LOGIMPL then PREC_LOGIMPL
      else if type = SHARD_TOK_LOGOR then PREC_LOGOR
      else if type = SHARD_TOK_LOGAND then PREC_LOGAND
      else if type \<in> {SHARD_TOK_EQ, SHARD_TOK_NE} then PREC_EQUALITY
      else if type \<in> {SHARD_TOK_GE, SHARD_TOK_GT, SHARD_TOK_LE, SHARD_TOK_LT} then PREC_COMPARISON
      else if type = SHARD_TOK_MERGE then PREC_MERGE
      else if type \<in> {SHARD_TOK_ADD, SHARD_TOK_SUB} then PREC_ADDITION
      else if type \<in> {SHARD_TOK_MUL, SHARD_TOK_DIV} then PREC_MULTIPLICATION
      else if type = SHARD_TOK_CONCAT then PREC_CONCATENATION
      else if type = SHARD_TOK_QUESTIONMARK then PREC_ATTRIBUTE_TEST
      else if type = SHARD_TOK_PERIOD then PREC_ATTRIBUTE_SELECTION
      else if type \<in> {SHARD_TOK_LCOMPOSE, SHARD_TOK_RCOMPOSE} then PREC_COMPOSITION
      else if token_terminates_expr type then PREC_LOWEST else PREC_CALL)"

definition parse_infix_expr :: "nat \<Rightarrow> prec_parser \<Rightarrow> shard_expr \<Rightarrow> expr_parser" where
  "parse_infix_expr n pe left p = (case map_of binops (token_type p) of
       Some (type, prec) \<Rightarrow> parse_binop type prec pe left p
     | None \<Rightarrow>
         if token_type p = SHARD_TOK_PERIOD then parse_attribute_selection n pe left p
         else if token_type p = SHARD_TOK_QUESTIONMARK then parse_attribute_test n left p
         else if \<not> token_terminates_expr (token_type p) then parse_call pe left p
         else do {
           let (err, p1) = errorf (Expect_infix (token_type p)) p;
           (e, p2) \<leftarrow> advance p1;
           Some (err, EUninit, p2) })"

primrec infix_loop :: "nat \<Rightarrow> prec_parser \<Rightarrow> nat \<Rightarrow> errno \<Rightarrow> shard_expr \<Rightarrow> expr_parser" where
  "infix_loop 0 pe prec err e p = None"
| "infix_loop (Suc n) pe prec err e p =
     (if prec < get_precedence (token_type p) then do {
        (err1, e1, p1) \<leftarrow> parse_infix_expr n pe e p;
        if err1 \<noteq> 0 then Some (err1, e, p1) else infix_loop n pe prec err e1 p1
      }
      else Some (err, e, p))"

subsection \<open>The parser\<close>

text \<open>\<open>parse_expr\<close> and \<open>parse_prefix_expr\<close> with a fuel.\<close>

fun parse_expr :: "nat \<Rightarrow> prec_parser" and parse_prefix :: "nat \<Rightarrow> expr_parser" where
  "parse_expr 0 prec p = None"
| "parse_expr (Suc n) prec p = do {
     (err, e, p1) \<leftarrow> parse_prefix n p;
     infix_loop n (parse_expr n) prec err e p1
   }"
| "parse_prefix 0 p = None"
| "parse_prefix (Suc n) p = parse_prefix_expr n (parse_expr n) (parse_prefix n) p"

text \<open>\<open>shard_parse\<close> on the contents of a source; \<open>errors\<close> are those of the context before.\<close>

definition shard_parse :: "nat \<Rightarrow> u32 \<Rightarrow> string \<Rightarrow> (parse_message \<times> errno) list \<Rightarrow>
    (errno \<times> shard_expr \<times> (parse_message \<times> errno) list) option" where
  "shard_parse n line_offset contents errors = do {
     let none = \<lparr>tok_type = SHARD_TOK_EOF,
       tok_location = \<lparr>loc_line = 0, loc_column = 0, loc_width = 0, loc_offset = 0\<rparr>, tok_value = NoValue\<rparr>;
     let p = \<lparr>p_lexer = shard_lex_init line_offset contents [], p_token = none, p_errors = errors\<rparr>;
     (e1, p1) \<leftarrow> advance p;
     (e2, e, p2) \<leftarrow> parse_expr n PREC_LOWEST p1;
     Some (any_err [e1, e2], e, p_errors p2)
   }"

end
