(* ===== verification/ShardPrint.thy ===== *)
theory ShardPrint
  imports ShardLex
begin

text \<open>
  Printing of shard tokens and the round trip through the lexer: a text of printed tokens lexes to exactly these
  tokens. The printer separates tokens by spaces. It covers the symbols, the keywords, identifiers, integers, strings
  without escapes and absolute paths.
\<close>

subsection \<open>Text of a token\<close>

definition keyword_text :: "shard_token_type \<Rightarrow> string option" where
  "keyword_text type = map_of (map prod.swap keyword_table) type"

definition symbol_table :: "(shard_token_type \<times> string) list" where
  "symbol_table =
     [(SHARD_TOK_LPAREN, ''(''), (SHARD_TOK_RPAREN, '')''), (SHARD_TOK_LBRACKET, ''[''), (SHARD_TOK_RBRACKET, '']''),
      (SHARD_TOK_LBRACE, ''{''), (SHARD_TOK_RBRACE, ''}''), (SHARD_TOK_ASSIGN, ''=''), (SHARD_TOK_EQ, ''==''),
      (SHARD_TOK_NE, ''!=''), (SHARD_TOK_GT, ''>''), (SHARD_TOK_GE, ''>=''), (SHARD_TOK_LT, ''<''), (SHARD_TOK_LE, ''<=''),
      (SHARD_TOK_LCOMPOSE, ''<<''), (SHARD_TOK_RCOMPOSE, ''>>''), (SHARD_TOK_COLON, '':''), (SHARD_TOK_DOUBLE_COLON, ''::''),
      (SHARD_TOK_SEMICOLON, '';''), (SHARD_TOK_COMMA, '',''), (SHARD_TOK_PERIOD, ''.''), (SHARD_TOK_ELLIPSE, ''...''),
      (SHARD_TOK_MERGE, ''//''), (SHARD_TOK_CONCAT, ''++''), (SHARD_TOK_QUESTIONMARK, ''?''),
      (SHARD_TOK_EXCLAMATIONMARK, ''!''), (SHARD_TOK_AT, ''@''), (SHARD_TOK_ADD, ''+''), (SHARD_TOK_SUB, ''-''),
      (SHARD_TOK_MUL, ''*''), (SHARD_TOK_DIV, ''/''), (SHARD_TOK_PIPE, ''|''), (SHARD_TOK_LOGAND, ''&&''),
      (SHARD_TOK_LOGOR, ''||''), (SHARD_TOK_LOGIMPL, ''->''), (SHARD_TOK_ARROW, ''=>''), (SHARD_TOK_DOLLAR, ''$''),
      (SHARD_TOK_INTERPOLATION, ''${'')]"

definition symbols :: "shard_token_type list" where
  "symbols = map fst symbol_table"

definition keywords_list :: "shard_token_type list" where
  "keywords_list = map snd keyword_table"

text \<open>Decimal digits.\<close>

definition digit :: "nat \<Rightarrow> char" where
  "digit d = char_of (48 + d)"

fun decimal :: "nat \<Rightarrow> string" where
  "decimal n = (if n < 10 then [digit n] else decimal (n div 10) @ [digit (n mod 10)])"

declare decimal.simps [simp del]

type_synonym ptoken = "shard_token_type \<times> token_value"

definition tok_text :: "ptoken \<Rightarrow> string" where
  "tok_text t = (case t of
       (type, NoValue) \<Rightarrow> (case map_of symbol_table type of Some s \<Rightarrow> s
         | None \<Rightarrow> (case keyword_text type of Some s \<Rightarrow> s | None \<Rightarrow> []))
     | (type, Integer i) \<Rightarrow> decimal (unat i)
     | (type, Str s) \<Rightarrow> if type = SHARD_TOK_STRING then CHR 0x22 # s @ [CHR 0x22] else s
     | (type, Floating i f d) \<Rightarrow> [])"

text \<open>The tokens the printer covers.\<close>

definition word_ok :: "string \<Rightarrow> bool" where
  "word_ok w \<longleftrightarrow> w \<noteq> [] \<and> length w < 4097 \<and> (\<forall>c \<in> set w. is_ident_char c) \<and> hd w \<noteq> CHR ''-'' \<and>
     \<not> isdigit (hd w)"

definition ident_ok :: "string \<Rightarrow> bool" where
  "ident_ok w \<longleftrightarrow> word_ok w \<and> get_keyword w = SHARD_TOK_IDENT"

definition string_ok :: "string \<Rightarrow> bool" where
  "string_ok s \<longleftrightarrow> (\<forall>c \<in> set s. c \<notin> {CHR 0x22, CHR 0x5C, CHR ''$'', CHR 0x00, EOF_CHAR})"

definition path_ok :: "string \<Rightarrow> bool" where
  "path_ok p \<longleftrightarrow> (\<exists>c cs. p = CHR ''/'' # c # cs \<and> c \<noteq> CHR ''/'' \<and> c \<noteq> CHR ''*'') \<and>
     (\<forall>c \<in> set p. \<not> is_path_terminator c \<and> c \<notin> {CHR 0x5C, CHR ''$'', CHR 0x00})"

definition valid_tok :: "ptoken \<Rightarrow> bool" where
  "valid_tok t \<longleftrightarrow> (case t of
       (type, NoValue) \<Rightarrow> type \<in> set symbols \<union> set keywords_list
     | (type, Integer i) \<Rightarrow> type = SHARD_TOK_INT
     | (type, Str s) \<Rightarrow> type = SHARD_TOK_IDENT \<and> ident_ok s \<or> type = SHARD_TOK_STRING \<and> string_ok s \<or>
         type = SHARD_TOK_PATH \<and> path_ok s
     | (type, Floating i f d) \<Rightarrow> False)"

definition print_toks :: "ptoken list \<Rightarrow> string" where
  "print_toks ts = concat (map (\<lambda>t. CHR '' '' # tok_text t) ts) @ '' ''"

lemma print_toks_simps: "print_toks [] = '' ''" "print_toks (t # ts) = CHR '' '' # tok_text t @ print_toks ts"
  by (simp_all add: print_toks_def)

lemma print_toks_space: "\<exists>cs. print_toks ts = CHR '' '' # cs"
  by (cases ts) (simp_all add: print_toks_simps)

subsection \<open>Lexing one printed token\<close>

text \<open>\<open>lexes l t cs\<close>: the lexer in state \<open>l\<close> delivers the token \<open>t\<close>, and the text \<open>cs\<close> is left.\<close>

definition gives :: "lexed \<Rightarrow> ptoken \<Rightarrow> string \<Rightarrow> bool" where
  "gives r t cs \<longleftrightarrow> (\<exists>tok l'. r = Some (0, tok, l') \<and> (tok_type tok, tok_value tok) = t \<and> rest l' = cs \<and> quiet l')"

lemma gives_KEYWORD_TOK: "rest l = cs \<Longrightarrow> quiet l \<Longrightarrow> gives (KEYWORD_TOK type l) (type, NoValue) cs"
  by (simp add: gives_def KEYWORD_TOK_def)

lemma isspace_space [simp]: "isspace (CHR '' '')"
  by (simp add: isspace_def char_code_def)

lemma shard_lex_token:
  assumes "rest l = CHR '' '' # c # cs" "quiet l" "\<not> isspace c" "c \<noteq> CHR ''#''" "c \<noteq> CHR ''/'' \<or> \<not> starts (CHR ''*'') cs"
  shows "shard_lex l = lex_token c (skip_char l)"
proof -
  have "skip_whitespace l = skip_char l"
    using assms(1,3) by (simp add: skip_whitespace_adv)
  moreover have "rest (skip_char l) = c # cs" using assms(1) by simp
  ultimately show ?thesis
    using assms(2-5) peek_n_starts [of "skip_char l" c cs "CHR ''*''"]
    by (auto simp: shard_lex_def quiet_def lex_repeat.simps [of l] peek_rest Let_def)
qed

lemma symbol_cases:
  assumes "type \<in> set symbols" "rest l = CHR '' '' # tok_text (type, NoValue) @ CHR '' '' # cs" "quiet l"
  shows "gives (shard_lex l) (type, NoValue) (CHR '' '' # cs)"
proof -
  have quiet: "interpolation_stack l = []" "\<not> handle_interpolation l" using assms(3) by (simp_all add: quiet_def)
  show ?thesis
    using assms(1,2) quiet
    by (auto simp: symbols_def symbol_table_def tok_text_def shard_lex_token quiet_def isspace_def char_code_def
        lex_token_def lex_one_def lex_two_def lex_rbrace_def lex_slash_def lex_ampersand_def lex_period_def
        lex_less_def lex_dollar_def Let_def peek_rest peek_char_n_rest closes_interpolation_def interpolation_top_def
        intro!: gives_KEYWORD_TOK)
qed

lemma class_facts:
  "is_ident_char c \<Longrightarrow> \<not> isspace c" "isdigit c \<Longrightarrow> is_ident_char c"
  "is_ident_char c \<Longrightarrow> c \<notin> {CHR ''#'', CHR ''/'', CHR '' '', CHR 0x00, EOF_CHAR}"
  by (auto simp: is_ident_char_def isspace_def isalnum_def isalpha_def isdigit_def char_code_def)

lemma lex_token_ident:
  assumes "is_ident_char c" "c \<noteq> CHR ''-''"
  shows "lex_token c l = (if isdigit c then lex_number l else lex_ident l)"
proof -
  have "c \<notin> {EOF_CHAR, CHR ''('', CHR '')'', CHR ''['', CHR '']'', CHR ''{'', CHR ''}'', CHR ''+'', CHR ''*'', CHR ''/'',
      CHR ''~'', CHR '':'', CHR '';'', CHR ''&'', CHR ''|'', CHR '','', CHR ''.'', CHR ''?'', CHR ''!'', CHR ''>'',
      CHR ''<'', CHR ''@'', CHR ''$'', CHR ''='', CHR 0x27, CHR 0x22}"
    using assms(1) by (auto simp: is_ident_char_def isalnum_def isalpha_def isdigit_def char_code_def)
  then show ?thesis using assms by (simp add: lex_token_def)
qed

lemma word_cases:
  assumes "word_ok w" and l: "rest l = CHR '' '' # w @ CHR '' '' # cs" "quiet l"
  shows "gives (shard_lex l) (if get_keyword w = SHARD_TOK_IDENT then (SHARD_TOK_IDENT, Str w) else (get_keyword w, NoValue))
    (CHR '' '' # cs)"
proof -
  have w: "w \<noteq> []" "length w < 4097" "\<forall>c \<in> set w. is_ident_char c" "hd w \<noteq> CHR ''-''" "\<not> isdigit (hd w)"
    using assms(1) by (auto simp: word_ok_def)
  obtain c v where c: "w = c # v" using w(1) by (cases w) auto
  have "shard_lex l = lex_token c (skip_char l)"
    using l w(3) c class_facts [of c] by (intro shard_lex_token [of l c "v @ CHR '' '' # cs"]) auto
  moreover have "lex_token c (skip_char l) = lex_ident (skip_char l)" using lex_token_ident [of c] w c by simp
  moreover have t: "takeWhile is_ident_char (w @ CHR '' '' # cs) = w"
    using w(3) by (simp add: takeWhile_append is_ident_char_def isalnum_def isalpha_def isdigit_def char_code_def)
  moreover have "lex_ident_loop (skip_char l) [] = Inr (w, adv (length w) (skip_char l))"
    using l w t by (simp add: lex_ident_loop_adv)
  moreover have "rest (adv (length w) (skip_char l)) = CHR '' '' # cs" using l by simp
  ultimately show ?thesis using l w(2)
    by (simp add: lex_ident_def Let_def gives_def KEYWORD_TOK_def del: rest_adv)
qed

lemma keyword_words:
  assumes "type \<in> set keywords_list"
  shows "word_ok (tok_text (type, NoValue))" "get_keyword (tok_text (type, NoValue)) = type" "type \<noteq> SHARD_TOK_IDENT"
proof -
  consider "type = SHARD_TOK_REC" | "type = SHARD_TOK_OR" | "type = SHARD_TOK_IF" | "type = SHARD_TOK_THEN"
    | "type = SHARD_TOK_ELSE" | "type = SHARD_TOK_ASSERT" | "type = SHARD_TOK_LET" | "type = SHARD_TOK_IN"
    | "type = SHARD_TOK_WITH" | "type = SHARD_TOK_INHERIT" | "type = SHARD_TOK_CASE" | "type = SHARD_TOK_OF"
    using assms by (auto simp: keywords_list_def keyword_table_def)
  note c = this
  note defs = keyword_table_def tok_text_def symbol_table_def keyword_text_def get_keyword_def word_ok_def
      is_ident_char_def isalnum_def isalpha_def isdigit_def char_code_def
  show "word_ok (tok_text (type, NoValue))" by (cases rule: c) (simp_all add: defs)
  show "get_keyword (tok_text (type, NoValue)) = type" by (cases rule: c) (simp_all add: defs)
  show "type \<noteq> SHARD_TOK_IDENT" by (cases rule: c) simp_all
qed

lemma lex_number_digits:
  assumes "rest l = ds @ CHR '' '' # cs" "\<forall>c \<in> set ds. isdigit c"
  shows "lex_number_loop l i f d False =
    Inr (foldl (\<lambda>v c. v * 10 + digit_value c) i ds, f, d, False, adv (length ds) l)"
  using assms
proof (induction ds arbitrary: l i)
  case Nil
  then have "peek_char l = CHR '' ''" by (simp add: peek_rest)
  then show ?case by (simp add: lex_number_loop.simps [of l] isdigit_def char_code_def)
next
  case (Cons c ds)
  have c: "c \<noteq> CHR 0x27" "c \<noteq> CHR ''.''" using Cons.prems(2) by (auto simp: isdigit_def char_code_def)
  have "peek_char l = c" using Cons.prems(1) by (simp add: peek_rest)
  then show ?case using c Cons.prems Cons.IH [of "skip_char l" "i * 10 + digit_value c"]
    by (simp add: lex_number_loop.simps [of l])
qed

lemma digit_props: "d < 10 \<Longrightarrow> isdigit (digit d)" "d < 10 \<Longrightarrow> digit_value (digit d) = of_nat d"
  by (simp_all add: isdigit_def digit_def char_code_def digit_value_def)

lemma decimal_props:
  "decimal n \<noteq> [] \<and> (\<forall>c \<in> set (decimal n). isdigit c) \<and>
   foldl (\<lambda>v c. v * 10 + digit_value c) 0 (decimal n) = of_nat n"
proof (induction n rule: decimal.induct)
  case (1 n)
  show ?case
  proof (cases "n < 10")
    case True
    then show ?thesis by (simp add: decimal.simps [of n] digit_props)
  next
    case False
    have "(of_nat n :: i64) = of_nat (n div 10 * 10 + n mod 10)" by simp
    also have "\<dots> = of_nat (n div 10) * 10 + of_nat (n mod 10)" by (simp only: of_nat_add of_nat_mult of_nat_numeral)
    finally show ?thesis using False 1 by (simp add: decimal.simps [of n] digit_props)
  qed
qed

lemma integer_case:
  assumes "rest l = CHR '' '' # decimal (unat i) @ CHR '' '' # cs" "quiet l"
  shows "gives (shard_lex l) (SHARD_TOK_INT, Integer i) (CHR '' '' # cs)"
proof -
  define ds where "ds = decimal (unat i)"
  have ds: "ds \<noteq> []" "\<forall>c \<in> set ds. isdigit c" "foldl (\<lambda>v c. v * 10 + digit_value c) 0 ds = i"
    using decimal_props [of "unat i"] by (simp_all add: ds_def)
  obtain c v where c: "ds = c # v" using ds(1) by (cases ds) auto
  have ic: "isdigit c" "c \<noteq> CHR ''-''" using ds(2) c by (auto simp: isdigit_def char_code_def)
  have r: "rest (skip_char l) = ds @ CHR '' '' # cs" using assms(1) by (simp add: ds_def)
  have "shard_lex l = lex_token c (skip_char l)"
    using assms c ic class_facts [of c] by (intro shard_lex_token [of l c "v @ CHR '' '' # cs"]) (auto simp: ds_def)
  also have "\<dots> = lex_number (skip_char l)" using lex_token_ident [of c] ic class_facts(2) [of c] by simp
  finally show ?thesis using lex_number_digits [OF r ds(2)] ds(3) r assms(2)
    by (simp add: lex_number_def gives_def Let_def)
qed

lemma scan_plain:
  assumes "\<forall>c \<in> set s. \<not> e c \<and> c \<noteq> CHR 0x5C \<and> c \<noteq> CHR ''$''" "e q"
  shows "scan_string e (s @ q # cs) False = (s, Scan_quote)"
  using assms by (induction s) auto

lemma string_case:
  assumes "string_ok s" "rest l = CHR '' '' # CHR 0x22 # s @ CHR 0x22 # CHR '' '' # cs" "quiet l"
  shows "gives (shard_lex l) (SHARD_TOK_STRING, Str s) (CHR '' '' # cs)"
proof -
  have "shard_lex l = lex_token (CHR 0x22) (skip_char l)"
    using assms by (intro shard_lex_token) (auto simp: isspace_def char_code_def)
  also have "\<dots> = lex_string is_double_quote False (skip_char (skip_char l))" by (simp add: lex_token_def)
  finally show ?thesis
    using assms scan_plain [of s is_double_quote "CHR 0x22" "CHR '' '' # cs"]
    by (simp add: lex_string_def lex_string_loop_adv STRING_TOK_def gives_def Let_def string_ok_def is_double_quote_def)
qed

lemma path_case:
  assumes "path_ok p" "rest l = CHR '' '' # p @ CHR '' '' # cs" "quiet l"
  shows "gives (shard_lex l) (SHARD_TOK_PATH, Str p) (CHR '' '' # cs)"
proof -
  obtain c v where p: "p = CHR ''/'' # c # v" "c \<noteq> CHR ''/''" "c \<noteq> CHR ''*''" using assms(1) by (auto simp: path_ok_def)
  have c: "\<not> isspace c" using assms(1) p by (auto simp: path_ok_def is_path_terminator_def)
  have "shard_lex l = lex_token (CHR ''/'') (skip_char l)"
    using assms p by (intro shard_lex_token) (auto simp: isspace_def char_code_def)
  also have "\<dots> = lex_string is_path_terminator True (skip_char l)"
    using assms(2) p c peek_char_n_rest(1) [of "skip_char l"] by (simp add: lex_token_def lex_slash_def)
  finally show ?thesis
    using assms scan_plain [of p is_path_terminator "CHR '' ''" cs]
    by (simp add: lex_string_def lex_string_loop_adv STRING_TOK_def gives_def Let_def path_ok_def is_path_terminator_def)
qed

subsection \<open>Lexing a printed text\<close>

lemma printed_token:
  assumes "valid_tok t" "rest l = CHR '' '' # tok_text t @ CHR '' '' # cs" "quiet l"
  shows "gives (shard_lex l) t (CHR '' '' # cs)"
proof -
  obtain type v where t: "t = (type, v)" by (cases t)
  show ?thesis
  proof (cases v)
    case NoValue
    then consider "type \<in> set symbols" | "type \<in> set keywords_list" using assms(1) t by (auto simp: valid_tok_def)
    then show ?thesis
    proof cases
      case 1
      then show ?thesis using symbol_cases assms t NoValue by simp
    next
      case 2
      then show ?thesis using word_cases [OF keyword_words(1) [OF 2], of l cs] keyword_words [OF 2] assms t NoValue by simp
    qed
  next
    case (Str s)
    then consider "type = SHARD_TOK_IDENT" "ident_ok s" | "type = SHARD_TOK_STRING" "string_ok s"
      | "type = SHARD_TOK_PATH" "path_ok s" using assms(1) t by (auto simp: valid_tok_def)
    then show ?thesis
    proof cases
      case 1
      then show ?thesis using word_cases [of s l cs] assms t Str by (simp add: ident_ok_def tok_text_def)
    next
      case 2
      then show ?thesis using string_case [of s l cs] assms t Str by (simp add: tok_text_def)
    next
      case 3
      then show ?thesis using path_case [of s l cs] assms t Str by (simp add: tok_text_def)
    qed
  next
    case (Integer i)
    then show ?thesis using assms t integer_case by (simp add: valid_tok_def tok_text_def)
  next
    case (Floating i f d)
    then show ?thesis using assms(1) t by (simp add: valid_tok_def)
  qed
qed

text \<open>\<open>feeds l ts\<close>: the tokens \<open>ts\<close>, and then the end of the source, are what \<open>l\<close> delivers.\<close>

definition feeds :: "lexer \<Rightarrow> ptoken list \<Rightarrow> bool" where
  "feeds l ts \<longleftrightarrow> quiet l \<and> (\<forall>t \<in> set ts. valid_tok t) \<and> (rest l = print_toks ts \<or> ts = [] \<and> rest l = [])"

lemma feeds_step:
  assumes "feeds l (t # ts)"
  obtains tok l' where "shard_lex l = Some (0, tok, l')" "tok_type tok = fst t" "tok_value tok = snd t" "feeds l' ts"
proof -
  obtain cs where cs: "print_toks ts = CHR '' '' # cs" using print_toks_space by blast
  have "gives (shard_lex l) t (CHR '' '' # cs)"
    using assms cs by (intro printed_token) (auto simp: feeds_def print_toks_simps)
  then obtain tok l' where g: "shard_lex l = Some (0, tok, l')" "(tok_type tok, tok_value tok) = t"
    "rest l' = CHR '' '' # cs" "quiet l'" unfolding gives_def by blast
  have "feeds l' ts" using g(3,4) assms cs by (simp add: feeds_def)
  then show ?thesis using g(1,2) by (intro that [of tok l']) auto
qed

lemma feeds_end:
  assumes "feeds l []"
  obtains tok l' where "shard_lex l = Some (0, tok, l')" "tok_type tok = SHARD_TOK_EOF" "tok_value tok = NoValue"
    "feeds l' []"
proof -
  have r: "rest (skip_whitespace l) = []" and q: "quiet (skip_whitespace l)"
    using assms by (auto simp: feeds_def skip_whitespace_adv print_toks_simps)
  have "shard_lex l = KEYWORD_TOK SHARD_TOK_EOF (skip_whitespace l)"
    using assms r by (simp add: shard_lex_def feeds_def quiet_def lex_repeat.simps [of l] peek_rest lex_token_def)
  moreover have "feeds (skip_whitespace l) []" using r q by (simp add: feeds_def)
  ultimately show ?thesis by (intro that) (auto simp: KEYWORD_TOK_def)
qed

lemma tok_text_chars:
  assumes "valid_tok t" "c \<in> set (tok_text t)"
  shows "c \<noteq> CHR 0x00 \<and> c \<noteq> EOF_CHAR"
proof -
  obtain type v where t: "t = (type, v)" by (cases t)
  have word: "word_ok w \<Longrightarrow> c \<in> set w \<Longrightarrow> ?thesis" for w
    using class_facts(3) [of c] by (auto simp: word_ok_def)
  show ?thesis
  proof (cases v)
    case NoValue
    then consider "type \<in> set symbols" | "type \<in> set keywords_list" using assms(1) t by (auto simp: valid_tok_def)
    then show ?thesis
    proof cases
      case 1
      then show ?thesis using assms(2) t NoValue by (auto simp: symbols_def symbol_table_def tok_text_def)
    next
      case 2
      then show ?thesis using word [OF keyword_words(1) [OF 2]] assms(2) t NoValue by simp
    qed
  next
    case (Str s)
    then show ?thesis using assms word [of s] t
      by (auto simp: valid_tok_def tok_text_def ident_ok_def string_ok_def path_ok_def is_path_terminator_def split: if_splits)
  next
    case (Integer i)
    then show ?thesis using assms t decimal_props [of "unat i"] class_facts(2,3) [of c] by (auto simp: tok_text_def)
  next
    case (Floating i f d)
    then show ?thesis using assms(1) t by (simp add: valid_tok_def)
  qed
qed

lemma feeds_init:
  assumes "\<forall>t \<in> set ts. valid_tok t"
  shows "feeds (shard_lex_init line (print_toks ts @ [CHR 0x00]) lits) ts"
proof -
  have "\<forall>c \<in> set (print_toks ts). c \<noteq> CHR 0x00 \<and> c \<noteq> EOF_CHAR"
    using assms tok_text_chars by (auto simp: print_toks_def)
  then have "takeWhile (\<lambda>c. c \<noteq> CHR 0x00 \<and> c \<noteq> EOF_CHAR) (print_toks ts) = print_toks ts" by (simp add: takeWhile_eq_all_conv)
  then show ?thesis using assms by (simp add: feeds_def rest_def shard_lex_init_def quiet_def)
qed

text \<open>The tokens up to the first error or the end of the source, with the error.\<close>

primrec lex_all :: "nat \<Rightarrow> lexer \<Rightarrow> (ptoken list \<times> errno) option" where
  "lex_all 0 l = None"
| "lex_all (Suc n) l = do {
     (e, tok, l1) \<leftarrow> shard_lex l;
     if e \<noteq> 0 \<or> tok_type tok = SHARD_TOK_EOF then Some ([], e)
     else do { (ts, e1) \<leftarrow> lex_all n l1; Some ((tok_type tok, tok_value tok) # ts, e1) }
   }"

lemma valid_tok_proper: "valid_tok t \<Longrightarrow> fst t \<noteq> SHARD_TOK_EOF \<and> fst t \<noteq> SHARD_TOK_ERR"
  by (cases t; cases "snd t")
    (auto simp: valid_tok_def symbols_def symbol_table_def keywords_list_def keyword_table_def)

lemma lex_all_feeds: "feeds l ts \<Longrightarrow> lex_all (Suc (length ts)) l = Some (ts, 0)"
proof (induction ts arbitrary: l)
  case Nil
  then obtain tok l' where "shard_lex l = Some (0, tok, l')" "tok_type tok = SHARD_TOK_EOF" by (rule feeds_end)
  then show ?case by simp
next
  case (Cons t ts)
  from Cons.prems obtain tok l' where s: "shard_lex l = Some (0, tok, l')" "tok_type tok = fst t" "tok_value tok = snd t"
    "feeds l' ts" by (rule feeds_step)
  have "fst t \<noteq> SHARD_TOK_EOF" using Cons.prems valid_tok_proper [of t] by (simp add: feeds_def)
  then show ?case using s Cons.IH [OF s(4)]
    by (simp add: lex_all.simps(2) [of "Suc (length ts)"] del: lex_all.simps)
qed

text \<open>C21. Printing and lexing are inverse: the text of a list of symbols, keywords, identifiers, integers, strings and
  paths, separated by spaces, lexes to exactly this list, without an error and in as many calls as there are tokens
  and one for the end of the source.\<close>

theorem lex_print_roundtrip:
  assumes "\<forall>t \<in> set ts. valid_tok t"
  shows "lex_all (length ts + 1) (shard_lex_init line (print_toks ts @ [CHR 0x00]) lits) = Some (ts, 0)"
  using lex_all_feeds [OF feeds_init [OF assms]] by simp

theorem lex_print_roundtrip_witness:
  "lex_all 4 (shard_lex_init 1 ('' x >= 42 '' @ [CHR 0x00]) []) =
     Some ([(SHARD_TOK_IDENT, Str ''x''), (SHARD_TOK_GE, NoValue), (SHARD_TOK_INT, Integer 42)], 0)"
proof -
  let ?ts = "[(SHARD_TOK_IDENT, Str ''x''), (SHARD_TOK_GE, NoValue), (SHARD_TOK_INT, Integer 42)]"
  have "\<forall>t \<in> set ?ts. valid_tok t"
    by (simp add: valid_tok_def ident_ok_def word_ok_def get_keyword_def keyword_table_def symbols_def symbol_table_def
        is_ident_char_def isalnum_def isalpha_def isdigit_def char_code_def)
  moreover have "print_toks ?ts = '' x >= 42 ''"
    by code_simp
  ultimately show ?thesis using lex_print_roundtrip [of ?ts 1 "[]"] by (simp add: numeral_eq_Suc)
qed

lemma lex_all_total: "quiet l \<Longrightarrow> plain_text (rest l) \<Longrightarrow> lex_measure l < n \<Longrightarrow> \<exists>ts e. lex_all n l = Some (ts, e)"
proof (induction n arbitrary: l)
  case (Suc n)
  obtain e t l' where s: "shard_lex l = Some (e, t, l')" "quiet l'" "plain_text (rest l')"
    using shard_lex_plain [OF Suc.prems(1,2)] .
  show ?case
  proof (cases "e = 0 \<and> tok_type t \<noteq> SHARD_TOK_EOF")
    case True
    then have "lex_measure l' < n" using shard_lex_measure [OF s(1)] Suc.prems(3) by simp
    then show ?thesis using Suc.IH [OF s(2,3)] s(1) True by auto
  next
    case False
    then show ?thesis using s(1) by auto
  qed
qed simp

text \<open>C22. Lexing ends: a source without \<open>$\<close> and without an identifier of 4097 characters or more is lexed to its end,
  or to the first error, in at most two calls for each byte and one more.\<close>

theorem lex_source_terminates:
  assumes "plain_text src"
  shows "\<exists>ts e. lex_all (2 * length src + 1) (shard_lex_init line (src @ [CHR 0x00]) lits) = Some (ts, e)"
proof (rule lex_all_total)
  let ?l = "shard_lex_init line (src @ [CHR 0x00]) lits"
  have r: "rest ?l = takeWhile (\<lambda>c. c \<noteq> CHR 0x00 \<and> c \<noteq> EOF_CHAR) src" by (simp add: rest_def shard_lex_init_def)
  show "quiet ?l" by (simp add: quiet_def shard_lex_init_def)
  show "plain_text (rest ?l)" using plain_takeWhile [OF assms] by (simp add: r)
  show "lex_measure ?l < 2 * length src + 1"
    using length_takeWhile_le [of "\<lambda>c. c \<noteq> CHR 0x00 \<and> c \<noteq> EOF_CHAR" src] r
    by (simp add: lex_measure_def shard_lex_init_def)
qed

theorem lex_source_terminates_witness:
  "\<exists>ts e. lex_all 19 (shard_lex_init 1 (''# comment'' @ [CHR 0x00]) []) = Some (ts, e)"
proof -
  have "length (takeWhile is_ident_char (drop n ''# comment'')) < 4097" for n
    using length_takeWhile_le [of is_ident_char "drop n ''# comment''"] by (rule le_less_trans) simp
  then have "plain_text ''# comment''" by (simp add: plain_text_def)
  then show ?thesis using lex_source_terminates [of "''# comment''" 1 "[]"] by simp
qed

end
