(* ===== verification/ShardRoundtrip.thy ===== *)
theory ShardRoundtrip
  imports ShardParse ShardPrint
begin

text \<open>
  Printing and parsing of shard expressions: the parser of \<^verbatim>\<open>shard/libshard/parse.c\<close> rebuilds the tree from its
  printed text. The printer puts parentheses around every compound expression.
\<close>

declare parse_expr.simps [simp del] parse_prefix.simps [simp del]

subsection \<open>Parsers on printed tokens\<close>

text \<open>\<open>at E p ts\<close>: the tokens \<open>ts\<close> are ahead of the parser \<open>p\<close>, the first of them as its current token, and \<open>E\<close> are
  the recorded errors.\<close>

definition at :: "(parse_message \<times> errno) list \<Rightarrow> parser \<Rightarrow> ptoken list \<Rightarrow> bool" where
  "at E p ts \<longleftrightarrow> p_errors p = E \<and> (case ts of
       [] \<Rightarrow> token_type p = SHARD_TOK_EOF \<and> feeds (p_lexer p) []
     | t # ts' \<Rightarrow> token_type p = fst t \<and> tok_value (p_token p) = snd t \<and> valid_tok t \<and> feeds (p_lexer p) ts')"

definition head :: "ptoken list \<Rightarrow> shard_token_type" where
  "head ts = (case ts of [] \<Rightarrow> SHARD_TOK_EOF | t # ts' \<Rightarrow> fst t)"

lemma head_simps [simp]: "head [] = SHARD_TOK_EOF" "head (t # ts) = fst t" "head ((type, v) # ts) = type"
  by (simp_all add: head_def)

lemma at_type: "at E p ts \<Longrightarrow> token_type p = head ts"
  by (auto simp: at_def head_def split: list.splits)

lemma at_value: "at E p ((type, v) # ts) \<Longrightarrow> tok_value (p_token p) = v"
  by (simp add: at_def)

lemma at_string: "at E p ((type, Str s) # ts) \<Longrightarrow> token_string p = Some s"
  by (simp add: at_def token_string_def)

text \<open>\<open>ok E r v ts\<close>: the result \<open>r\<close> is the value \<open>v\<close> without a new error, with \<open>ts\<close> ahead.\<close>

definition ok :: "(parse_message \<times> errno) list \<Rightarrow> 'a parsed \<Rightarrow> 'a \<Rightarrow> ptoken list \<Rightarrow> bool" where
  "ok E r v ts \<longleftrightarrow> (\<exists>p. r = Some (0, v, p) \<and> at E p ts)"

lemma ok_return: "at E p ts \<Longrightarrow> ok E (Some (0, v, p)) v ts"
  by (simp add: ok_def)

lemma ok_bind: "ok E r w ts \<Longrightarrow> (\<And>p. at E p ts \<Longrightarrow> ok E (f (0, w, p)) v ts') \<Longrightarrow> ok E (r \<bind> f) v ts'"
  by (auto simp: ok_def)

lemma advance_feeds:
  assumes "feeds (p_lexer p) ts"
  shows "\<exists>p'. advance p = Some (0, p') \<and> at (p_errors p) p' ts"
proof (cases ts)
  case Nil
  from assms [unfolded Nil] obtain tok l where "shard_lex (p_lexer p) = Some (0, tok, l)" "tok_type tok = SHARD_TOK_EOF" "feeds l []"
    by (rule feeds_end)
  then show ?thesis using Nil by (simp add: advance_def at_def)
next
  case (Cons t' ts')
  from assms [unfolded Cons] obtain tok l where "shard_lex (p_lexer p) = Some (0, tok, l)" "tok_type tok = fst t'"
    "tok_value tok = snd t'" "feeds l ts'"
    by (rule feeds_step)
  moreover have "valid_tok t'" using assms Cons by (simp add: feeds_def)
  ultimately show ?thesis using Cons by (simp add: advance_def at_def)
qed

lemma advance_at: "at E p (t # ts) \<Longrightarrow> \<exists>p'. advance p = Some (0, p') \<and> at E p' ts"
  using advance_feeds [of p ts] by (simp add: at_def)

lemma advance_ok: "at E p (t # ts) \<Longrightarrow> (\<And>p'. at E p' ts \<Longrightarrow> ok E (f (0, p')) v ts') \<Longrightarrow> ok E (advance p \<bind> f) v ts'"
  using advance_at by fastforce

lemma consume_at: "at E p ((type, w) # ts) \<Longrightarrow> \<exists>p'. consume type p = Some (0, p') \<and> at E p' ts"
  using advance_at [of E p "(type, w)" ts] at_type [of E p "(type, w) # ts"] by (simp add: consume_def)

lemma consume_ok:
  "at E p ((type, w) # ts) \<Longrightarrow> (\<And>p'. at E p' ts \<Longrightarrow> ok E (f (0, p')) v ts') \<Longrightarrow> ok E (consume type p \<bind> f) v ts'"
  using consume_at by fastforce

lemma any_err_zero [simp]: "any_err [0] = 0" "any_err [0, 0] = 0" "any_err [0, 0, 0] = 0" "any_err [0, 0, 0, 0] = 0"
  "any_err [0, 0, 0, 0, 0, 0] = 0"
  by simp_all

text \<open>The same for the steps of a \<open>do\<close> block.\<close>

lemma advance_step:
  "at E p (t # ts) \<Longrightarrow> (\<And>p'. at E p' ts \<Longrightarrow> ok E (f 0 p') v ts') \<Longrightarrow> ok E (advance p \<bind> (\<lambda>(e, p'). f e p')) v ts'"
  by (rule advance_ok) simp_all

lemma consume_step:
  "at E p ((type, w) # ts) \<Longrightarrow> (\<And>p'. at E p' ts \<Longrightarrow> ok E (f 0 p') v ts') \<Longrightarrow>
   ok E (consume type p \<bind> (\<lambda>(e, p'). f e p')) v ts'"
  by (rule consume_ok) simp_all

lemma ok_step:
  "ok E r w ts \<Longrightarrow> (\<And>p. at E p ts \<Longrightarrow> ok E (f 0 w p) v ts') \<Longrightarrow> ok E (r \<bind> (\<lambda>(e, w, p). f e w p)) v ts'"
  by (rule ok_bind) simp_all

text \<open>Tokens that may follow an expression: after an identifier a colon or \<open>@\<close> would turn it into a pattern, and after a
  string the start of an interpolation would continue it.\<close>

definition follow :: "ptoken list \<Rightarrow> bool" where
  "follow ts \<longleftrightarrow> head ts \<notin> {SHARD_TOK_COLON, SHARD_TOK_DOUBLE_COLON, SHARD_TOK_AT, SHARD_TOK_INTERPOLATION}"

definition prefix_reads :: "nat \<Rightarrow> shard_expr \<Rightarrow> ptoken list \<Rightarrow> bool" where
  "prefix_reads N e toks \<longleftrightarrow>
     (\<forall>n \<ge> N. \<forall>E p ts. at E p (toks @ ts) \<longrightarrow> follow ts \<longrightarrow> ok E (parse_prefix n p) e ts)"

lemma prefix_readsD:
  "prefix_reads N e toks \<Longrightarrow> N \<le> n \<Longrightarrow> at E p (toks @ ts) \<Longrightarrow> follow ts \<Longrightarrow> ok E (parse_prefix n p) e ts"
  by (simp add: prefix_reads_def)

lemma prefix_reads_mono: "prefix_reads N e toks \<Longrightarrow> N \<le> M \<Longrightarrow> prefix_reads M e toks"
  by (auto simp: prefix_reads_def)

lemma expr_of_prefix:
  assumes "ok E (parse_prefix (Suc m) p) e ts" "get_precedence (head ts) \<le> prec"
  shows "ok E (parse_expr (Suc (Suc m)) prec p) e ts"
  unfolding parse_expr.simps(2) [of "Suc m"]
  by (rule ok_bind [OF assms(1)]) (use assms(2) in \<open>simp add: at_type ok_return\<close>)

lemma expr_reads:
  assumes "prefix_reads N e toks" "N + 2 \<le> n" "at E p (toks @ ts)" "follow ts" "get_precedence (head ts) \<le> prec"
  shows "ok E (parse_expr n prec p) e ts"
proof -
  have "n = Suc (Suc (n - 2))" using assms(2) by linarith
  then obtain m where n: "n = Suc (Suc m)" by blast
  have "ok E (parse_prefix (Suc m) p) e ts" using assms(1-4) n by (intro prefix_readsD) auto
  then show ?thesis unfolding n using assms(5) by (rule expr_of_prefix)
qed

text \<open>\<open>reads n e toks\<close>: with fuel \<open>n\<close>, \<open>parse_expr\<close> reads \<open>e\<close> from \<open>toks\<close>, whatever follows.\<close>

definition reads :: "nat \<Rightarrow> shard_expr \<Rightarrow> ptoken list \<Rightarrow> bool" where
  "reads n e toks \<longleftrightarrow> (\<forall>E p ts prec. at E p (toks @ ts) \<longrightarrow> follow ts \<longrightarrow> get_precedence (head ts) \<le> prec \<longrightarrow>
     ok E (parse_expr n prec p) e ts)"

lemma reads_prefix: "prefix_reads N e toks \<Longrightarrow> N + 2 \<le> n \<Longrightarrow> reads n e toks"
  using expr_reads by (auto simp: reads_def)

lemma reads_ok:
  "reads n e toks \<Longrightarrow> at E p (toks @ ts) \<Longrightarrow> follow ts \<Longrightarrow> get_precedence (head ts) \<le> prec \<Longrightarrow>
   ok E (parse_expr n prec p) e ts"
  by (simp add: reads_def)

lemma reads_step:
  "reads n e toks \<Longrightarrow> at E p (toks @ ts) \<Longrightarrow> follow ts \<Longrightarrow> get_precedence (head ts) \<le> prec \<Longrightarrow>
   (\<And>p'. at E p' ts \<Longrightarrow> ok E (f 0 e p') v ts') \<Longrightarrow> ok E (parse_expr n prec p \<bind> (\<lambda>(err, e, p'). f err e p')) v ts'"
  by (rule ok_step [OF reads_ok]) auto

lemma infix_reads:
  assumes "prefix_reads N a toks" "N \<le> Suc (Suc j)" "at E p (toks @ ts)" "follow ts" "prec < get_precedence (head ts)"
    and step: "\<And>p'. at E p' ts \<Longrightarrow> ok E (parse_infix_expr (Suc j) (parse_expr (Suc (Suc j))) a p') e ts2"
    and stop: "get_precedence (head ts2) \<le> prec"
  shows "ok E (parse_expr (Suc (Suc (Suc j))) prec p) e ts2"
  unfolding parse_expr.simps(2) [of "Suc (Suc j)"]
proof (rule ok_bind [OF prefix_readsD [OF assms(1-4)]])
  fix p1
  assume p1: "at E p1 ts"
  have go: "prec < get_precedence (token_type p1)" using at_type [OF p1] assms(5) by simp
  obtain p2 where p2: "parse_infix_expr (Suc j) (parse_expr (Suc (Suc j))) a p1 = Some (0, e, p2)" "at E p2 ts2"
    using step [OF p1] by (auto simp: ok_def)
  have "\<not> prec < get_precedence (token_type p2)" using at_type [OF p2(2)] stop by simp
  then show "ok E (case (0, a, p1) of (err, e, p1) \<Rightarrow> infix_loop (Suc (Suc j)) (parse_expr (Suc (Suc j))) prec err e p1) e ts2"
    using go p2 by (simp add: ok_return)
qed

subsection \<open>Printer\<close>

abbreviation T :: "shard_token_type \<Rightarrow> ptoken" where "T type \<equiv> (type, NoValue)"
abbreviation TId :: "string \<Rightarrow> ptoken" where "TId w \<equiv> (SHARD_TOK_IDENT, Str w)"

definition binop_token :: "shard_binop \<Rightarrow> shard_token_type option" where
  "binop_token op = map_of (map (\<lambda>(type, op, prec). (op, type)) binops) op"

definition unop_token :: "shard_unop \<Rightarrow> shard_token_type" where
  "unop_token op = (case op of SHARD_EXPR_NOT \<Rightarrow> SHARD_TOK_EXCLAMATIONMARK | SHARD_EXPR_NEGATE \<Rightarrow> SHARD_TOK_SUB)"

definition parens :: "ptoken list \<Rightarrow> ptoken list" where
  "parens ts = T SHARD_TOK_LPAREN # ts @ [T SHARD_TOK_RPAREN]"

fun path_toks :: "string list \<Rightarrow> ptoken list" where
  "path_toks [] = []"
| "path_toks [k] = [TId k]"
| "path_toks (k # ks) = TId k # T SHARD_TOK_PERIOD # path_toks ks"

definition bind_toks :: "(string \<times> ptoken list) list \<Rightarrow> ptoken list" where
  "bind_toks bs = concat (map (\<lambda>(k, ts). TId k # T SHARD_TOK_ASSIGN # ts @ [T SHARD_TOK_SEMICOLON]) bs)"

definition attr_toks :: "(string \<times> ptoken list option) list \<Rightarrow> ptoken list" where
  "attr_toks as = concat (map (\<lambda>(k, d). TId k #
     (case d of None \<Rightarrow> [] | Some ts \<Rightarrow> T SHARD_TOK_QUESTIONMARK # ts) @ [T SHARD_TOK_COMMA]) as)"

fun case_toks :: "(ptoken list \<times> ptoken list) list \<Rightarrow> ptoken list" where
  "case_toks [] = []"
| "case_toks [(pt, et)] = pt @ T SHARD_TOK_ARROW # et"
| "case_toks ((pt, et) # cs) = pt @ T SHARD_TOK_ARROW # et @ T SHARD_TOK_SEMICOLON # case_toks cs"

primrec expr_toks :: "shard_expr \<Rightarrow> ptoken list" and pattern_toks :: "shard_pattern \<Rightarrow> ptoken list" where
  "expr_toks (EIdent w) = [TId w]"
| "expr_toks (EInt i) = [(SHARD_TOK_INT, Integer i)]"
| "expr_toks (EFloat i f d) = []"
| "expr_toks (EString s) = [(SHARD_TOK_STRING, Str s)]"
| "expr_toks (EPath s) = [(SHARD_TOK_PATH, Str s)]"
| "expr_toks (EInterpolated_string strings es) = []"
| "expr_toks (EInterpolated_path strings es) = []"
| "expr_toks (EUnop op e) = parens (T (unop_token op) # expr_toks e)"
| "expr_toks (ETernary c a b) = parens (T SHARD_TOK_IF # expr_toks c @ T SHARD_TOK_THEN # expr_toks a @
     T SHARD_TOK_ELSE # expr_toks b)"
| "expr_toks (ECase_of c branches patterns) = parens (T SHARD_TOK_CASE # expr_toks c @ T SHARD_TOK_OF #
     case_toks (zip (map pattern_toks patterns) (map expr_toks branches)))"
| "expr_toks (EBinop op a b) = parens (case op of
       SHARD_EXPR_CALL \<Rightarrow> expr_toks a @ expr_toks b
     | SHARD_EXPR_WITH \<Rightarrow> T SHARD_TOK_WITH # expr_toks a @ T SHARD_TOK_SEMICOLON # expr_toks b
     | SHARD_EXPR_ASSERT \<Rightarrow> T SHARD_TOK_ASSERT # expr_toks a @ T SHARD_TOK_SEMICOLON # expr_toks b
     | _ \<Rightarrow> expr_toks a @ T (the (binop_token op)) # expr_toks b)"
| "expr_toks (EAttr_test e path) = parens (expr_toks e @ T SHARD_TOK_QUESTIONMARK # path_toks path)"
| "expr_toks (EAttr_sel e path d) = parens (expr_toks e @ T SHARD_TOK_PERIOD # path_toks path @
     (case map_option expr_toks d of None \<Rightarrow> [] | Some ts \<Rightarrow> T SHARD_TOK_OR # ts))"
| "expr_toks (EList es) = T SHARD_TOK_LBRACKET # concat (map expr_toks es) @ [T SHARD_TOK_RBRACKET]"
| "expr_toks (ESet r as) = (if r then [T SHARD_TOK_REC] else []) @ T SHARD_TOK_LBRACE #
     bind_toks (map (map_prod id expr_toks) as) @ [T SHARD_TOK_RBRACE]"
| "expr_toks (EFunction arg body) = parens (pattern_toks arg @ T SHARD_TOK_COLON # expr_toks body)"
| "expr_toks (ELet bs e) = parens (T SHARD_TOK_LET # bind_toks (map (map_prod id expr_toks) bs) @ T SHARD_TOK_IN # expr_toks e)"
| "expr_toks (EBuiltin b) = []"
| "expr_toks EUninit = []"
| "pattern_toks (Pattern type ellipsis tc attrs ident const cond) = (case type of
       SHARD_PAT_IDENT \<Rightarrow> TId (the ident) #
         (case map_option expr_toks cond of None \<Rightarrow> [] | Some ts \<Rightarrow> T SHARD_TOK_IF # parens ts)
     | SHARD_PAT_SET \<Rightarrow> T SHARD_TOK_LBRACE # attr_toks (map (map_prod id (map_option expr_toks)) attrs) @
         (if ellipsis then [T SHARD_TOK_ELLIPSE] else []) @ T SHARD_TOK_RBRACE #
         (case ident of None \<Rightarrow> [] | Some x \<Rightarrow> [T SHARD_TOK_AT, TId x])
     | SHARD_PAT_CONSTANT \<Rightarrow> (case map_option expr_toks const of None \<Rightarrow> [] | Some ts \<Rightarrow> ts))"

text \<open>The expressions the printer covers, and the patterns of functions and of \<open>case\<close>.\<close>

definition fun_pattern :: "shard_pattern \<Rightarrow> bool" where
  "fun_pattern pat \<longleftrightarrow> (case pat_type pat of
       SHARD_PAT_IDENT \<Rightarrow> pat_condition pat = None
     | SHARD_PAT_SET \<Rightarrow> pat_attrs pat \<noteq> [] \<or> pat_ellipsis pat
     | SHARD_PAT_CONSTANT \<Rightarrow> False)"

definition const_ok :: "shard_expr \<Rightarrow> u32 \<Rightarrow> bool" where
  "const_ok e tc \<longleftrightarrow> (case e of
       EInt i \<Rightarrow> tc = SHARD_VAL_INT | EString s \<Rightarrow> tc = SHARD_VAL_STRING | EPath s \<Rightarrow> tc = SHARD_VAL_PATH
     | EList es \<Rightarrow> tc = SHARD_VAL_LIST | _ \<Rightarrow> False)"

definition pattern_shape :: "shard_pattern_type \<Rightarrow> bool \<Rightarrow> u32 \<Rightarrow> string list \<Rightarrow> string option \<Rightarrow> shard_expr option \<Rightarrow>
    shard_expr option \<Rightarrow> bool" where
  "pattern_shape type ellipsis tc names ident const cond \<longleftrightarrow> (case type of
       SHARD_PAT_IDENT \<Rightarrow> \<not> ellipsis \<and> tc = SHARD_VAL_ANY \<and> names = [] \<and> (\<exists>x. ident = Some x \<and> ident_ok x) \<and> const = None
     | SHARD_PAT_SET \<Rightarrow> tc = SHARD_VAL_SET OR SHARD_VAL_NULL \<and> (\<forall>k \<in> set names. ident_ok k) \<and>
         (\<forall>x. ident = Some x \<longrightarrow> ident_ok x) \<and> const = None \<and> cond = None
     | SHARD_PAT_CONSTANT \<Rightarrow> \<not> ellipsis \<and> names = [] \<and> ident = None \<and> cond = None \<and>
         (\<exists>e. const = Some e \<and> const_ok e tc))"

primrec printable :: "shard_expr \<Rightarrow> bool" and printable_pattern :: "shard_pattern \<Rightarrow> bool" where
  "printable (EIdent w) = ident_ok w"
| "printable (EInt i) = True"
| "printable (EFloat i f d) = False"
| "printable (EString s) = string_ok s"
| "printable (EPath s) = path_ok s"
| "printable (EInterpolated_string strings es) = False"
| "printable (EInterpolated_path strings es) = False"
| "printable (EUnop op e) = printable e"
| "printable (ETernary c a b) = (printable c \<and> printable a \<and> printable b)"
| "printable (ECase_of c branches patterns) = (printable c \<and> branches \<noteq> [] \<and> length branches = length patterns \<and>
     list_all id (map printable branches) \<and> list_all id (map printable_pattern patterns))"
| "printable (EBinop op a b) = (printable a \<and> printable b)"
| "printable (EAttr_test e path) = (printable e \<and> path \<noteq> [] \<and> (\<forall>k \<in> set path. ident_ok k))"
| "printable (EAttr_sel e path d) = (printable e \<and> path \<noteq> [] \<and> (\<forall>k \<in> set path. ident_ok k) \<and>
     pred_option id (map_option printable d))"
| "printable (EList es) = list_all id (map printable es)"
| "printable (ESet r as) = (distinct (map fst as) \<and> (\<forall>k \<in> set (map fst as). ident_ok k) \<and>
     list_all snd (map (map_prod id printable) as))"
| "printable (EFunction arg body) = (fun_pattern arg \<and> printable_pattern arg \<and> printable body)"
| "printable (ELet bs e) = ((\<forall>k \<in> set (map fst bs). ident_ok k) \<and> list_all snd (map (map_prod id printable) bs) \<and> printable e)"
| "printable (EBuiltin b) = False"
| "printable EUninit = False"
| "printable_pattern (Pattern type ellipsis tc attrs ident const cond) =
     (pattern_shape type ellipsis tc (map fst attrs) ident const cond \<and>
      list_all (pred_option id \<circ> snd) (map (map_prod id (map_option printable)) attrs) \<and>
      pred_option id (map_option printable const) \<and> pred_option id (map_option printable cond))"

subsection \<open>Reading back what was printed\<close>

text \<open>The inside of parentheses.\<close>

definition body_reads :: "nat \<Rightarrow> shard_expr \<Rightarrow> ptoken list \<Rightarrow> bool" where
  "body_reads N e toks \<longleftrightarrow> (\<forall>n \<ge> N. \<forall>E p ts. at E p (toks @ T SHARD_TOK_RPAREN # ts) \<longrightarrow>
     ok E (parse_expr n PREC_LOWEST p) e (T SHARD_TOK_RPAREN # ts))"

lemma prec_simps [simp]:
  "get_precedence SHARD_TOK_RPAREN = 0" "get_precedence SHARD_TOK_SEMICOLON = 0" "get_precedence SHARD_TOK_THEN = 0"
  "get_precedence SHARD_TOK_ELSE = 0" "get_precedence SHARD_TOK_OF = 0" "get_precedence SHARD_TOK_ARROW = 0"
  "get_precedence SHARD_TOK_COMMA = 0" "get_precedence SHARD_TOK_OR = 0" "get_precedence SHARD_TOK_RBRACE = 0"
  "get_precedence SHARD_TOK_EOF = 0" "get_precedence SHARD_TOK_RBRACKET = 0"
  "get_precedence SHARD_TOK_QUESTIONMARK = 11" "get_precedence SHARD_TOK_PERIOD = 16"
  by (simp_all add: get_precedence_def token_terminates_expr_def)

lemma follow_simps [simp]:
  "follow []" "follow ((type, v) # ts) \<longleftrightarrow>
     type \<notin> {SHARD_TOK_COLON, SHARD_TOK_DOUBLE_COLON, SHARD_TOK_AT, SHARD_TOK_INTERPOLATION}"
  by (simp_all add: follow_def)

lemma parens_reads:
  assumes "body_reads N e toks"
  shows "prefix_reads (Suc N) e (parens toks)"
  unfolding prefix_reads_def
proof (intro allI impI)
  fix n E p ts
  assume n: "Suc N \<le> n" and p: "at E p (parens toks @ ts)" and f: "follow ts"
  obtain m where m: "n = Suc m" "N \<le> m" using n by (cases n) auto
  have p': "at E p (T SHARD_TOK_LPAREN # toks @ T SHARD_TOK_RPAREN # ts)" using p by (simp add: parens_def)
  have b: "\<And>p. at E p (toks @ T SHARD_TOK_RPAREN # ts) \<Longrightarrow> ok E (parse_expr m 0 p) e (T SHARD_TOK_RPAREN # ts)"
    using assms m(2) by (simp add: body_reads_def)
  have "ok E (parse_compound (parse_expr m) p) e ts"
    unfolding parse_compound_def
    by (rule advance_step [OF p'], rule ok_step [OF b], assumption, rule consume_step, assumption) (simp add: ok_return)
  then show "ok E (parse_prefix n p) e ts"
    using at_type [OF p'] by (simp add: m(1) parse_prefix.simps parse_prefix_expr_def)
qed

lemma prefix_body:
  assumes "\<And>m E p ts. N \<le> m \<Longrightarrow> at E p (toks @ T SHARD_TOK_RPAREN # ts) \<Longrightarrow>
    ok E (parse_prefix_expr m (parse_expr m) (parse_prefix m) p) e (T SHARD_TOK_RPAREN # ts)"
  shows "body_reads (N + 2) e toks"
  unfolding body_reads_def
proof (intro allI impI)
  fix n E p ts
  assume n: "N + 2 \<le> n" and p: "at E p (toks @ T SHARD_TOK_RPAREN # ts)"
  have "n = Suc (Suc (n - 2))" using n by linarith
  then obtain m where m: "n = Suc (Suc m)" "N \<le> m" using n by fastforce
  have "ok E (parse_prefix (Suc m) p) e (T SHARD_TOK_RPAREN # ts)"
    unfolding parse_prefix.simps using assms [OF m(2) p] .
  then show "ok E (parse_expr n 0 p) e (T SHARD_TOK_RPAREN # ts)"
    unfolding m(1) by (rule expr_of_prefix) simp
qed

lemma unop_body:
  assumes "prefix_reads N e toks"
  shows "body_reads (N + 2 + 2) (EUnop op e) (T (unop_token op) # toks)"
proof (rule prefix_body)
  fix m E p ts
  assume m: "N + 2 \<le> m" and p: "at E p ((T (unop_token op) # toks) @ T SHARD_TOK_RPAREN # ts)"
  note r = reads_prefix [OF assms m]
  have p': "at E p (T (unop_token op) # toks @ T SHARD_TOK_RPAREN # ts)" using p by simp
  have "ok E (parse_unary_op op prec (parse_expr m) p) (EUnop op e) (T SHARD_TOK_RPAREN # ts)" for prec
    unfolding parse_unary_op_def
    by (rule advance_step [OF p'], rule reads_step [OF r], assumption) (simp_all add: ok_return)
  then show "ok E (parse_prefix_expr m (parse_expr m) (parse_prefix m) p) (EUnop op e) (T SHARD_TOK_RPAREN # ts)"
    using at_type [OF p'] by (cases op) (simp_all add: parse_prefix_expr_def unop_token_def)
qed

lemma ternary_body:
  assumes "prefix_reads N c tc" "prefix_reads N a ta" "prefix_reads N b tb"
  shows "body_reads (N + 2 + 2) (ETernary c a b)
    (T SHARD_TOK_IF # tc @ T SHARD_TOK_THEN # ta @ T SHARD_TOK_ELSE # tb)"
proof (rule prefix_body)
  fix m E p ts
  assume m: "N + 2 \<le> m"
    and p: "at E p ((T SHARD_TOK_IF # tc @ T SHARD_TOK_THEN # ta @ T SHARD_TOK_ELSE # tb) @ T SHARD_TOK_RPAREN # ts)"
  note r = assms [THEN reads_prefix, OF m]
  have p': "at E p (T SHARD_TOK_IF # tc @ T SHARD_TOK_THEN # ta @ T SHARD_TOK_ELSE # tb @ T SHARD_TOK_RPAREN # ts)" using p by simp
  have "ok E (parse_ternary (parse_expr m) p) (ETernary c a b) (T SHARD_TOK_RPAREN # ts)"
    unfolding parse_ternary_def
    by (rule advance_step [OF p'], rule reads_step [OF r(1)], assumption, simp, simp, rule consume_step, assumption,
        rule reads_step [OF r(2)], assumption, simp, simp, rule consume_step, assumption,
        rule reads_step [OF r(3)], assumption, simp, simp, simp add: ok_return)
  then show "ok E (parse_prefix_expr m (parse_expr m) (parse_prefix m) p) (ETernary c a b) (T SHARD_TOK_RPAREN # ts)"
    using at_type [OF p'] by (simp add: parse_prefix_expr_def)
qed

lemma stmt_body:
  assumes "prefix_reads N a ta" "prefix_reads N b tb" "(op, type) \<in> {(SHARD_EXPR_WITH, SHARD_TOK_WITH), (SHARD_EXPR_ASSERT, SHARD_TOK_ASSERT)}"
  shows "body_reads (N + 2 + 2) (EBinop op a b) (T type # ta @ T SHARD_TOK_SEMICOLON # tb)"
proof (rule prefix_body)
  fix m E p ts
  assume m: "N + 2 \<le> m" and p: "at E p ((T type # ta @ T SHARD_TOK_SEMICOLON # tb) @ T SHARD_TOK_RPAREN # ts)"
  note r = assms(1,2) [THEN reads_prefix, OF m]
  have p': "at E p (T type # ta @ T SHARD_TOK_SEMICOLON # tb @ T SHARD_TOK_RPAREN # ts)" using p by simp
  have "ok E (parse_stmt op (parse_expr m) p) (EBinop op a b) (T SHARD_TOK_RPAREN # ts)"
    unfolding parse_stmt_def
    by (rule advance_step [OF p'], rule reads_step [OF r(1)], assumption, simp, simp, rule consume_step, assumption,
        rule reads_step [OF r(2)], assumption, simp, simp, simp add: ok_return)
  then show "ok E (parse_prefix_expr m (parse_expr m) (parse_prefix m) p) (EBinop op a b) (T SHARD_TOK_RPAREN # ts)"
    using at_type [OF p'] assms(3) by (auto simp: parse_prefix_expr_def parse_with_def parse_assert_def)
qed

lemma fuel3: "N + 3 \<le> n \<Longrightarrow> \<exists>j. n = Suc (Suc (Suc j)) \<and> N \<le> j"
  by (rule exI [of _ "n - 3"]) linarith

lemma ident_reads: "prefix_reads 1 (EIdent w) [TId w]"
  unfolding prefix_reads_def
proof (intro allI impI)
  fix n :: nat and E p ts
  assume n: "1 \<le> n" and p: "at E p ([TId w] @ ts)" and f: "follow ts"
  obtain m where m: "n = Suc m" using n by (cases n) auto
  have p': "at E p (TId w # ts)" using p by simp
  have "ok E (parse_ident m (parse_expr m) p) (EIdent w) ts"
    unfolding parse_ident_def at_string [OF p'] bind.bind_lunit
    by (rule advance_step [OF p']) (use f in \<open>auto simp: at_type follow_def ok_return\<close>)
  then show "ok E (parse_prefix n p) (EIdent w) ts"
    using at_type [OF p'] by (simp add: m parse_prefix.simps parse_prefix_expr_def)
qed

lemma int_reads: "prefix_reads 1 (EInt i) [(SHARD_TOK_INT, Integer i)]"
  unfolding prefix_reads_def
proof (intro allI impI)
  fix n :: nat and E p ts
  assume n: "1 \<le> n" and p: "at E p ([(SHARD_TOK_INT, Integer i)] @ ts)"
  obtain m where m: "n = Suc m" using n by (cases n) auto
  have p': "at E p ((SHARD_TOK_INT, Integer i) # ts)" using p by simp
  have "ok E (advance p \<bind> (\<lambda>(err, p1). Some (err, EInt i, p1))) (EInt i) ts"
    by (rule advance_step [OF p']) (simp add: ok_return)
  then show "ok E (parse_prefix n p) (EInt i) ts"
    using at_type [OF p'] at_value [OF p'] by (simp add: m parse_prefix.simps parse_prefix_expr_def)
qed

lemma escape_loop_plain: "CHR 0x5C \<notin> set s \<Longrightarrow> escape_loop s err str p = Some (err, str @ s, p)"
  by (induction s arbitrary: str) auto

lemma string_reads:
  assumes "CHR 0x5C \<notin> set s"
  shows "prefix_reads 1 (if is_path then EPath s else EString s) [(if is_path then SHARD_TOK_PATH else SHARD_TOK_STRING, Str s)]"
  unfolding prefix_reads_def
proof (intro allI impI)
  fix n :: nat and E p ts
  let ?e = "if is_path then EPath s else EString s" and ?t = "if is_path then SHARD_TOK_PATH else SHARD_TOK_STRING"
  assume n: "1 \<le> n" and p: "at E p ([(?t, Str s)] @ ts)" and f: "follow ts"
  obtain m where m: "n = Suc m" using n by (cases n) auto
  have p': "at E p ((?t, Str s) # ts)" using p by simp
  have esc: "escaped_string ?t p = Some (0, s, p)"
    using at_type [OF p'] at_string [OF p'] assms by (simp add: escaped_string_def escape_loop_plain)
  have "ok E (parse_string_lit m (parse_expr m) is_path p) ?e ts"
    unfolding parse_string_lit_def Let_def esc
    by (simp only: bind.bind_lunit prod.case, rule advance_step [OF p'])
      (use f in \<open>auto simp: at_type follow_def ok_return\<close>)
  then show "ok E (parse_prefix n p) ?e ts"
    using at_type [OF p'] by (auto simp: m parse_prefix.simps parse_prefix_expr_def)
qed

lemma binop_token_props:
  assumes "binop_token op = Some type"
  shows "\<exists>prec. map_of binops type = Some (op, prec) \<and> get_precedence type = prec \<and> 0 < prec"
    and "follow (T type # ts)"
  using assms
  by (cases op; simp add: binop_token_def binops_def get_precedence_def follow_def)+

lemma binop_body:
  assumes "prefix_reads N a ta" "prefix_reads N b tb" "binop_token op = Some type"
  shows "body_reads (N + 3) (EBinop op a b) (ta @ T type # tb)"
  unfolding body_reads_def
proof (intro allI impI)
  fix n E p ts
  assume n: "N + 3 \<le> n" and p: "at E p ((ta @ T type # tb) @ T SHARD_TOK_RPAREN # ts)"
  obtain j where j: "n = Suc (Suc (Suc j))" "N \<le> j" using fuel3 [OF n] by blast
  obtain prec where prec: "map_of binops type = Some (op, prec)" "get_precedence type = prec" "0 < prec"
    using binop_token_props(1) [OF assms(3)] by blast
  show "ok E (parse_expr n 0 p) (EBinop op a b) (T SHARD_TOK_RPAREN # ts)"
    unfolding j(1)
  proof (rule infix_reads [OF assms(1)])
    show "at E p (ta @ T type # tb @ T SHARD_TOK_RPAREN # ts)" using p by simp
    show "follow (T type # tb @ T SHARD_TOK_RPAREN # ts)" using binop_token_props(2) [OF assms(3)] .
    fix p'
    assume p': "at E p' (T type # tb @ T SHARD_TOK_RPAREN # ts)"
    have r: "reads (Suc (Suc j)) b tb" using n j by (intro reads_prefix [OF assms(2)]) simp
    have "ok E (parse_binop op prec (parse_expr (Suc (Suc j))) a p') (EBinop op a b) (T SHARD_TOK_RPAREN # ts)"
      unfolding parse_binop_def
      by (rule advance_step [OF p'], rule reads_step [OF r], assumption) (simp_all add: ok_return)
    then show "ok E (parse_infix_expr (Suc j) (parse_expr (Suc (Suc j))) a p') (EBinop op a b) (T SHARD_TOK_RPAREN # ts)"
      using at_type [OF p'] prec by (simp add: parse_infix_expr_def)
  qed (use n j prec in simp_all)
qed

definition starters :: "shard_token_type set" where
  "starters = {SHARD_TOK_IDENT, SHARD_TOK_INT, SHARD_TOK_STRING, SHARD_TOK_PATH, SHARD_TOK_LPAREN, SHARD_TOK_LBRACKET,
     SHARD_TOK_LBRACE, SHARD_TOK_REC}"

lemma starters_type:
  assumes "type \<in> starters"
  shows "get_precedence type = PREC_CALL \<and> map_of binops type = None \<and> \<not> token_terminates_expr type \<and>
    type \<notin> {SHARD_TOK_COLON, SHARD_TOK_DOUBLE_COLON, SHARD_TOK_AT, SHARD_TOK_INTERPOLATION, SHARD_TOK_PERIOD,
      SHARD_TOK_QUESTIONMARK, SHARD_TOK_RBRACKET, SHARD_TOK_EOF}"
  using assms unfolding starters_def
  by (elim insertE emptyE) (simp_all add: get_precedence_def token_terminates_expr_def binops_def)

lemma starters_props:
  assumes "head ts \<in> starters"
  shows "get_precedence (head ts) = PREC_CALL" "follow ts" "map_of binops (head ts) = None"
    "\<not> token_terminates_expr (head ts)" "head ts \<noteq> SHARD_TOK_PERIOD" "head ts \<noteq> SHARD_TOK_QUESTIONMARK"
    "head ts \<noteq> SHARD_TOK_RBRACKET" "head ts \<noteq> SHARD_TOK_EOF"
  using starters_type [OF assms] unfolding follow_def by simp_all

lemma call_body:
  assumes "prefix_reads N a ta" "prefix_reads N b tb" "\<And>ts. head (tb @ ts) \<in> starters"
  shows "body_reads (N + 3) (EBinop SHARD_EXPR_CALL a b) (ta @ tb)"
  unfolding body_reads_def
proof (intro allI impI)
  fix n E p ts
  assume n: "N + 3 \<le> n" and p: "at E p ((ta @ tb) @ T SHARD_TOK_RPAREN # ts)"
  obtain j where j: "n = Suc (Suc (Suc j))" "N \<le> j" using fuel3 [OF n] by blast
  note st = starters_props [OF assms(3) [of "T SHARD_TOK_RPAREN # ts"]]
  show "ok E (parse_expr n 0 p) (EBinop SHARD_EXPR_CALL a b) (T SHARD_TOK_RPAREN # ts)"
    unfolding j(1)
  proof (rule infix_reads [OF assms(1)])
    show "at E p (ta @ tb @ T SHARD_TOK_RPAREN # ts)" using p by simp
    fix p'
    assume p': "at E p' (tb @ T SHARD_TOK_RPAREN # ts)"
    have r: "reads (Suc (Suc j)) b tb" using n j by (intro reads_prefix [OF assms(2)]) simp
    have "ok E (parse_call (parse_expr (Suc (Suc j))) a p') (EBinop SHARD_EXPR_CALL a b) (T SHARD_TOK_RPAREN # ts)"
      unfolding parse_call_def
      by (rule reads_step [OF r p']) (simp_all add: ok_return)
    then show "ok E (parse_infix_expr (Suc j) (parse_expr (Suc (Suc j))) a p') (EBinop SHARD_EXPR_CALL a b) (T SHARD_TOK_RPAREN # ts)"
      using at_type [OF p'] st by (simp add: parse_infix_expr_def)
  qed (use n j st in simp_all)
qed

lemma attribute_path_reads:
  assumes "ks \<noteq> []" "length ks \<le> n" "at E p (t # path_toks ks @ ts)" "head ts \<noteq> SHARD_TOK_PERIOD"
  shows "ok E (parse_attribute_path n 0 path p) (path @ ks) ts"
  using assms
proof (induction ks arbitrary: n p t path rule: path_toks.induct)
  case (2 k)
  then obtain m where n: "n = Suc m" by (cases n) auto
  have p: "at E p (t # TId k # ts)" using 2 by simp
  show ?case unfolding n parse_attribute_path.simps Let_def
    by (rule advance_step [OF p], rule consume_step, assumption) (use 2 in \<open>simp add: at_type at_string ok_return\<close>)
next
  case (3 k k' ks)
  then obtain m where n: "n = Suc m" by (cases n) auto
  have p: "at E p (t # TId k # T SHARD_TOK_PERIOD # path_toks (k' # ks) @ ts)" using 3 by simp
  have IH: "\<And>p t path. at E p (t # path_toks (k' # ks) @ ts) \<Longrightarrow>
      ok E (parse_attribute_path m 0 path p) (path @ k' # ks) ts" using 3 n by simp
  show ?case unfolding n parse_attribute_path.simps Let_def
    by (rule advance_step [OF p], rule consume_step, assumption)
      (use IH [of _ "T SHARD_TOK_PERIOD" "path @ [k]"] in \<open>simp add: at_type at_string\<close>)
qed simp

lemma attr_test_body:
  assumes "prefix_reads N a ta" "path \<noteq> []"
  shows "body_reads (N + length path + 3) (EAttr_test a path) (ta @ T SHARD_TOK_QUESTIONMARK # path_toks path)"
  unfolding body_reads_def
proof (intro allI impI)
  fix n E p ts
  assume n: "N + length path + 3 \<le> n"
    and p: "at E p ((ta @ T SHARD_TOK_QUESTIONMARK # path_toks path) @ T SHARD_TOK_RPAREN # ts)"
  obtain j where j: "n = Suc (Suc (Suc j))" "N + length path \<le> j" using fuel3 [OF n] by blast
  show "ok E (parse_expr n 0 p) (EAttr_test a path) (T SHARD_TOK_RPAREN # ts)"
    unfolding j(1)
  proof (rule infix_reads [OF assms(1)])
    show "at E p (ta @ T SHARD_TOK_QUESTIONMARK # path_toks path @ T SHARD_TOK_RPAREN # ts)" using p by simp
    fix p'
    assume p': "at E p' (T SHARD_TOK_QUESTIONMARK # path_toks path @ T SHARD_TOK_RPAREN # ts)"
    have r: "ok E (parse_attribute_path (Suc j) 0 [] p') ([] @ path) (T SHARD_TOK_RPAREN # ts)"
      using j by (intro attribute_path_reads [OF assms(2) _ p']) simp_all
    have "ok E (parse_attribute_test (Suc j) a p') (EAttr_test a path) (T SHARD_TOK_RPAREN # ts)"
      unfolding parse_attribute_test_def by (rule ok_step [OF r]) (simp add: ok_return)
    then show "ok E (parse_infix_expr (Suc j) (parse_expr (Suc (Suc j))) a p') (EAttr_test a path) (T SHARD_TOK_RPAREN # ts)"
      using at_type [OF p'] by (simp add: parse_infix_expr_def binops_def)
  qed (use j in simp_all)
qed

lemma attr_sel_body:
  assumes "prefix_reads N a ta" "path \<noteq> []" "\<And>e. d = Some e \<Longrightarrow> prefix_reads N e (f e)"
  shows "body_reads (N + length path + 3) (EAttr_sel a path d) (ta @ T SHARD_TOK_PERIOD # path_toks path @
    (case map_option f d of None \<Rightarrow> [] | Some t \<Rightarrow> T SHARD_TOK_OR # t))"
  unfolding body_reads_def
proof (intro allI impI)
  fix n E p ts
  let ?d = "case map_option f d of None \<Rightarrow> [] | Some t \<Rightarrow> T SHARD_TOK_OR # t" and ?r = "T SHARD_TOK_RPAREN # ts"
  assume n: "N + length path + 3 \<le> n"
    and p: "at E p ((ta @ T SHARD_TOK_PERIOD # path_toks path @ ?d) @ ?r)"
  obtain j where j: "n = Suc (Suc (Suc j))" "N + length path \<le> j" using fuel3 [OF n] by blast
  show "ok E (parse_expr n 0 p) (EAttr_sel a path d) ?r"
    unfolding j(1)
  proof (rule infix_reads [OF assms(1)])
    show "at E p (ta @ T SHARD_TOK_PERIOD # path_toks path @ ?d @ ?r)" using p by simp
    fix p'
    assume p': "at E p' (T SHARD_TOK_PERIOD # path_toks path @ ?d @ ?r)"
    have r: "ok E (parse_attribute_path (Suc j) 0 [] p') ([] @ path) (?d @ ?r)"
      using j by (intro attribute_path_reads [OF assms(2) _ p']) (simp_all split: option.split)
    have "ok E (parse_attribute_selection (Suc j) (parse_expr (Suc (Suc j))) a p') (EAttr_sel a path d) ?r"
    proof (cases d)
      case None
      then show ?thesis unfolding parse_attribute_selection_def
        by (intro ok_step [OF r]) (simp add: at_type ok_return)
    next
      case (Some e)
      have re: "reads (Suc (Suc j)) e (f e)" using j by (intro reads_prefix [OF assms(3) [OF Some]]) simp
      show ?thesis unfolding parse_attribute_selection_def
      proof (rule ok_step [OF r])
        fix p2
        assume p2: "at E p2 (?d @ ?r)"
        then have q: "token_type p2 = SHARD_TOK_OR" "at E p2 (T SHARD_TOK_OR # f e @ ?r)"
          using at_type [OF p2] Some by simp_all
        show "ok E (if token_type p2 = SHARD_TOK_OR
            then advance p2 \<bind> (\<lambda>(e1, p2). parse_expr (Suc (Suc j)) 16 p2 \<bind>
              (\<lambda>(e2, dflt, p3). Some (any_err [0, e1, e2], EAttr_sel a ([] @ path) (Some dflt), p3)))
            else Some (0, EAttr_sel a ([] @ path) None, p2)) (EAttr_sel a path d) ?r"
          by (simp only: q(1) simp_thms if_True, rule advance_step [OF q(2)], rule reads_step [OF re], assumption)
            (simp_all add: Some ok_return)
      qed
    qed
    then show "ok E (parse_infix_expr (Suc j) (parse_expr (Suc (Suc j))) a p') (EAttr_sel a path d) ?r"
      using at_type [OF p'] by (simp add: parse_infix_expr_def binops_def)
  qed (use j in simp_all)
qed

lemma list_loop_reads:
  assumes "\<forall>e \<in> set es. reads n e (f e) \<and> (\<forall>ts. head (f e @ ts) \<in> starters)" "length es < k"
    "at E p (concat (map f es) @ T SHARD_TOK_RBRACKET # ts)"
  shows "ok E (list_loop k (parse_expr n) 0 acc p) (acc @ es) ts"
  using assms
proof (induction es arbitrary: k p acc)
  case Nil
  then obtain k' where k: "k = Suc k'" by (cases k) auto
  have p: "at E p (T SHARD_TOK_RBRACKET # ts)" using Nil by simp
  show ?case unfolding k list_loop.simps
    using at_type [OF p] by (simp, intro advance_step [OF p]) (simp add: ok_return)
next
  case (Cons e es)
  then obtain k' where k: "k = Suc k'" by (cases k) auto
  let ?r = "concat (map f es) @ T SHARD_TOK_RBRACKET # ts"
  have p: "at E p (f e @ ?r)" using Cons by simp
  have h: "head (f e @ ?r) \<in> starters" using Cons.prems(1) by simp
  have r: "head ?r \<in> starters \<or> head ?r = SHARD_TOK_RBRACKET" using Cons.prems(1) by (cases es) simp_all
  have fol: "follow ?r" using r starters_props(2) [of ?r] by (auto simp: follow_def)
  have prec: "get_precedence (head ?r) \<le> PREC_LIST_LITERAL" using r starters_props(1) [of ?r] by auto
  have IH: "\<And>p acc. at E p ?r \<Longrightarrow> ok E (list_loop k' (parse_expr n) 0 acc p) (acc @ es) ts"
    using Cons.IH Cons.prems(1,2) k by simp
  show ?case unfolding k list_loop.simps
    using at_type [OF p] starters_props(7,8) [OF h] Cons.prems(1)
    by (simp, intro reads_step [OF _ p fol prec]) (auto dest: IH [of _ "acc @ [e]"])
qed

lemma list_reads:
  assumes "\<forall>e \<in> set es. prefix_reads N e (f e) \<and> (\<forall>ts. head (f e @ ts) \<in> starters)"
  shows "prefix_reads (N + 3 + length es) (EList es) (T SHARD_TOK_LBRACKET # concat (map f es) @ [T SHARD_TOK_RBRACKET])"
  unfolding prefix_reads_def
proof (intro allI impI)
  fix n :: nat and E p ts
  assume n: "N + 3 + length es \<le> n"
    and p: "at E p ((T SHARD_TOK_LBRACKET # concat (map f es) @ [T SHARD_TOK_RBRACKET]) @ ts)" and f: "follow ts"
  obtain m where m: "n = Suc m" "N + 2 + length es \<le> m" using n by (cases n) auto
  have p': "at E p (T SHARD_TOK_LBRACKET # concat (map f es) @ T SHARD_TOK_RBRACKET # ts)" using p by simp
  have rs: "\<forall>e \<in> set es. reads m e (f e) \<and> (\<forall>ts. head (f e @ ts) \<in> starters)"
    using assms m reads_prefix by fastforce
  have "ok E (parse_list m (parse_expr m) p) (EList es) ts"
    unfolding parse_list_def
    by (rule advance_step [OF p'], rule ok_step [OF list_loop_reads [OF rs]])
      (use m in \<open>auto intro: ok_return\<close>)
  then show "ok E (parse_prefix n p) (EList es) ts"
    using at_type [OF p'] by (simp add: m parse_prefix.simps parse_prefix_expr_def)
qed

text \<open>The bindings of a set or a \<open>let\<close>, printed with \<open>f\<close>.\<close>

definition binds :: "(shard_expr \<Rightarrow> ptoken list) \<Rightarrow> (string \<times> shard_expr) list \<Rightarrow> ptoken list" where
  "binds f bs = bind_toks (map (map_prod id f) bs)"

lemma binds_simps [simp]:
  "binds f [] = []" "binds f ((k, e) # bs) = TId k # T SHARD_TOK_ASSIGN # f e @ T SHARD_TOK_SEMICOLON # binds f bs"
  by (simp_all add: binds_def bind_toks_def)

lemma let_loop_reads:
  assumes "\<forall>b \<in> set bs. reads n (snd b) (f (snd b))" "length bs < k"
    "at E p (binds f bs @ T SHARD_TOK_IN # ts)"
  shows "ok E (let_loop k (parse_expr n) 0 acc p) (acc @ bs) (T SHARD_TOK_IN # ts)"
  using assms
proof (induction bs arbitrary: k p acc)
  case Nil
  then obtain k' where k: "k = Suc k'" by (cases k) auto
  have p: "at E p (T SHARD_TOK_IN # ts)" using Nil by simp
  then show ?case unfolding k let_loop.simps using at_type [OF p] by (simp add: ok_return)
next
  case (Cons b bs)
  obtain w e where b: "b = (w, e)" by (cases b)
  obtain k' where k: "k = Suc k'" using Cons by (cases k) auto
  let ?r = "binds f bs @ T SHARD_TOK_IN # ts"
  have p: "at E p (TId w # T SHARD_TOK_ASSIGN # f e @ T SHARD_TOK_SEMICOLON # ?r)" using Cons b by simp
  have re: "reads n e (f e)" using Cons.prems(1) b by simp
  have one: "ok E (parse_let_binding (parse_expr n) p) b ?r"
    unfolding parse_let_binding_def at_string [OF p] option.case b
    by (rule consume_step [OF p], rule consume_step, assumption, rule reads_step [OF re], assumption, simp, simp,
        rule consume_step, assumption) (simp add: ok_return)
  show ?case unfolding k let_loop.simps
    using at_type [OF p] Cons.IH [of k' _ "acc @ [b]"] Cons.prems(1,2) k by (simp, intro ok_step [OF one]) simp
qed

lemma let_body:
  assumes "\<forall>b \<in> set bs. prefix_reads N (snd b) (f (snd b))" "prefix_reads N e te"
  shows "body_reads (N + 3 + length bs + 2) (ELet bs e) (T SHARD_TOK_LET # binds f bs @ T SHARD_TOK_IN # te)"
proof (rule prefix_body)
  fix m E p ts
  let ?b = "binds f bs" and ?r = "T SHARD_TOK_RPAREN # ts"
  assume m: "N + 3 + length bs \<le> m" and p: "at E p ((T SHARD_TOK_LET # ?b @ T SHARD_TOK_IN # te) @ ?r)"
  have p': "at E p (T SHARD_TOK_LET # ?b @ T SHARD_TOK_IN # te @ ?r)" using p by simp
  have rb: "\<forall>b \<in> set bs. reads m (snd b) (f (snd b))" using assms(1) m reads_prefix by fastforce
  have re: "reads m e te" using m by (intro reads_prefix [OF assms(2)]) simp
  have "ok E (parse_let m (parse_expr m) p) (ELet bs e) ?r"
    unfolding parse_let_def
    by (rule advance_step [OF p'], rule ok_step [OF let_loop_reads [OF rb]], use m in simp, assumption,
        rule advance_step, assumption, rule reads_step [OF re], assumption, simp, simp, simp add: ok_return)
  then show "ok E (parse_prefix_expr m (parse_expr m) (parse_prefix m) p) (ELet bs e) ?r"
    using at_type [OF p'] by (simp add: parse_prefix_expr_def)
qed

lemma set_binding_reads:
  assumes "reads n e t" "at E p (T SHARD_TOK_ASSIGN # t @ T SHARD_TOK_SEMICOLON # ts)"
  shows "ok E (set_binding (parse_expr n) p) (Some e) ts"
  unfolding set_binding_def
  by (rule consume_step [OF assms(2)], simp, rule reads_step [OF assms(1)], assumption, simp, simp, simp,
      rule consume_step, assumption) (simp add: ok_return)

lemma set_loop_reads:
  assumes "\<forall>b \<in> set as. reads n (snd b) (f (snd b))" "length as + 1 < k" "distinct (map fst (acc @ as))"
    "at E p (binds f as @ T SHARD_TOK_RBRACE # ts)"
  shows "ok E (set_loop k (parse_expr n) r first 0 acc p) (ESet r (acc @ as)) ts"
  using assms
proof (induction as arbitrary: k p acc first)
  case Nil
  then obtain k' where k: "k = Suc k'" by (cases k) auto
  have p: "at E p (T SHARD_TOK_RBRACE # ts)" using Nil by simp
  show ?case unfolding k set_loop.simps
    using at_type [OF p] by (simp, intro advance_step [OF p]) (simp add: ok_return)
next
  case (Cons b as)
  obtain w e where b: "b = (w, e)" by (cases b)
  obtain k' where k: "k = Suc (Suc k')" using Cons.prems(2) by (cases k; cases "k - 1") auto
  let ?r = "binds f as @ T SHARD_TOK_RBRACE # ts"
  let ?s = "T SHARD_TOK_ASSIGN # f e @ T SHARD_TOK_SEMICOLON # ?r"
  have p: "at E p (TId w # ?s)" using Cons b by simp
  have re: "reads n e (f e)" using Cons.prems(1) b by simp
  have new: "map_of acc w = None" using Cons.prems(3) b by (auto simp: map_of_eq_None_iff)
  obtain p1 where p1: "consume SHARD_TOK_IDENT p = Some (0, p1)" "at E p1 ?s" using consume_at [OF p] by blast
  have one: "ok E (set_binding (parse_expr n) p1) (Some e) ?r" by (rule set_binding_reads [OF re p1(2)])
  have IH: "\<And>p. at E p ?r \<Longrightarrow> ok E (set_loop (Suc k') (parse_expr n) r False 0 (acc @ [b]) p) (ESet r ((acc @ [b]) @ as)) ts"
    using Cons.prems(1-3) k by (intro Cons.IH) auto
  have "ok E (set_binding (parse_expr n) p1 \<bind> (\<lambda>(e4, v, p4). case v of
        None \<Rightarrow> advance p4 \<bind> (\<lambda>(e5, p5). Some (EINVAL, ESet r acc, p5))
      | Some e \<Rightarrow> set_loop (Suc k') (parse_expr n) r False 0 (put_at [] w e acc) p4)) (ESet r (acc @ b # as)) ts"
    by (rule ok_step [OF one]) (use IH b new in \<open>simp add: attrs_put_def\<close>)
  then show ?case
    unfolding k set_loop.simps(2) [of "Suc k'"]
    using at_type [OF p] at_type [OF p1(2)] p1(1) at_string [OF p] new by simp
qed

lemma set_reads:
  assumes "\<forall>b \<in> set as. prefix_reads N (snd b) (f (snd b))" "distinct (map fst as)"
  shows "prefix_reads (N + 3 + length as) (ESet r as)
    ((if r then [T SHARD_TOK_REC] else []) @ T SHARD_TOK_LBRACE # binds f as @ [T SHARD_TOK_RBRACE])"
  unfolding prefix_reads_def
proof (intro allI impI)
  fix n :: nat and E p ts
  let ?b = "binds f as"
  let ?s = "T SHARD_TOK_LBRACE # ?b @ T SHARD_TOK_RBRACE # ts"
  assume n: "N + 3 + length as \<le> n"
    and p: "at E p (((if r then [T SHARD_TOK_REC] else []) @ T SHARD_TOK_LBRACE # ?b @ [T SHARD_TOK_RBRACE]) @ ts)"
  obtain m where m: "n = Suc m" "N + 2 + length as \<le> m" using n by (cases n) auto
  have rb: "\<forall>b \<in> set as. reads m (snd b) (f (snd b))" using assms(1) m reads_prefix by fastforce
  obtain p1 where p1: "(if r then map_option snd (advance p) else Some p) = Some p1" "at E p1 ?s"
    using advance_at [of E p "T SHARD_TOK_REC" ?s] p by (cases r) auto
  have "ok E (parse_set m (parse_expr m) r p) (ESet r ([] @ as)) ts"
    unfolding parse_set_def p1(1) bind.bind_lunit
    by (rule consume_step [OF p1(2)], rule set_loop_reads [OF rb]) (use m assms(2) in simp_all)
  then show "ok E (parse_prefix n p) (ESet r as) ts"
    using at_type [OF p] by (cases r) (simp_all add: m parse_prefix.simps parse_prefix_expr_def)
qed

text \<open>The attributes of a set pattern, printed with \<open>f\<close>.\<close>

definition defaults :: "(shard_expr \<Rightarrow> ptoken list) \<Rightarrow> shard_expr option \<Rightarrow> ptoken list" where
  "defaults f d = (case d of None \<Rightarrow> [] | Some e \<Rightarrow> T SHARD_TOK_QUESTIONMARK # f e)"

definition pattern_attrs :: "(shard_expr \<Rightarrow> ptoken list) \<Rightarrow> (string \<times> shard_expr option) list \<Rightarrow> ptoken list" where
  "pattern_attrs f as = attr_toks (map (map_prod id (map_option f)) as)"

lemma pattern_attrs_simps [simp]:
  "pattern_attrs f [] = []"
  "pattern_attrs f ((k, d) # as) = TId k # defaults f d @ T SHARD_TOK_COMMA # pattern_attrs f as"
  by (auto simp: pattern_attrs_def attr_toks_def defaults_def split: option.split)

definition ellipsis_toks :: "bool \<Rightarrow> ptoken list" where
  "ellipsis_toks el = (if el then [T SHARD_TOK_ELLIPSE] else [])"

definition attr_reads :: "nat \<Rightarrow> (shard_expr \<Rightarrow> ptoken list) \<Rightarrow> (string \<times> shard_expr option) list \<Rightarrow> bool" where
  "attr_reads n f as \<longleftrightarrow> (\<forall>a \<in> set as. \<forall>e. snd a = Some e \<longrightarrow> reads n e (f e))"

lemma attr_default_reads:
  assumes "\<forall>e. d = Some e \<longrightarrow> reads n e (f e)" "at E p (defaults f d @ T SHARD_TOK_COMMA # ts)"
  shows "ok E (attr_default (parse_expr n) 0 p) d (T SHARD_TOK_COMMA # ts)"
proof (cases d)
  case None
  then have "token_type p \<noteq> SHARD_TOK_QUESTIONMARK" "at E p (T SHARD_TOK_COMMA # ts)"
    using assms(2) at_type [OF assms(2)] by (simp_all add: defaults_def)
  then show ?thesis using None by (simp add: attr_default_def ok_return)
next
  case (Some e)
  then have p: "at E p (T SHARD_TOK_QUESTIONMARK # f e @ T SHARD_TOK_COMMA # ts)" using assms(2) by (simp add: defaults_def)
  have r: "reads n e (f e)" using assms(1) Some by simp
  have "ok E (advance p \<bind> (\<lambda>(e, p1). parse_expr n 0 p1 \<bind> (\<lambda>(e2, w, p2).
      Some (if e2 \<noteq> 0 then e2 else if e \<noteq> 0 then EINVAL else 0, Some w, p2)))) d (T SHARD_TOK_COMMA # ts)"
    by (rule advance_step [OF p], rule reads_step [OF r], assumption) (simp_all add: Some ok_return)
  then show ?thesis using at_type [OF p] by (simp add: attr_default_def)
qed

lemma set_pattern_loop_reads:
  assumes "attr_reads n f as" "length as < k"
    "at E p (pattern_attrs f as @ ellipsis_toks el @ T SHARD_TOK_RBRACE # ts)"
  shows "ok E (set_pattern_loop k (parse_expr n) None 0 acc p) (acc @ as, el) (T SHARD_TOK_RBRACE # ts)"
  using assms
proof (induction as arbitrary: k p acc)
  case Nil
  then obtain k' where k: "k = Suc k'" by (cases k) auto
  show ?case
  proof (cases el)
    case True
    then have p: "at E p (T SHARD_TOK_ELLIPSE # T SHARD_TOK_RBRACE # ts)" using Nil by (simp add: ellipsis_toks_def)
    show ?thesis unfolding k set_pattern_loop.simps using at_type [OF p] True
      by (simp, intro advance_step [OF p]) (simp add: ok_return)
  next
    case False
    then have p: "at E p (T SHARD_TOK_RBRACE # ts)" using Nil by (simp add: ellipsis_toks_def)
    then show ?thesis unfolding k set_pattern_loop.simps using at_type [OF p] False by (simp add: ok_return)
  qed
next
  case (Cons a as)
  obtain w d where a: "a = (w, d)" by (cases a)
  obtain k' where k: "k = Suc k'" using Cons by (cases k) auto
  let ?r = "pattern_attrs f as @ ellipsis_toks el @ T SHARD_TOK_RBRACE # ts"
  have p: "at E p (TId w # defaults f d @ T SHARD_TOK_COMMA # ?r)" using Cons.prems(3) a by simp
  obtain p1 where p1: "consume SHARD_TOK_IDENT p = Some (0, p1)" "at E p1 (defaults f d @ T SHARD_TOK_COMMA # ?r)"
    using consume_at [OF p] by blast
  have d: "\<forall>e. d = Some e \<longrightarrow> reads n e (f e)" using Cons.prems(1) a by (simp add: attr_reads_def)
  have IH: "\<And>p. at E p ?r \<Longrightarrow> ok E (set_pattern_loop k' (parse_expr n) None 0 (acc @ [a]) p) ((acc @ [a]) @ as, el) (T SHARD_TOK_RBRACE # ts)"
    using Cons.prems(1,2) k by (intro Cons.IH) (simp_all add: attr_reads_def)
  show ?case
    unfolding k set_pattern_loop.simps Let_def
    using at_type [OF p] p1(1) at_string [OF p] IH a
    by (simp, intro ok_step [OF attr_default_reads [OF d p1(2)]])
      (simp add: at_type, rule consume_step, assumption, simp)
qed

text \<open>The same when the name of the first attribute has been read already.\<close>

lemma set_pattern_first_reads:
  assumes "attr_reads n f ((w, d) # as)" "length as + 1 < k"
    "at E p (defaults f d @ T SHARD_TOK_COMMA # pattern_attrs f as @ ellipsis_toks el @ T SHARD_TOK_RBRACE # ts)"
  shows "ok E (set_pattern_loop k (parse_expr n) (Some w) 0 [] p) ((w, d) # as, el) (T SHARD_TOK_RBRACE # ts)"
proof -
  obtain k' where k: "k = Suc k'" using assms(2) by (cases k) auto
  let ?r = "pattern_attrs f as @ ellipsis_toks el @ T SHARD_TOK_RBRACE # ts"
  have d: "\<forall>e. d = Some e \<longrightarrow> reads n e (f e)" using assms(1) by (simp add: attr_reads_def)
  have IH: "\<And>p. at E p ?r \<Longrightarrow> ok E (set_pattern_loop k' (parse_expr n) None 0 [(w, d)] p) ([(w, d)] @ as, el) (T SHARD_TOK_RBRACE # ts)"
    using assms(1,2) k by (intro set_pattern_loop_reads) (simp_all add: attr_reads_def)
  have "token_type p \<notin> {SHARD_TOK_RBRACE, SHARD_TOK_ELLIPSE}"
    using at_type [OF assms(3)] by (simp add: defaults_def split: option.splits)
  then show ?thesis
    unfolding k set_pattern_loop.simps Let_def using IH
    by (simp, intro ok_step [OF attr_default_reads [OF d assms(3)]])
      (simp add: at_type, rule consume_step, assumption, simp)
qed

definition at_toks :: "string option \<Rightarrow> ptoken list" where
  "at_toks ident = (case ident of None \<Rightarrow> [] | Some x \<Rightarrow> [T SHARD_TOK_AT, TId x])"

abbreviation set_pattern :: "bool \<Rightarrow> (string \<times> shard_expr option) list \<Rightarrow> string option \<Rightarrow> shard_pattern" where
  "set_pattern el as ident \<equiv> Pattern SHARD_PAT_SET el (SHARD_VAL_SET OR SHARD_VAL_NULL) as ident None None"

text \<open>\<open>parse_set_pattern\<close> after its loop.\<close>

lemma parse_set_pattern_reads:
  assumes "(if skip then Some (0, p) else advance p) = Some (0, p1)"
    "ok E (set_pattern_loop n (parse_expr m) first 0 [] p1) (as, el) (T SHARD_TOK_RBRACE # at_toks ident @ ts)"
    "head ts \<noteq> SHARD_TOK_AT"
  shows "ok E (parse_set_pattern n (parse_expr m) None skip first p) (set_pattern el as ident) ts"
proof -
  obtain p2 where p2: "set_pattern_loop n (parse_expr m) first 0 [] p1 = Some (0, (as, el), p2)"
    "at E p2 (T SHARD_TOK_RBRACE # at_toks ident @ ts)" using assms(2) by (auto simp: ok_def)
  obtain p3 where p3: "consume SHARD_TOK_RBRACE p2 = Some (0, p3)" "at E p3 (at_toks ident @ ts)"
    using consume_at [OF p2(2)] by blast
  show ?thesis
  proof (cases ident)
    case None
    then have "token_type p3 \<noteq> SHARD_TOK_AT" "at E p3 ts" using p3(2) at_type [OF p3(2)] assms(3) by (simp_all add: at_toks_def)
    then show ?thesis using assms(1) p2(1) p3(1) None by (simp add: parse_set_pattern_def Let_def ok_return)
  next
    case (Some x)
    have a: "at E p3 (T SHARD_TOK_AT # TId x # ts)" using p3(2) Some by (simp add: at_toks_def)
    obtain p4 where p4: "advance p3 = Some (0, p4)" "at E p4 (TId x # ts)" using advance_at [OF a] by blast
    obtain p5 where p5: "consume SHARD_TOK_IDENT p4 = Some (0, p5)" "at E p5 ts" using consume_at [OF p4(2)] by blast
    then show ?thesis using assms(1) p2(1) p3(1) p4(1) p5 at_type [OF a] at_string [OF p4(2)] Some
      by (simp add: parse_set_pattern_def Let_def ok_return)
  qed
qed

abbreviation ident_pattern :: "string \<Rightarrow> shard_expr option \<Rightarrow> shard_pattern" where
  "ident_pattern x cond \<equiv> Pattern SHARD_PAT_IDENT False SHARD_VAL_ANY [] (Some x) None cond"

lemma fun_ident_body:
  assumes "prefix_reads N b tb"
  shows "body_reads (N + 2 + 2) (EFunction (ident_pattern x None) b) (TId x # T SHARD_TOK_COLON # tb)"
proof (rule prefix_body)
  fix m E p ts
  let ?r = "T SHARD_TOK_RPAREN # ts" and ?e = "EFunction (ident_pattern x None) b"
  assume m: "N + 2 \<le> m" and p: "at E p ((TId x # T SHARD_TOK_COLON # tb) @ ?r)"
  have p': "at E p (TId x # T SHARD_TOK_COLON # tb @ ?r)" using p by simp
  obtain p1 where p1: "advance p = Some (0, p1)" "at E p1 (T SHARD_TOK_COLON # tb @ ?r)" using advance_at [OF p'] by blast
  obtain p2 where p2: "consume SHARD_TOK_COLON p1 = Some (0, p2)" "at E p2 (tb @ ?r)" using consume_at [OF p1(2)] by blast
  have "ok E (parse_expr m 0 p2) b ?r" using reads_ok [OF reads_prefix [OF assms m] p2(2)] by simp
  then obtain p3 where p3: "parse_expr m 0 p2 = Some (0, b, p3)" "at E p3 ?r" by (auto simp: ok_def)
  have "ok E (parse_ident m (parse_expr m) p) ?e ?r"
    using p1(1) p2(1) p3 at_type [OF p1(2)] at_string [OF p']
    by (simp add: parse_ident_def parse_postfix_pattern_def parse_function_def ok_return)
  then show "ok E (parse_prefix_expr m (parse_expr m) (parse_prefix m) p) ?e ?r"
    using at_type [OF p'] by (simp add: parse_prefix_expr_def)
qed

lemma set_function_reads:
  assumes "ok E (parse_set_pattern n (parse_expr m) None True first p) pat (T SHARD_TOK_COLON # tb @ ts)"
    "reads m b tb" "follow ts" "get_precedence (head ts) = 0"
  shows "ok E (set_function n (parse_expr m) 0 first p) (EFunction pat b) ts"
proof -
  obtain p1 where p1: "parse_set_pattern n (parse_expr m) None True first p = Some (0, pat, p1)"
    "at E p1 (T SHARD_TOK_COLON # tb @ ts)" using assms(1) by (auto simp: ok_def)
  obtain p2 where p2: "consume SHARD_TOK_COLON p1 = Some (0, p2)" "at E p2 (tb @ ts)" using consume_at [OF p1(2)] by blast
  have "ok E (parse_expr m 0 p2) b ts" using reads_ok [OF assms(2) p2(2) assms(3)] assms(4) by simp
  then show ?thesis using p1(1) p2(1) by (auto simp: set_function_def parse_function_def ok_def)
qed

lemma fun_set_body:
  assumes "\<forall>a \<in> set as. \<forall>e. snd a = Some e \<longrightarrow> prefix_reads N e (f e)" "prefix_reads N b tb" "as \<noteq> [] \<or> el"
  shows "body_reads (N + length as + 3 + 2) (EFunction (set_pattern el as ident) b)
    (T SHARD_TOK_LBRACE # pattern_attrs f as @ ellipsis_toks el @ T SHARD_TOK_RBRACE # at_toks ident @ T SHARD_TOK_COLON # tb)"
proof (rule prefix_body)
  fix m E p ts
  let ?e = "EFunction (set_pattern el as ident) b" and ?r = "T SHARD_TOK_RPAREN # ts"
  let ?t = "T SHARD_TOK_COLON # tb @ ?r"
  assume m: "N + length as + 3 \<le> m" and p: "at E p ((T SHARD_TOK_LBRACE # pattern_attrs f as @ ellipsis_toks el @
    T SHARD_TOK_RBRACE # at_toks ident @ T SHARD_TOK_COLON # tb) @ ?r)"
  obtain m' where m': "m = Suc m'" "length as + 1 < m'" using m by (cases m) auto
  have rb: "reads m b tb" using m by (intro reads_prefix [OF assms(2)]) simp
  have ra: "attr_reads m f as" using assms(1) m reads_prefix by (fastforce simp: attr_reads_def)
  have p': "at E p (T SHARD_TOK_LBRACE # pattern_attrs f as @ ellipsis_toks el @ T SHARD_TOK_RBRACE # at_toks ident @ ?t)"
    using p by simp
  obtain p1 where p1: "consume SHARD_TOK_LBRACE p = Some (0, p1)"
    "at E p1 (pattern_attrs f as @ ellipsis_toks el @ T SHARD_TOK_RBRACE # at_toks ident @ ?t)"
    using consume_at [OF p'] by blast
  have "ok E (set_loop m (parse_expr m) False True 0 [] p1) ?e ?r"
  proof (cases as)
    case Nil
    then have a: "at E p1 (T SHARD_TOK_ELLIPSE # T SHARD_TOK_RBRACE # at_toks ident @ ?t)"
      using p1(2) assms(3) by (simp add: ellipsis_toks_def)
    have "ok E (set_pattern_loop m' (parse_expr m) None 0 [] p1) ([] @ as, el) (T SHARD_TOK_RBRACE # at_toks ident @ ?t)"
      by (rule set_pattern_loop_reads [OF ra _ p1(2)]) (use m' in simp)
    then have "ok E (parse_set_pattern m' (parse_expr m) None True None p1) (set_pattern el as ident) ?t"
      by (intro parse_set_pattern_reads [of True p1 p1]) simp_all
    then have "ok E (set_function m' (parse_expr m) 0 None p1) ?e ?r" by (rule set_function_reads) (simp_all add: rb)
    then show ?thesis using at_type [OF a] m'(1) by simp
  next
    case (Cons a as')
    obtain w d where wd: "a = (w, d)" by (cases a)
    let ?s = "defaults f d @ T SHARD_TOK_COMMA # pattern_attrs f as' @ ellipsis_toks el @ T SHARD_TOK_RBRACE # at_toks ident @ ?t"
    have a: "at E p1 (TId w # ?s)" using p1(2) Cons wd by simp
    obtain p2 where p2: "consume SHARD_TOK_IDENT p1 = Some (0, p2)" "at E p2 ?s" using consume_at [OF a] by blast
    have "ok E (set_pattern_loop m' (parse_expr m) (Some w) 0 [] p2) ((w, d) # as', el) (T SHARD_TOK_RBRACE # at_toks ident @ ?t)"
      by (rule set_pattern_first_reads [OF _ _ p2(2)]) (use m' ra Cons wd in simp_all)
    then have "ok E (parse_set_pattern m' (parse_expr m) None True (Some w) p2) (set_pattern el as ident) ?t"
      using Cons wd by (intro parse_set_pattern_reads [of True p2 p2]) simp_all
    then have f: "ok E (set_function m' (parse_expr m) 0 (Some w) p2) ?e ?r" by (rule set_function_reads) (simp_all add: rb)
    have "token_type p2 \<in> {SHARD_TOK_COMMA, SHARD_TOK_QUESTIONMARK}"
      using at_type [OF p2(2)] by (simp add: defaults_def split: option.splits)
    then show ?thesis using f at_type [OF a] at_value [OF a] p2(1) m'(1) by simp
  qed
  then have "ok E (parse_set m (parse_expr m) False p) ?e ?r" using p1(1) by (simp add: parse_set_def)
  then show "ok E (parse_prefix_expr m (parse_expr m) (parse_prefix m) p) ?e ?r"
    using at_type [OF p'] by (simp add: parse_prefix_expr_def)
qed

text \<open>Patterns of \<open>case\<close>.\<close>

definition pattern_reads :: "nat \<Rightarrow> shard_pattern \<Rightarrow> ptoken list \<Rightarrow> bool" where
  "pattern_reads N pat toks \<longleftrightarrow> (\<forall>n \<ge> N. \<forall>m \<ge> N. \<forall>E p ts. at E p (toks @ T SHARD_TOK_ARROW # ts) \<longrightarrow>
     ok E (parse_pattern n (parse_expr m) (parse_prefix m) p) pat (T SHARD_TOK_ARROW # ts))"

lemma pattern_reads_mono: "pattern_reads N pat toks \<Longrightarrow> N \<le> M \<Longrightarrow> pattern_reads M pat toks"
  by (auto simp: pattern_reads_def)

lemma ident_pattern_reads:
  assumes "\<And>e. cond = Some e \<Longrightarrow> prefix_reads N e (f e)"
  shows "pattern_reads (N + 6) (ident_pattern x cond)
    (TId x # (case cond of None \<Rightarrow> [] | Some e \<Rightarrow> T SHARD_TOK_IF # parens (f e)))"
  unfolding pattern_reads_def
proof (intro allI impI)
  fix n m E p ts
  let ?c = "case cond of None \<Rightarrow> [] | Some e \<Rightarrow> T SHARD_TOK_IF # parens (f e)" and ?r = "T SHARD_TOK_ARROW # ts"
  assume m: "N + 6 \<le> m" and p: "at E p ((TId x # ?c) @ ?r)"
  have p': "at E p (TId x # ?c @ ?r)" using p by simp
  obtain p1 where p1: "advance p = Some (0, p1)" "at E p1 (?c @ ?r)" using advance_at [OF p'] by blast
  show "ok E (parse_pattern n (parse_expr m) (parse_prefix m) p) (ident_pattern x cond) ?r"
  proof (cases cond)
    case None
    then show ?thesis using p1 at_type [OF p'] at_type [OF p1(2)] at_string [OF p']
      by (simp add: parse_pattern_def parse_postfix_pattern_def ok_return)
  next
    case (Some e)
    have i: "at E p1 (T SHARD_TOK_IF # parens (f e) @ ?r)" using p1(2) Some by simp
    obtain p2 where p2: "advance p1 = Some (0, p2)" "at E p2 (parens (f e) @ ?r)" using advance_at [OF i] by blast
    have "body_reads (N + 2) e (f e)"
      unfolding body_reads_def using reads_ok [OF reads_prefix [OF assms [OF Some]]] by simp
    from parens_reads [OF this] have "reads m e (parens (f e))" by (rule reads_prefix) (use m in linarith)
    then have "ok E (parse_expr m 0 p2) e ?r" by (rule reads_ok [OF _ p2(2)]) simp_all
    then obtain p3 where "parse_expr m 0 p2 = Some (0, e, p3)" "at E p3 ?r" by (auto simp: ok_def)
    then show ?thesis using p1(1) p2(1) at_type [OF p'] at_type [OF i] at_string [OF p'] Some
      by (simp add: parse_pattern_def parse_postfix_pattern_def ok_return)
  qed
qed

lemma set_pattern_reads:
  assumes "\<forall>a \<in> set as. \<forall>e. snd a = Some e \<longrightarrow> prefix_reads N e (f e)"
  shows "pattern_reads (N + length as + 3) (set_pattern el as ident)
    (T SHARD_TOK_LBRACE # pattern_attrs f as @ ellipsis_toks el @ T SHARD_TOK_RBRACE # at_toks ident)"
  unfolding pattern_reads_def
proof (intro allI impI)
  fix n m E p ts
  let ?r = "T SHARD_TOK_ARROW # ts"
  let ?s = "pattern_attrs f as @ ellipsis_toks el @ T SHARD_TOK_RBRACE # at_toks ident @ ?r"
  assume n: "N + length as + 3 \<le> n" and m: "N + length as + 3 \<le> m" and p: "at E p ((T SHARD_TOK_LBRACE # pattern_attrs f as @
    ellipsis_toks el @ T SHARD_TOK_RBRACE # at_toks ident) @ ?r)"
  have p': "at E p (T SHARD_TOK_LBRACE # ?s)" using p by simp
  obtain p1 where p1: "advance p = Some (0, p1)" "at E p1 ?s" using advance_at [OF p'] by blast
  have ra: "attr_reads m f as" using assms(1) m reads_prefix by (fastforce simp: attr_reads_def)
  have "ok E (set_pattern_loop n (parse_expr m) None 0 [] p1) ([] @ as, el) (T SHARD_TOK_RBRACE # at_toks ident @ ?r)"
    by (rule set_pattern_loop_reads [OF ra _ p1(2)]) (use n in simp)
  then have "ok E (parse_set_pattern n (parse_expr m) None False None p) (set_pattern el as ident) ?r"
    using p1(1) by (intro parse_set_pattern_reads [of False p p1]) simp_all
  then show "ok E (parse_pattern n (parse_expr m) (parse_prefix m) p) (set_pattern el as ident) ?r"
    using at_type [OF p'] by (simp add: parse_pattern_def)
qed

lemma const_pattern_reads:
  assumes "prefix_reads N e (f e)" "\<And>ts. const_pattern_type (head (f e @ ts)) = Some tc"
  shows "pattern_reads N (Pattern SHARD_PAT_CONSTANT False tc [] None (Some e) None) (f e)"
  unfolding pattern_reads_def
proof (intro allI impI)
  fix n m E p ts
  let ?r = "T SHARD_TOK_ARROW # ts" and ?p = "Pattern SHARD_PAT_CONSTANT False tc [] None (Some e) None"
  assume m: "N \<le> m" and p: "at E p (f e @ ?r)"
  have "ok E (parse_prefix m p) e ?r" by (rule prefix_readsD [OF assms(1) m p]) simp
  then have "ok E (parse_const_pattern (parse_prefix m) p) ?p ?r"
    using at_type [OF p] assms(2) by (auto simp: parse_const_pattern_def ok_def)
  moreover have "token_type p \<noteq> SHARD_TOK_IDENT" "token_type p \<noteq> SHARD_TOK_LBRACE"
    using at_type [OF p] assms(2) [of ?r] by (auto simp: const_pattern_type_def)
  ultimately show "ok E (parse_pattern n (parse_expr m) (parse_prefix m) p) ?p ?r"
    using at_type [OF p] assms(2) by (simp add: parse_pattern_def)
qed

lemma case_loop_reads:
  assumes "xs \<noteq> []" "\<forall>x \<in> set xs. pattern_reads N (fst x) (g (fst x)) \<and> prefix_reads N (snd x) (f (snd x))"
    "N + length xs < k" "N + 2 \<le> m"
    "at E p (case_toks (map (map_prod g f) xs) @ T SHARD_TOK_RPAREN # ts)"
  shows "ok E (case_loop k (parse_expr m) (parse_prefix m) bs ps p) (bs @ map snd xs, ps @ map fst xs) (T SHARD_TOK_RPAREN # ts)"
  using assms
proof (induction xs arbitrary: k p bs ps)
  case (Cons x xs)
  obtain pat e where x: "x = (pat, e)" by (cases x)
  obtain k' where k: "k = Suc k'" "N + length xs < k'" using Cons.prems(3) by (cases k) auto
  let ?stop = "T SHARD_TOK_RPAREN # ts"
  let ?more = "if xs = [] then ?stop else T SHARD_TOK_SEMICOLON # case_toks (map (map_prod g f) xs) @ ?stop"
  have re: "reads m e (f e)" using Cons.prems(2,4) x by (auto intro: reads_prefix)
  have p: "at E p (g pat @ T SHARD_TOK_ARROW # f e @ ?more)" using Cons.prems(5) x by (cases xs) (auto split: prod.splits)
  have "ok E (parse_pattern k' (parse_expr m) (parse_prefix m) p) pat (T SHARD_TOK_ARROW # f e @ ?more)"
    using Cons.prems(2,4) k(2) x p by (auto simp: pattern_reads_def)
  then obtain p1 where p1: "parse_pattern k' (parse_expr m) (parse_prefix m) p = Some (0, pat, p1)"
    "at E p1 (T SHARD_TOK_ARROW # f e @ ?more)" by (auto simp: ok_def)
  obtain p2 where p2: "consume SHARD_TOK_ARROW p1 = Some (0, p2)" "at E p2 (f e @ ?more)" using consume_at [OF p1(2)] by blast
  have "ok E (parse_expr m 0 p2) e ?more" by (rule reads_ok [OF re p2(2)]) simp_all
  then obtain p3 where p3: "parse_expr m 0 p2 = Some (0, e, p3)" "at E p3 ?more" by (auto simp: ok_def)
  show ?case
  proof (cases "xs = []")
    case True
    then show ?thesis using p1(1) p2(1) p3 at_type [OF p3(2)] x by (simp add: k(1) ok_return)
  next
    case False
    then have s: "at E p3 (T SHARD_TOK_SEMICOLON # case_toks (map (map_prod g f) xs) @ ?stop)" using p3(2) by simp
    obtain p4 where p4: "advance p3 = Some (0, p4)" "at E p4 (case_toks (map (map_prod g f) xs) @ ?stop)"
      using advance_at [OF s] by blast
    have "ok E (case_loop k' (parse_expr m) (parse_prefix m) (bs @ [e]) (ps @ [pat]) p4)
        ((bs @ [e]) @ map snd xs, (ps @ [pat]) @ map fst xs) ?stop"
      using Cons.prems(2,4) k(2) by (intro Cons.IH [OF False _ _ _ p4(2)]) simp_all
    then show ?thesis using p1(1) p2(1) p3(1) p4(1) at_type [OF s] x by (simp add: k(1))
  qed
qed simp

lemma case_body:
  assumes "prefix_reads N c tc" "es \<noteq> []" "length es = length pats" "\<forall>e \<in> set es. prefix_reads N e (f e)"
    "\<forall>q \<in> set pats. pattern_reads N q (g q)"
  shows "body_reads (N + length es + 3 + 2) (ECase_of c es pats)
    (T SHARD_TOK_CASE # tc @ T SHARD_TOK_OF # case_toks (zip (map g pats) (map f es)))"
proof (rule prefix_body)
  fix m E p ts
  let ?r = "T SHARD_TOK_RPAREN # ts" and ?x = "zip pats es"
  have z: "zip (map g pats) (map f es) = map (map_prod g f) ?x" by (simp add: zip_map_map map_prod_def)
  assume m: "N + length es + 3 \<le> m"
    and p: "at E p ((T SHARD_TOK_CASE # tc @ T SHARD_TOK_OF # case_toks (zip (map g pats) (map f es))) @ ?r)"
  have p': "at E p (T SHARD_TOK_CASE # tc @ T SHARD_TOK_OF # case_toks (map (map_prod g f) ?x) @ ?r)" using p z by simp
  have rc: "reads m c tc" using m by (intro reads_prefix [OF assms(1)]) simp
  have xs: "?x \<noteq> []" "\<forall>x \<in> set ?x. pattern_reads N (fst x) (g (fst x)) \<and> prefix_reads N (snd x) (f (snd x))"
    using assms(2-5) by (auto dest: set_zip_leftD set_zip_rightD)
  have sel: "map snd ?x = es" "map fst ?x = pats" "length ?x = length es" using assms(3) by simp_all
  have loop: "\<And>p. at E p (case_toks (map (map_prod g f) ?x) @ ?r) \<Longrightarrow>
      ok E (case_loop m (parse_expr m) (parse_prefix m) [] [] p) ([] @ map snd ?x, [] @ map fst ?x) ?r"
    using m sel(3) by (intro case_loop_reads [OF xs]) auto
  have "ok E (parse_case_of m (parse_expr m) (parse_prefix m) p) (ECase_of c es pats) ?r"
    unfolding parse_case_of_def Let_def
    by (rule advance_step [OF p'], rule reads_step [OF rc], assumption, simp, simp, rule consume_step, assumption, simp,
        rule ok_bind [OF loop], assumption) (simp add: sel ok_return)
  then show "ok E (parse_prefix_expr m (parse_expr m) (parse_prefix m) p) (ECase_of c es pats) ?r"
    using at_type [OF p'] by (simp add: parse_prefix_expr_def)
qed

subsection \<open>Every printable expression\<close>

lemma expr_toks_starters: "printable e \<Longrightarrow> head (expr_toks e @ ts) \<in> starters"
  by (cases e) (auto simp: parens_def starters_def)

text \<open>A common fuel for the elements of a list.\<close>

lemma common_fuel:
  assumes "\<forall>x \<in> set xs. \<exists>N. P N x" "\<And>N M x. P N x \<Longrightarrow> N \<le> M \<Longrightarrow> P M x"
  obtains N where "\<forall>x \<in> set xs. P (N :: nat) x"
proof -
  have "\<exists>N. \<forall>x \<in> set xs. P N x"
    using assms(1)
  proof (induction xs)
    case (Cons x xs)
    then obtain N M where N: "P N x" and M: "\<forall>x \<in> set xs. P M x" by auto
    have "\<forall>y \<in> set (x # xs). P (max N M) y" using assms(2) [OF N] assms(2) M by auto
    then show ?case by blast
  qed simp
  then show ?thesis using that by blast
qed

definition readable :: "shard_expr \<Rightarrow> bool" where
  "readable e \<longleftrightarrow> (\<exists>N. prefix_reads N e (expr_toks e))"

lemma readable_list:
  assumes "\<forall>e \<in> set es. readable e"
  obtains N where "\<forall>e \<in> set es. prefix_reads N e (expr_toks e)"
  using common_fuel [of es "\<lambda>N e. prefix_reads N e (expr_toks e)"] assms prefix_reads_mono unfolding readable_def by blast

lemma readable_body: "body_reads N e toks \<Longrightarrow> expr_toks e = parens toks \<Longrightarrow> readable e"
  using parens_reads unfolding readable_def by metis

text \<open>The expressions inside a pattern are readable.\<close>

definition readable_parts :: "shard_pattern \<Rightarrow> bool" where
  "readable_parts pat \<longleftrightarrow> (\<forall>a \<in> set (pat_attrs pat). \<forall>e. snd a = Some e \<longrightarrow> readable e) \<and>
     (\<forall>e. pat_constant pat = Some e \<longrightarrow> readable e) \<and> (\<forall>e. pat_condition pat = Some e \<longrightarrow> readable e)"

lemma readable_attrs:
  assumes "\<forall>a \<in> set as. \<forall>e. snd a = Some e \<longrightarrow> readable e"
  obtains N where "\<forall>a \<in> set as. \<forall>e. snd a = Some e \<longrightarrow> prefix_reads N e (expr_toks e)"
proof -
  have "\<forall>a \<in> set as. \<exists>N. \<forall>e. snd a = Some e \<longrightarrow> prefix_reads N e (expr_toks e)"
    using assms unfolding readable_def by (metis option.inject)
  then show ?thesis using common_fuel [of as "\<lambda>N a. \<forall>e. snd a = Some e \<longrightarrow> prefix_reads N e (expr_toks e)"]
      prefix_reads_mono that by blast
qed

lemma pattern_toks_eq:
  "pattern_toks (ident_pattern x cond) =
     TId x # (case cond of None \<Rightarrow> [] | Some e \<Rightarrow> T SHARD_TOK_IF # parens (expr_toks e))"
  "pattern_toks (set_pattern el as ident) = T SHARD_TOK_LBRACE # pattern_attrs expr_toks as @ ellipsis_toks el @
     T SHARD_TOK_RBRACE # at_toks ident"
  "pattern_toks (Pattern SHARD_PAT_CONSTANT False tc [] None (Some e) None) = expr_toks e"
  by (auto simp: pattern_attrs_def ellipsis_toks_def at_toks_def split: option.split)

lemma pattern_readable:
  assumes "printable_pattern pat" "readable_parts pat"
  shows "\<exists>N. pattern_reads N pat (pattern_toks pat)"
proof (cases pat)
  case (Pattern type el tc as ident const cond)
  note pr = assms [unfolded Pattern printable_pattern.simps pattern_shape_def readable_parts_def shard_pattern.sel]
  show ?thesis
  proof (cases type)
    case SHARD_PAT_IDENT
    then obtain x where x: "pat = ident_pattern x cond" using pr(1) Pattern by auto
    obtain N where "\<And>e. cond = Some e \<Longrightarrow> prefix_reads N e (expr_toks e)"
      using pr(2) unfolding readable_def by (metis option.inject)
    then show ?thesis using ident_pattern_reads [of cond N expr_toks x] unfolding x pattern_toks_eq by blast
  next
    case SHARD_PAT_SET
    then have x: "pat = set_pattern el as ident" using pr(1) Pattern by auto
    obtain N where "\<forall>a \<in> set as. \<forall>e. snd a = Some e \<longrightarrow> prefix_reads N e (expr_toks e)"
      using readable_attrs pr(2) by blast
    then show ?thesis using set_pattern_reads [of as N expr_toks el ident] unfolding x pattern_toks_eq by blast
  next
    case SHARD_PAT_CONSTANT
    then obtain e where e: "const = Some e" "const_ok e tc" and x: "pat = Pattern SHARD_PAT_CONSTANT False tc [] None (Some e) None"
      using pr(1) Pattern by auto
    obtain N where N: "prefix_reads N e (expr_toks e)" using pr(2) e(1) unfolding readable_def by blast
    have "const_pattern_type (head (expr_toks e @ ts)) = Some tc" for ts
      using e(2) by (cases e) (simp_all add: const_ok_def const_pattern_type_def)
    then show ?thesis using const_pattern_reads [of N e expr_toks tc] N unfolding x pattern_toks_eq by blast
  qed
qed

lemma printable_readable:
  "printable e \<Longrightarrow> readable e" "printable_pattern pat \<Longrightarrow> readable_parts pat"
proof (induction e and pat)
  case (EIdent w)
  then show ?case unfolding readable_def using ident_reads by auto
next
  case (EInt i)
  then show ?case unfolding readable_def using int_reads by auto
next
  case (EString s)
  then show ?case unfolding readable_def using string_reads [of s False] by (auto simp: string_ok_def)
next
  case (EPath s)
  then show ?case unfolding readable_def using string_reads [of s True] by (auto simp: path_ok_def)
next
  case (EUnop op e)
  then obtain N where "prefix_reads N e (expr_toks e)" by (auto simp: readable_def)
  from unop_body [OF this, of op] show ?case by (rule readable_body) simp
next
  case (ETernary c a b)
  then have "\<forall>e \<in> set [c, a, b]. readable e" by simp
  then obtain N where N: "\<forall>e \<in> set [c, a, b]. prefix_reads N e (expr_toks e)" by (rule readable_list)
  then show ?case by (intro readable_body [OF ternary_body [of N c _ a _ b]]) simp_all
next
  case (ECase_of c es pats)
  have "\<forall>e \<in> set (c # es). readable e" using ECase_of by (auto simp: list_all_iff)
  then obtain N where N: "\<forall>e \<in> set (c # es). prefix_reads N e (expr_toks e)" by (rule readable_list)
  have "\<forall>q \<in> set pats. \<exists>M. pattern_reads M q (pattern_toks q)" using ECase_of pattern_readable by (auto simp: list_all_iff)
  then obtain M where M: "\<forall>q \<in> set pats. pattern_reads M q (pattern_toks q)"
    using common_fuel [of pats "\<lambda>N q. pattern_reads N q (pattern_toks q)"] pattern_reads_mono by blast
  show ?case
    by (rule readable_body [OF case_body [where N = "max N M" and f = expr_toks and g = pattern_toks]])
      (use N M ECase_of.prems in \<open>auto intro: prefix_reads_mono pattern_reads_mono\<close>)
next
  case (EBinop op a b)
  then have "\<forall>e \<in> set [a, b]. readable e" by simp
  then obtain N where "\<forall>e \<in> set [a, b]. prefix_reads N e (expr_toks e)" by (rule readable_list)
  then have N: "prefix_reads N a (expr_toks a)" "prefix_reads N b (expr_toks b)" by simp_all
  have b: "head (expr_toks b @ ts) \<in> starters" for ts using EBinop.prems by (intro expr_toks_starters) simp
  consider "op = SHARD_EXPR_CALL" | "op = SHARD_EXPR_WITH" | "op = SHARD_EXPR_ASSERT"
    | type where "binop_token op = Some type" "expr_toks (EBinop op a b) = parens (expr_toks a @ T type # expr_toks b)"
    by (cases op) (simp_all add: binop_token_def binops_def)
  then show ?case
  proof cases
    case 1
    then show ?thesis using readable_body [OF call_body [OF N b]] by simp
  next
    case 2
    then show ?thesis using readable_body [OF stmt_body [OF N, of op SHARD_TOK_WITH]] by simp
  next
    case 3
    then show ?thesis using readable_body [OF stmt_body [OF N, of op SHARD_TOK_ASSERT]] by simp
  next
    case 4
    then show ?thesis using readable_body [OF binop_body [OF N 4(1)]] by simp
  qed
next
  case (EAttr_test e path)
  then obtain N where "prefix_reads N e (expr_toks e)" by (auto simp: readable_def)
  from attr_test_body [OF this, of path] EAttr_test.prems show ?case by (intro readable_body) simp_all
next
  case (EAttr_sel e path d)
  have d: "\<And>x. d = Some x \<Longrightarrow> readable x" and e: "readable e" using EAttr_sel by auto
  have "\<forall>x \<in> set (e # (case d of None \<Rightarrow> [] | Some x \<Rightarrow> [x])). readable x" using d e by (auto split: option.split)
  then obtain N where "\<forall>x \<in> set (e # (case d of None \<Rightarrow> [] | Some x \<Rightarrow> [x])). prefix_reads N x (expr_toks x)"
    by (rule readable_list)
  then have N: "prefix_reads N e (expr_toks e)" "\<And>x. d = Some x \<Longrightarrow> prefix_reads N x (expr_toks x)" by auto
  from attr_sel_body [OF N(1) _ N(2), of path] EAttr_sel.prems show ?case by (intro readable_body) simp_all
next
  case (EList es)
  then obtain N where "\<forall>e \<in> set es. prefix_reads N e (expr_toks e)" using readable_list [of es] by (auto simp: list_all_iff)
  then have "\<forall>e \<in> set es. prefix_reads N e (expr_toks e) \<and> (\<forall>ts. head (expr_toks e @ ts) \<in> starters)"
    using EList.prems expr_toks_starters by (auto simp: list_all_iff)
  from list_reads [OF this] show ?case by (auto simp: readable_def)
next
  case (ESet r as)
  have "\<forall>e \<in> set (map snd as). readable e" using ESet by (fastforce simp: list_all_iff)
  then obtain N where "\<forall>e \<in> set (map snd as). prefix_reads N e (expr_toks e)" by (rule readable_list)
  then have "\<forall>b \<in> set as. prefix_reads N (snd b) (expr_toks (snd b))" by simp
  from set_reads [OF this, of r] ESet.prems show ?case by (auto simp: readable_def binds_def)
next
  case (EFunction arg body)
  obtain N where N: "prefix_reads N body (expr_toks body)" using EFunction by (auto simp: readable_def)
  obtain type el tc as ident const cond where arg: "arg = Pattern type el tc as ident const cond" by (cases arg)
  have parts: "readable_parts arg" using EFunction by simp
  show ?case
  proof (cases type)
    case SHARD_PAT_IDENT
    then obtain x where x: "arg = ident_pattern x None"
      using EFunction.prems by (auto simp: arg fun_pattern_def pattern_shape_def)
    from fun_ident_body [OF N, of x] show ?thesis unfolding x by (rule readable_body) simp
  next
    case SHARD_PAT_SET
    then have x: "arg = set_pattern el as ident" and ne: "as \<noteq> [] \<or> el"
      using EFunction.prems by (auto simp: arg fun_pattern_def pattern_shape_def)
    obtain M where M: "\<forall>a \<in> set as. \<forall>e. snd a = Some e \<longrightarrow> prefix_reads M e (expr_toks e)"
      using readable_attrs parts unfolding readable_parts_def x shard_pattern.sel by blast
    have "\<forall>a \<in> set as. \<forall>e. snd a = Some e \<longrightarrow> prefix_reads (max N M) e (expr_toks e)" "prefix_reads (max N M) body (expr_toks body)"
      using M N prefix_reads_mono by (meson max.cobounded1 max.cobounded2)+
    from fun_set_body [OF this ne, of ident] show ?thesis
      unfolding x by (rule readable_body) (simp only: expr_toks.simps pattern_toks_eq append.simps append_assoc)
  next
    case SHARD_PAT_CONSTANT
    then show ?thesis using EFunction.prems by (simp add: arg fun_pattern_def)
  qed
next
  case (ELet bs e)
  have "\<forall>e \<in> set (e # map snd bs). readable e" using ELet by (fastforce simp: list_all_iff)
  then obtain N where "\<forall>e \<in> set (e # map snd bs). prefix_reads N e (expr_toks e)" by (rule readable_list)
  then have N: "prefix_reads N e (expr_toks e)" "\<forall>b \<in> set bs. prefix_reads N (snd b) (expr_toks (snd b))" by simp_all
  from let_body [OF N(2,1)] show ?case by (rule readable_body) (simp add: binds_def)
next
  case (Pattern type el tc as ident const cond)
  then show ?case by (fastforce simp: readable_parts_def list_all_iff)
qed simp_all

text \<open>The printer produces tokens that the lexer reads back.\<close>

lemma valid_T [simp]:
  "valid_tok (T SHARD_TOK_LPAREN)" "valid_tok (T SHARD_TOK_RPAREN)" "valid_tok (T SHARD_TOK_LBRACKET)"
  "valid_tok (T SHARD_TOK_RBRACKET)" "valid_tok (T SHARD_TOK_LBRACE)" "valid_tok (T SHARD_TOK_RBRACE)"
  "valid_tok (T SHARD_TOK_ASSIGN)" "valid_tok (T SHARD_TOK_SEMICOLON)" "valid_tok (T SHARD_TOK_COMMA)"
  "valid_tok (T SHARD_TOK_PERIOD)" "valid_tok (T SHARD_TOK_QUESTIONMARK)" "valid_tok (T SHARD_TOK_COLON)"
  "valid_tok (T SHARD_TOK_AT)" "valid_tok (T SHARD_TOK_ELLIPSE)" "valid_tok (T SHARD_TOK_ARROW)"
  "valid_tok (T SHARD_TOK_IF)" "valid_tok (T SHARD_TOK_THEN)" "valid_tok (T SHARD_TOK_ELSE)" "valid_tok (T SHARD_TOK_CASE)"
  "valid_tok (T SHARD_TOK_OF)" "valid_tok (T SHARD_TOK_LET)" "valid_tok (T SHARD_TOK_IN)" "valid_tok (T SHARD_TOK_WITH)"
  "valid_tok (T SHARD_TOK_ASSERT)" "valid_tok (T SHARD_TOK_REC)" "valid_tok (T SHARD_TOK_OR)" "valid_tok (T (unop_token op))"
  "valid_tok (TId w) = ident_ok w" "valid_tok (SHARD_TOK_INT, Integer i)" "valid_tok (SHARD_TOK_STRING, Str s) = string_ok s"
  "valid_tok (SHARD_TOK_PATH, Str s) = path_ok s"
  by (cases op; simp add: valid_tok_def symbols_def symbol_table_def keywords_list_def keyword_table_def unop_token_def)+

lemma valid_binop: "binop_token op = Some type \<Longrightarrow> valid_tok (T type)"
  by (cases op) (auto simp: binop_token_def binops_def valid_tok_def symbols_def symbol_table_def)

lemma valid_path: "(\<forall>k \<in> set ks. ident_ok k) \<Longrightarrow> t \<in> set (path_toks ks) \<Longrightarrow> valid_tok t"
  by (induction ks rule: path_toks.induct) auto

lemma valid_case: "(\<forall>x \<in> set xs. \<forall>t \<in> set (fst x) \<union> set (snd x). valid_tok t) \<Longrightarrow> t \<in> set (case_toks xs) \<Longrightarrow> valid_tok t"
  by (induction xs rule: case_toks.induct) auto

lemma valid_binds:
  "(\<forall>b \<in> set bs. ident_ok (fst b) \<and> (\<forall>t \<in> set (f (snd b)). valid_tok t)) \<Longrightarrow> t \<in> set (binds f bs) \<Longrightarrow> valid_tok t"
  by (induction bs) auto

lemma valid_defaults:
  "(\<forall>a \<in> set as. ident_ok (fst a) \<and> (\<forall>e. snd a = Some e \<longrightarrow> (\<forall>t \<in> set (f e). valid_tok t))) \<Longrightarrow>
   t \<in> set (pattern_attrs f as) \<Longrightarrow> valid_tok t"
proof (induction as)
  case (Cons a as)
  obtain k d where a: "a = (k, d)" by (cases a)
  show ?case
  proof (cases d)
    case None
    then show ?thesis using Cons a by (auto simp: defaults_def)
  next
    case (Some e)
    then show ?thesis using Cons a by (auto simp: defaults_def)
  qed
qed simp

lemma printable_valid:
  "printable e \<Longrightarrow> \<forall>t \<in> set (expr_toks e). valid_tok t" "printable_pattern pat \<Longrightarrow> \<forall>t \<in> set (pattern_toks pat). valid_tok t"
proof (induction e and pat)
  case (EBinop op a b)
  show ?case
  proof (cases "binop_token op")
    case None
    then show ?thesis using EBinop by (cases op) (auto simp: parens_def binop_token_def binops_def)
  next
    case (Some type)
    then show ?thesis using EBinop valid_binop [OF Some] by (cases op) (auto simp: parens_def binop_token_def binops_def)
  qed
next
  case (ECase_of c es pats)
  then have "\<forall>x \<in> set (zip (map pattern_toks pats) (map expr_toks es)). \<forall>t \<in> set (fst x) \<union> set (snd x). valid_tok t"
    by (auto simp: list_all_iff elim!: in_set_zipE)
  then show ?case using ECase_of valid_case by (auto simp: parens_def)
next
  case (EAttr_sel e path d)
  then show ?case using valid_path [of path] by (auto simp: parens_def split: option.splits)
next
  case (Pattern type el tc as ident const cond)
  have a: "\<forall>a \<in> set as. \<forall>e. snd a = Some e \<longrightarrow> (\<forall>t \<in> set (expr_toks e). valid_tok t)"
  proof (intro ballI allI impI)
    fix a e t
    assume "a \<in> set as" "snd a = Some e" "t \<in> set (expr_toks e)"
    moreover from this have "printable e" using Pattern.prems by (auto simp: list_all_iff dest!: bspec)
    moreover have "snd a \<in> Basic_BNFs.snds a" by (cases a) simp
    ultimately show "valid_tok t" using Pattern.IH(1) [of a "snd a" e] by simp
  qed
  have c: "const = Some e \<or> cond = Some e \<Longrightarrow> \<forall>t \<in> set (expr_toks e). valid_tok t" for e
    using Pattern.IH(2,3) Pattern.prems by auto
  show ?case
  proof (cases type)
    case SHARD_PAT_SET
    then have "\<forall>a \<in> set as. ident_ok (fst a)" using Pattern.prems by (auto simp: pattern_shape_def)
    then have "\<forall>t \<in> set (pattern_attrs expr_toks as). valid_tok t" using a valid_defaults [of as expr_toks] by blast
    then show ?thesis using SHARD_PAT_SET Pattern.prems by (auto simp: pattern_shape_def pattern_attrs_def split: option.splits)
  qed (use Pattern.prems c in \<open>auto simp: pattern_shape_def parens_def split: option.splits\<close>)
next
  case (ESet r as)
  have "\<forall>b \<in> set as. ident_ok (fst b) \<and> (\<forall>t \<in> set (expr_toks (snd b)). valid_tok t)"
    using ESet.IH ESet.prems by (auto simp: list_all_iff dest!: bspec)
  then have "\<forall>t \<in> set (binds expr_toks as). valid_tok t" using valid_binds [of as expr_toks] by blast
  then show ?case by (auto simp: binds_def)
next
  case (ELet bs e)
  have "\<forall>b \<in> set bs. ident_ok (fst b) \<and> (\<forall>t \<in> set (expr_toks (snd b)). valid_tok t)"
    using ELet.IH ELet.prems by (auto simp: list_all_iff dest!: bspec)
  then have "\<forall>t \<in> set (binds expr_toks bs). valid_tok t" using valid_binds [of bs expr_toks] by blast
  then show ?case using ELet by (auto simp: binds_def parens_def)
next
  case (EList es)
  then show ?case by (auto simp: list_all_iff)
next
  case (EAttr_test e path)
  then show ?case using valid_path [of path] by (auto simp: parens_def)
qed (auto simp: parens_def)

text \<open>The whole parser, on printed tokens.\<close>

lemma shard_parse_toks:
  assumes "\<forall>t \<in> set toks. valid_tok t" "\<And>p. at errors p toks \<Longrightarrow> ok errors (parse_expr n PREC_LOWEST p) e []"
  shows "shard_parse n line (print_toks toks @ [CHR 0x00]) errors = Some (0, e, errors)"
proof -
  define none where "none = \<lparr>tok_type = SHARD_TOK_EOF,
     tok_location = \<lparr>loc_line = 0, loc_column = 0, loc_width = 0, loc_offset = 0\<rparr>, tok_value = NoValue\<rparr>"
  define p where "p = \<lparr>p_lexer = shard_lex_init line (print_toks toks @ [CHR 0x00]) [], p_token = none, p_errors = errors\<rparr>"
  have "feeds (p_lexer p) toks" using feeds_init [OF assms(1)] by (simp add: p_def)
  then obtain p1 where p1: "advance p = Some (0, p1)" "at errors p1 toks" using advance_feeds [of p] by (auto simp: p_def)
  then show ?thesis using assms(2) [OF p1(2)] by (auto simp: shard_parse_def ok_def at_def p_def none_def Let_def)
qed

text \<open>C25. Printing and parsing are inverse: from the printed text of an expression, \<open>shard_parse\<close> rebuilds the
  expression, without an error, for every fuel that is large enough. The expressions are built from identifiers, integers,
  strings, paths, all operators, calls, \<open>if\<close>, \<open>case\<close> with its patterns, \<open>with\<close>, \<open>assert\<close>, \<open>let\<close>, lists, sets,
  attribute selections and tests, and functions with identifier and set patterns.\<close>

theorem parse_print_roundtrip:
  assumes "printable e"
  shows "\<exists>N. \<forall>n \<ge> N. shard_parse n line (print_toks (expr_toks e) @ [CHR 0x00]) errors = Some (0, e, errors)"
proof -
  obtain N where N: "prefix_reads N e (expr_toks e)" using printable_readable(1) [OF assms] by (auto simp: readable_def)
  have "ok errors (parse_expr n 0 p) e []" if "N + 2 \<le> n" "at errors p (expr_toks e)" for n p
    using reads_ok [OF reads_prefix [OF N that(1)], of errors p "[]"] that(2) by simp
  then show ?thesis
    using printable_valid(1) [OF assms] by (intro exI [of _ "N + 2"] allI impI shard_parse_toks) auto
qed

lemma ident_ok_x: "ident_ok ''x''"
  by code_simp

theorem parse_print_roundtrip_witness:
  "\<exists>N. \<forall>n \<ge> N. shard_parse n 1 (print_toks (expr_toks (EFunction
      (Pattern SHARD_PAT_IDENT False SHARD_VAL_ANY [] (Some ''x'') None None)
      (EBinop SHARD_EXPR_ADD (EIdent ''x'') (EInt 1)))) @ [CHR 0x00]) [] =
     Some (0, EFunction (Pattern SHARD_PAT_IDENT False SHARD_VAL_ANY [] (Some ''x'') None None)
                (EBinop SHARD_EXPR_ADD (EIdent ''x'') (EInt 1)), [])"
  by (rule parse_print_roundtrip) (simp add: pattern_shape_def fun_pattern_def ident_ok_x)

end
