(* ===== verification/ShardGrammar.thy ===== *)
theory ShardGrammar
  imports ShardRoundtrip
begin

text \<open>
  The grammar that \<^verbatim>\<open>shard/libshard/parse.c\<close> implements for binary operators without parentheses, and the input on
  which \<open>parse_list\<close> never returns.
\<close>

subsection \<open>Precedence and associativity\<close>

lemma infix_loop_stop:
  assumes "at E p ts" "get_precedence (head ts) \<le> prec"
  shows "ok E (infix_loop (Suc n) pe prec 0 e p) e ts"
  using assms at_type [OF assms(1)] by (simp add: ok_return)

lemma infix_loop_step:
  assumes "at E p ts" "prec < get_precedence (head ts)"
    and "ok E (parse_infix_expr n pe e p) e1 ts1"
    and "\<And>p1. at E p1 ts1 \<Longrightarrow> ok E (infix_loop n pe prec 0 e1 p1) v ts'"
  shows "ok E (infix_loop (Suc n) pe prec 0 e p) v ts'"
proof -
  obtain p1 where p1: "parse_infix_expr n pe e p = Some (0, e1, p1)" "at E p1 ts1" using assms(3) by (auto simp: ok_def)
  then show ?thesis using assms(2,4) at_type [OF assms(1)] by simp
qed

lemma binop_infix:
  assumes "binop_token op = Some type" "at E p (T type # toks)"
    and "\<And>p'. at E p' toks \<Longrightarrow> ok E (pe (get_precedence type) p') b ts"
  shows "ok E (parse_infix_expr n pe left p) (EBinop op left b) ts"
proof -
  obtain prec where prec: "map_of binops type = Some (op, prec)" "get_precedence type = prec"
    using binop_token_props(1) [OF assms(1)] by blast
  have "ok E (parse_binop op prec pe left p) (EBinop op left b) ts"
    unfolding parse_binop_def
    by (rule advance_step [OF assms(2)], rule ok_step [OF assms(3) [unfolded prec(2)]]) (simp_all add: ok_return)
  then show ?thesis using at_type [OF assms(2)] prec by (simp add: parse_infix_expr_def)
qed

definition group :: "shard_binop \<Rightarrow> shard_token_type \<Rightarrow> shard_binop \<Rightarrow> shard_token_type \<Rightarrow>
    shard_expr \<Rightarrow> shard_expr \<Rightarrow> shard_expr \<Rightarrow> shard_expr" where
  "group o1 t1 o2 t2 a b c =
     (if get_precedence t1 < get_precedence t2 then EBinop o1 a (EBinop o2 b c) else EBinop o2 (EBinop o1 a b) c)"

text \<open>The right operand of the first operator: \<open>b\<close> alone, or the whole of \<open>b t2 c\<close> when \<open>t2\<close> binds more tightly.\<close>

lemma operand_reads:
  assumes "prefix_reads N b tb" "prefix_reads N c tc" "binop_token o2 = Some t2"
    and "at E p (tb @ T t2 # tc)"
  shows "ok E (parse_expr (N + 5 + m) prec p)
     (if prec < get_precedence t2 then EBinop o2 b c else b) (if prec < get_precedence t2 then [] else T t2 # tc)"
proof -
  have f: "follow (T t2 # tc)" using binop_token_props(2) [OF assms(3)] .
  have r: "reads (Suc (Suc (Suc (N + m)))) c tc" by (intro reads_prefix [OF assms(2)]) simp
  show ?thesis
  proof (cases "prec < get_precedence t2")
    case True
    have "ok E (parse_expr (Suc (Suc (Suc (Suc (N + m + 1))))) prec p) (EBinop o2 b c) []"
    proof (rule infix_reads [OF assms(1) _ assms(4) f])
      fix p'
      assume p': "at E p' (T t2 # tc)"
      show "ok E (parse_infix_expr (Suc (Suc (N + m + 1))) (parse_expr (Suc (Suc (Suc (N + m + 1))))) b p') (EBinop o2 b c) []"
      proof (rule binop_infix [OF assms(3) p'])
        fix p2
        assume "at E p2 tc"
        then have "at E p2 (tc @ [])" by simp
        moreover have "reads (Suc (Suc (Suc (N + m + 1)))) c tc" by (intro reads_prefix [OF assms(2)]) simp
        ultimately show "ok E (parse_expr (Suc (Suc (Suc (N + m + 1)))) (get_precedence t2) p2) c []"
          by (intro reads_ok) simp_all
      qed
    qed (use True in simp_all)
    then show ?thesis using True by (simp add: numeral_eq_Suc)
  next
    case False
    have "reads (N + 5 + m) b tb" by (intro reads_prefix [OF assms(1)]) simp
    then show ?thesis using False assms(4) f by (simp add: reads_ok)
  qed
qed

lemma group_reads:
  assumes "prefix_reads N a ta" "prefix_reads N b tb" "prefix_reads N c tc"
    and "binop_token o1 = Some t1" "binop_token o2 = Some t2" "at E p (ta @ T t1 # tb @ T t2 # tc)"
  shows "ok E (parse_expr (Suc (N + 5 + m)) 0 p) (group o1 t1 o2 t2 a b c) []"
proof -
  let ?n = "N + 5 + m" and ?c = "get_precedence t1 < get_precedence t2"
  define e1 where "e1 = EBinop o1 a (if ?c then EBinop o2 b c else b)"
  define ts1 where "ts1 = (if ?c then [] else T t2 # tc)"
  obtain k where k: "?n = Suc (Suc (Suc k))" by (rule that [of "N + 2 + m"]) simp
  have pos: "0 < get_precedence t1" "0 < get_precedence t2" using binop_token_props(1) assms(4,5) by blast+
  have pre: "ok E (parse_prefix ?n p) a (T t1 # tb @ T t2 # tc)"
    by (rule prefix_readsD [OF assms(1) _ assms(6) binop_token_props(2) [OF assms(4)]]) simp
  have step1: "ok E (parse_infix_expr i (parse_expr ?n) a p1) e1 ts1" if "at E p1 (T t1 # tb @ T t2 # tc)" for p1 i
    unfolding e1_def ts1_def by (rule binop_infix [OF assms(4) that operand_reads [OF assms(2,3,5)]])
  have step2: "ok E (infix_loop (Suc (Suc k)) (parse_expr ?n) 0 0 e1 p1) (group o1 t1 o2 t2 a b c) []" if p1: "at E p1 ts1" for p1
  proof (cases ?c)
    case True
    then show ?thesis using infix_loop_stop [OF p1, of 0] by (simp add: group_def e1_def ts1_def)
  next
    case False
    have at2: "at E p1 (T t2 # tc)" using p1 False by (simp add: ts1_def)
    have c: "ok E (parse_expr ?n (get_precedence t2) p2) c []" if "at E p2 tc" for p2
    proof -
      have "reads ?n c tc" by (intro reads_prefix [OF assms(3)]) simp
      then show ?thesis using that by (intro reads_ok [of _ _ tc _ _ "[]"]) simp_all
    qed
    show ?thesis
    proof (rule infix_loop_step [OF at2])
      show "ok E (parse_infix_expr (Suc k) (parse_expr ?n) e1 p1) (EBinop o2 e1 c) []"
        by (rule binop_infix [OF assms(5) at2]) (rule c)
      show "ok E (infix_loop (Suc k) (parse_expr ?n) 0 0 (EBinop o2 e1 c) p2) (group o1 t1 o2 t2 a b c) []"
        if "at E p2 []" for p2
        using infix_loop_stop [OF that, of 0] False by (simp add: group_def e1_def)
    qed (use pos in simp)
  qed
  have "ok E (infix_loop ?n (parse_expr ?n) 0 0 a p1) (group o1 t1 o2 t2 a b c) []" if p1: "at E p1 (T t1 # tb @ T t2 # tc)" for p1
    unfolding k
    by (rule infix_loop_step [OF p1 _ step1 [unfolded k, OF p1] step2 [unfolded k]]) (use pos in simp_all)
  then show ?thesis unfolding parse_expr.simps(2) [of ?n] by (intro ok_bind [OF pre]) simp
qed

text \<open>C26. Operator precedence and associativity: from \<open>a t1 b t2 c\<close> without parentheses the parser builds the tree in
  which the operator of higher precedence binds more tightly, and groups to the left when the precedences are equal, for all
  binary operators and all printable operands.\<close>

theorem parse_precedence:
  assumes "printable a" "printable b" "printable c" "binop_token o1 = Some t1" "binop_token o2 = Some t2"
  shows "\<exists>N. \<forall>n \<ge> N.
     shard_parse n line (print_toks (expr_toks a @ T t1 # expr_toks b @ T t2 # expr_toks c) @ [CHR 0x00]) errors =
     Some (0, if get_precedence t1 < get_precedence t2 then EBinop o1 a (EBinop o2 b c) else EBinop o2 (EBinop o1 a b) c, errors)"
proof -
  let ?toks = "expr_toks a @ T t1 # expr_toks b @ T t2 # expr_toks c"
  obtain N1 N2 N3 where "prefix_reads N1 a (expr_toks a)" "prefix_reads N2 b (expr_toks b)" "prefix_reads N3 c (expr_toks c)"
    using printable_readable(1) [OF assms(1)] printable_readable(1) [OF assms(2)] printable_readable(1) [OF assms(3)]
    by (auto simp: readable_def)
  then have N: "prefix_reads (N1 + N2 + N3) a (expr_toks a)" "prefix_reads (N1 + N2 + N3) b (expr_toks b)"
    "prefix_reads (N1 + N2 + N3) c (expr_toks c)"
    by (auto elim: prefix_reads_mono)
  have "\<forall>t \<in> set ?toks. valid_tok t"
    using printable_valid(1) assms valid_binop [OF assms(4)] valid_binop [OF assms(5)] by auto
  moreover have "ok errors (parse_expr n 0 p) (group o1 t1 o2 t2 a b c) []"
    if "Suc (N1 + N2 + N3 + 5) \<le> n" "at errors p ?toks" for n p
  proof -
    have "n = Suc (N1 + N2 + N3 + 5 + (n - Suc (N1 + N2 + N3 + 5)))" using that(1) by simp
    then show ?thesis using group_reads [OF N assms(4,5) that(2)] by metis
  qed
  ultimately show ?thesis
    unfolding group_def [symmetric] by (intro exI [of _ "Suc (N1 + N2 + N3 + 5)"] allI impI shard_parse_toks) auto
qed

theorem parse_precedence_witness:
  "\<exists>N. \<forall>n \<ge> N. shard_parse n 1 (print_toks (expr_toks (EInt 1) @ T SHARD_TOK_SUB # expr_toks (EInt 2) @
       T SHARD_TOK_MUL # expr_toks (EInt 3)) @ [CHR 0x00]) [] =
     Some (0, if get_precedence SHARD_TOK_SUB < get_precedence SHARD_TOK_MUL
              then EBinop SHARD_EXPR_SUB (EInt 1) (EBinop SHARD_EXPR_MUL (EInt 2) (EInt 3))
              else EBinop SHARD_EXPR_MUL (EBinop SHARD_EXPR_SUB (EInt 1) (EInt 2)) (EInt 3), [])"
  by (rule parse_precedence) (simp_all add: binop_token_def binops_def)

subsection \<open>An error token inside a list\<close>

text \<open>\<open>parse_prefix_expr\<close> reports an error token without advancing past it, and \<open>parse_list\<close> tries again.\<close>

lemma parse_expr_err:
  assumes "token_type p = SHARD_TOK_ERR"
  shows "parse_expr n PREC_LIST_LITERAL p \<in> {None, Some (EINVAL, EUninit, p)}"
proof (cases n)
  case (Suc m)
  have "parse_prefix m p \<in> {None, Some (EINVAL, EUninit, p)}"
    using assms by (cases m) (simp_all add: parse_prefix.simps parse_prefix_expr_def)
  moreover have "infix_loop m (parse_expr m) PREC_LIST_LITERAL EINVAL EUninit p \<in> {None, Some (EINVAL, EUninit, p)}"
    using assms by (cases m) (simp_all add: get_precedence_def token_terminates_expr_def)
  ultimately show ?thesis unfolding Suc parse_expr.simps(2) by auto
qed (simp add: parse_expr.simps)

lemma list_loop_err:
  assumes "token_type p = SHARD_TOK_ERR"
  shows "list_loop n (parse_expr m) err elems p = None"
proof (induction n arbitrary: err elems)
  case (Suc n)
  then show ?case using assms parse_expr_err [OF assms, of m] by auto
qed simp

lemma parse_expr_list_err:
  assumes "token_type p = SHARD_TOK_LBRACKET" "advance p = Some (err, p1)" "token_type p1 = SHARD_TOK_ERR"
  shows "parse_expr n prec p = None"
proof (cases n)
  case (Suc m)
  have "parse_prefix m p = None"
    using assms list_loop_err [OF assms(3)] by (cases m) (simp_all add: parse_prefix.simps parse_prefix_expr_def parse_list_def)
  then show ?thesis by (simp add: Suc parse_expr.simps)
qed (simp add: parse_expr.simps)

text \<open>C27. \<open>parse_list\<close> does not return on every input: a single \<open>&\<close> is an error token of the lexer, and no fuel lets the
  parser come back from \<open>[ & ]\<close>.\<close>

theorem parse_list_diverges:
  "shard_parse n 1 (''[ & ]'' @ [CHR 0x00]) [] = None"
proof -
  define none where "none = \<lparr>tok_type = SHARD_TOK_EOF,
     tok_location = \<lparr>loc_line = 0, loc_column = 0, loc_width = 0, loc_offset = 0\<rparr>, tok_value = NoValue\<rparr>"
  define p where "p = \<lparr>p_lexer = shard_lex_init 1 (''[ & ]'' @ [CHR 0x00]) [], p_token = none, p_errors = []\<rparr>"
  have "case advance p of None \<Rightarrow> False | Some (e1, p1) \<Rightarrow> token_type p1 = SHARD_TOK_LBRACKET \<and>
      (case advance p1 of None \<Rightarrow> False | Some (e2, p2) \<Rightarrow> token_type p2 = SHARD_TOK_ERR)"
    unfolding p_def none_def by code_simp
  then obtain e1 p1 e2 p2 where "advance p = Some (e1, p1)" "token_type p1 = SHARD_TOK_LBRACKET"
    "advance p1 = Some (e2, p2)" "token_type p2 = SHARD_TOK_ERR"
    by (auto split: option.splits)
  then show ?thesis using parse_expr_list_err [of p1] by (simp add: shard_parse_def p_def none_def Let_def)
qed

end
