(* ===== verification/ShardMap.thy ===== *)
theory ShardMap
  imports Prelude
begin

text \<open>
  The string-keyed hash map of the shard language, \<^verbatim>\<open>shard/libshard/hashmap.c\<close>: open addressing with linear probing in a table whose
  size is a power of two. A key is the text before its terminator, a pair with a null key is \<open>None\<close>, and the success of the
  allocator is an argument. \<open>shard_hashmap_put\<close> and \<open>shard_hashmap_get\<close> behave as a finite map, also across a rehash.
\<close>

subsection \<open>Model\<close>

record hashmap =
  hm_size :: u64
  hm_alloc :: u64
  hm_pairs :: "(u8 list \<times> nat option) option list"

definition hash_byte :: "u64 \<Rightarrow> u8 \<Rightarrow> u64" where
  "hash_byte hash b =
     (let hash = hash + ucast b; hash = hash + push_bit 10 hash in hash XOR drop_bit 6 hash)"

definition default_hash :: "u8 list \<Rightarrow> u64" where
  "default_hash data =
     (let hash = foldl hash_byte 0 data;
          hash = hash + push_bit 3 hash;
          hash = hash XOR drop_bit 11 hash in
      hash + push_bit 15 hash)"

definition size_mod :: "hashmap \<Rightarrow> u64 \<Rightarrow> u64" where
  "size_mod m hash = hash AND (hm_alloc m - 1)"

definition probe_next :: "hashmap \<Rightarrow> u64 \<Rightarrow> u64" where
  "probe_next m index = size_mod m (index + 1)"

text \<open>\<open>1 << (64 - __builtin_clzl(x - 1))\<close>: counting the zeros of 0 is undefined, and the shift is one of \<open>int\<close>.\<close>

fun bit_len :: "nat \<Rightarrow> nat" where
  "bit_len n = (if n = 0 then 0 else Suc (bit_len (n div 2)))"

declare bit_len.simps [simp del]

definition pow2_above :: "u64 \<Rightarrow> u64 option" where
  "pow2_above x = (if x - 1 = 0 \<or> 31 \<le> bit_len (unat (x - 1)) then None else Some (2 ^ bit_len (unat (x - 1))))"

definition calc_size :: "hashmap \<Rightarrow> u64 option" where
  "calc_size m =
     (let map_size = hm_size m + hm_size m div 3 in
      if map_size < hm_alloc m then Some (hm_alloc m) else pow2_above map_size)"

definition calc_index :: "hashmap \<Rightarrow> u8 list \<Rightarrow> u64" where
  "calc_index m key = size_mod m (default_hash key)"

text \<open>The probing loop, with \<open>n\<close> rounds left; the result is the position of the pair or null.\<close>

primrec find_loop :: "nat \<Rightarrow> hashmap \<Rightarrow> u8 list \<Rightarrow> u64 \<Rightarrow> bool \<Rightarrow> nat option option" where
  "find_loop 0 m key index find_empty = Some None"
| "find_loop (Suc n) m key index find_empty =
     (if unat index < length (hm_pairs m) then
        (case hm_pairs m ! unat index of
           None \<Rightarrow> Some (if find_empty then Some (unat index) else None)
         | Some (k, v) \<Rightarrow>
             if k = key then Some (Some (unat index))
             else find_loop n m key (probe_next m index) find_empty)
      else None)"

definition find_pair :: "hashmap \<Rightarrow> u8 list \<Rightarrow> bool \<Rightarrow> nat option option" where
  "find_pair m key find_empty = find_loop (unat (hm_alloc m)) m key (calc_index m key) find_empty"

fun rehash_loop :: "(u8 list \<times> nat option) option list \<Rightarrow> hashmap \<Rightarrow> hashmap option" where
  "rehash_loop [] m = Some m"
| "rehash_loop (None # old) m = rehash_loop old m"
| "rehash_loop (Some (k, v) # old) m = do {
     new_pair \<leftarrow> find_pair m k True;
     i \<leftarrow> new_pair;
     rehash_loop old (m\<lparr>hm_pairs := (hm_pairs m)[i := Some (k, v)]\<rparr>)
   }"

definition rehash :: "bool \<Rightarrow> hashmap \<Rightarrow> u64 \<Rightarrow> hashmap option" where
  "rehash malloc_ok m sz =
     (if sz < hm_size m then Some m
      else if \<not> malloc_ok then None
      else rehash_loop (hm_pairs m) (m\<lparr>hm_alloc := sz, hm_pairs := replicate (unat sz) None\<rparr>))"

definition shard_hashmap_init :: "bool \<Rightarrow> u64 \<Rightarrow> hashmap option" where
  "shard_hashmap_init malloc_ok sz = do {
     actual_size \<leftarrow> pow2_above sz;
     kassert malloc_ok;
     Some \<lparr>hm_size = 0, hm_alloc = actual_size, hm_pairs = replicate (unat actual_size) None\<rparr>
   }"

definition shard_hashmap_free :: "hashmap \<Rightarrow> hashmap" where
  "shard_hashmap_free m = m\<lparr>hm_alloc := 0, hm_pairs := []\<rparr>"

definition shard_hashmap_put :: "bool \<Rightarrow> hashmap \<Rightarrow> u8 list option \<Rightarrow> nat option \<Rightarrow> (errno \<times> hashmap) option" where
  "shard_hashmap_put malloc_ok m key value =
     (case key of
        None \<Rightarrow> Some (EINVAL, m)
      | Some key \<Rightarrow> do {
          map_size \<leftarrow> calc_size m;
          m \<leftarrow> (if map_size > hm_alloc m then rehash malloc_ok m map_size else Some m);
          pair \<leftarrow> find_pair m key True;
          (case pair of
             None \<Rightarrow> Some (ENOMEM, m)
           | Some i \<Rightarrow>
               if hm_pairs m ! i \<noteq> None then Some (EEXIST, m)
               else Some (0, m\<lparr>hm_pairs := (hm_pairs m)[i := Some (key, value)], hm_size := hm_size m + 1\<rparr>))
        })"

definition shard_hashmap_get :: "hashmap \<Rightarrow> u8 list \<Rightarrow> nat option option" where
  "shard_hashmap_get m key = do {
     pair \<leftarrow> find_pair m key False;
     Some (case pair of Some i \<Rightarrow> snd (the (hm_pairs m ! i)) | None \<Rightarrow> None)
   }"

subsection \<open>Probing\<close>

abbreviation hkey :: "u8 list \<Rightarrow> nat" where
  "hkey k \<equiv> unat (default_hash k)"

text \<open>The probing loop on natural numbers.\<close>

primrec probe_find :: "nat \<Rightarrow> (u8 list \<times> nat option) option list \<Rightarrow> u8 list \<Rightarrow> nat \<Rightarrow> bool \<Rightarrow> nat option" where
  "probe_find 0 ps key j fe = None"
| "probe_find (Suc n) ps key j fe =
     (case ps ! (j mod length ps) of
        None \<Rightarrow> if fe then Some (j mod length ps) else None
      | Some (k, v) \<Rightarrow> if k = key then Some (j mod length ps) else probe_find n ps key (Suc j) fe)"

definition sized :: "hashmap \<Rightarrow> bool" where
  "sized m \<longleftrightarrow> (\<exists>c. 1 \<le> c \<and> c \<le> 30 \<and> hm_alloc m = 2 ^ c) \<and> length (hm_pairs m) = unat (hm_alloc m)"

lemma unat_pow2: "c \<le> 30 \<Longrightarrow> unat (2 ^ c :: u64) = 2 ^ c"
proof -
  assume "c \<le> 30"
  then have "(2 :: nat) ^ c < 2 ^ 64" by (intro power_strict_increasing) simp_all
  then show ?thesis using unat_of_nat_u64 [of "2 ^ c"] by simp
qed

lemma sizedD: "sized m \<Longrightarrow> 2 \<le> length (hm_pairs m) \<and> length (hm_pairs m) \<le> 2 ^ 30"
proof -
  assume "sized m"
  then obtain c where c: "1 \<le> c" "c \<le> 30" "length (hm_pairs m) = 2 ^ c" by (auto simp: sized_def unat_pow2)
  have "(2 :: nat) ^ 1 \<le> 2 ^ c" "(2 :: nat) ^ c \<le> 2 ^ 30" using c by (intro power_increasing; simp)+
  then show ?thesis using c by simp
qed

lemma unat_size_mod: "sized m \<Longrightarrow> unat (size_mod m h) = unat h mod length (hm_pairs m)"
proof -
  assume "sized m"
  then obtain c where c: "hm_alloc m = 2 ^ c" "c \<le> 30" "length (hm_pairs m) = 2 ^ c" by (auto simp: sized_def unat_pow2)
  have "size_mod m h = take_bit c h" unfolding size_mod_def c(1) take_bit_eq_mask mask_eq_exp_minus_1 ..
  then show ?thesis using c(3) unat_pow2 [OF c(2)] by (simp add: take_bit_eq_mod unat_mod_distrib)
qed

lemma unat_probe_next:
  assumes "sized m" "unat index = j mod length (hm_pairs m)"
  shows "unat (probe_next m index) = Suc j mod length (hm_pairs m)"
proof -
  have len: "2 \<le> length (hm_pairs m)" "length (hm_pairs m) \<le> 2 ^ 30" using sizedD [OF assms(1)] by simp_all
  then have "j mod length (hm_pairs m) < length (hm_pairs m)" by (intro mod_less_divisor) linarith
  then have "unat index < 2 ^ 30" using len assms(2) by linarith
  then have "unat (index + 1) = Suc (j mod length (hm_pairs m))" using assms(2) by (simp add: unat_word_ariths)
  then show ?thesis by (simp add: probe_next_def unat_size_mod [OF assms(1)] mod_Suc_eq)
qed

lemma find_loop_probe:
  assumes "sized m" "unat index = j mod length (hm_pairs m)"
  shows "find_loop n m key index fe = Some (probe_find n (hm_pairs m) key j fe)"
  using assms(2)
proof (induction n arbitrary: index j)
  case (Suc n)
  have "0 < length (hm_pairs m)" using sizedD [OF assms(1)] by linarith
  then have "unat index < length (hm_pairs m)" using Suc.prems mod_less_divisor by metis
  then show ?case using Suc.IH [OF unat_probe_next [OF assms(1) Suc.prems]] Suc.prems by (simp split: option.splits)
qed simp

lemma find_pair_probe:
  "sized m \<Longrightarrow> find_pair m key fe = Some (probe_find (length (hm_pairs m)) (hm_pairs m) key (hkey key) fe)"
  unfolding find_pair_def
  by (subst find_loop_probe [where j = "hkey key"]) (simp_all add: calc_index_def unat_size_mod, simp add: sized_def)

text \<open>Where the probe ends: at the key, at the first empty place before it, or nowhere in a full table.\<close>

definition passes :: "(u8 list \<times> nat option) option list \<Rightarrow> u8 list \<Rightarrow> nat \<Rightarrow> nat \<Rightarrow> bool" where
  "passes ps key j d \<longleftrightarrow> (\<forall>i < d. \<exists>k v. ps ! ((j + i) mod length ps) = Some (k, v) \<and> k \<noteq> key)"

lemma passes_Suc:
  "passes ps key j (Suc d) \<longleftrightarrow> (\<exists>k v. ps ! (j mod length ps) = Some (k, v) \<and> k \<noteq> key) \<and> passes ps key (Suc j) d"
proof -
  have "(\<forall>i < Suc d. P i) \<longleftrightarrow> P 0 \<and> (\<forall>i < d. P (Suc i))" for P using less_Suc_eq_0_disj by auto
  then show ?thesis by (simp add: passes_def)
qed

lemma probe_passes: "passes ps key j d \<Longrightarrow> probe_find (d + n) ps key j fe = probe_find n ps key (j + d) fe"
proof (induction d arbitrary: j)
  case (Suc d)
  then obtain k v where "ps ! (j mod length ps) = Some (k, v)" "k \<noteq> key" "passes ps key (Suc j) d" by (auto simp: passes_Suc)
  then show ?case using Suc.IH by simp
qed simp

lemma probe_hit:
  assumes "passes ps key j d" "d < n" "ps ! ((j + d) mod length ps) = Some (key, v)"
  shows "probe_find n ps key j fe = Some ((j + d) mod length ps)"
proof -
  obtain r where n: "n = d + Suc r" using assms(2) less_imp_Suc_add by auto
  show ?thesis unfolding n probe_passes [OF assms(1)] using assms(3) by simp
qed

lemma probe_empty:
  assumes "passes ps key j d" "d < n" "ps ! ((j + d) mod length ps) = None"
  shows "probe_find n ps key j fe = (if fe then Some ((j + d) mod length ps) else None)"
proof -
  obtain r where n: "n = d + Suc r" using assms(2) less_imp_Suc_add by auto
  show ?thesis unfolding n probe_passes [OF assms(1)] using assms(3) by simp
qed

lemma probe_full: "passes ps key j n \<Longrightarrow> probe_find n ps key j fe = None"
  using probe_passes [of ps key j n 0 fe] by simp

lemma probe_reaches:
  fixes A :: nat
  assumes "p < A"
  shows "\<exists>d < A. (h + d) mod A = p"
proof (intro exI [of _ "(p + (A - h mod A)) mod A"] conjI)
  have r: "h mod A < A" using assms by simp
  have "(h + (p + (A - h mod A)) mod A) mod A = (h mod A + (p + (A - h mod A))) mod A" by (simp add: mod_simps)
  also have "h mod A + (p + (A - h mod A)) = p + A" using r by simp
  finally show "(h + (p + (A - h mod A)) mod A) mod A = p" using assms by simp
qed (use assms in simp)

subsection \<open>The invariant\<close>

text \<open>Every key is reached from its hash over places that hold other keys.\<close>

definition probed :: "(u8 list \<times> nat option) option list \<Rightarrow> bool" where
  "probed ps \<longleftrightarrow> (\<forall>p < length ps. \<forall>k v. ps ! p = Some (k, v) \<longrightarrow>
     (\<exists>d < length ps. (hkey k + d) mod length ps = p \<and> passes ps k (hkey k) d))"

definition holds :: "(u8 list \<times> nat option) option list \<Rightarrow> u8 list \<Rightarrow> nat option \<Rightarrow> bool" where
  "holds ps k v \<longleftrightarrow> (\<exists>p < length ps. ps ! p = Some (k, v))"

definition hm_shape :: "hashmap \<Rightarrow> bool" where
  "hm_shape m \<longleftrightarrow> sized m \<and> probed (hm_pairs m)"

lemma probed_find:
  assumes "probed ps" "p < length ps" "ps ! p = Some (k, v)"
  shows "probe_find (length ps) ps k (hkey k) fe = Some p"
proof -
  obtain d where d: "d < length ps" "(hkey k + d) mod length ps = p" "passes ps k (hkey k) d"
    using assms unfolding probed_def by blast
  have "ps ! ((hkey k + d) mod length ps) = Some (k, v)" unfolding d(2) by (rule assms(3))
  from probe_hit [OF d(3,1) this, of fe] show ?thesis unfolding d(2) .
qed

lemma probed_unique:
  assumes "probed ps" "p < length ps" "ps ! p = Some (k, v)" "q < length ps" "ps ! q = Some (k, w)"
  shows "p = q"
  using probed_find [OF assms(1,2,3), of True] probed_find [OF assms(1,4,5), of True] by simp

lemma probe_absent:
  assumes "\<nexists>v. holds ps k v"
  shows "(\<exists>d < length ps. passes ps k (hkey k) d \<and> ps ! ((hkey k + d) mod length ps) = None) \<or>
    passes ps k (hkey k) (length ps) \<and> (\<forall>p < length ps. ps ! p \<noteq> None)"
proof -
  let ?at = "\<lambda>d. ps ! ((hkey k + d) mod length ps)"
  have other: "\<exists>k' v. ?at i = Some (k', v) \<and> k' \<noteq> k" if some: "?at i \<noteq> None" and i: "i < length ps" for i
  proof (cases "?at i")
    case None
    then show ?thesis using some by blast
  next
    case (Some kv)
    obtain k' v where kv: "kv = (k', v)" by (cases kv)
    have "0 < length ps" using i by linarith
    then have p: "(hkey k + i) mod length ps < length ps" by (rule mod_less_divisor)
    have "k' \<noteq> k"
    proof
      assume "k' = k"
      then have "holds ps k v" unfolding holds_def using p Some kv by blast
      then show False using assms by blast
    qed
    then show ?thesis using Some kv by blast
  qed
  show ?thesis
  proof (cases "\<exists>d < length ps. ?at d = None")
    case True
    define d where "d = (LEAST d. d < length ps \<and> ?at d = None)"
    have d: "d < length ps \<and> ?at d = None" unfolding d_def by (rule LeastI_ex) (rule True)
    have least: "\<not> (i < length ps \<and> ?at i = None)" if "i < d" for i using that unfolding d_def by (rule not_less_Least)
    have "passes ps k (hkey k) d" unfolding passes_def
    proof (intro allI impI)
      fix i assume i: "i < d"
      then have len: "i < length ps" using d by linarith
      have "?at i \<noteq> None"
      proof
        assume "?at i = None"
        with len have "i < length ps \<and> ?at i = None" by (rule conjI)
        then show False by (rule notE [OF least [OF i]])
      qed
      from this len show "\<exists>k' v. ?at i = Some (k', v) \<and> k' \<noteq> k" by (rule other)
    qed
    then show ?thesis using conjunct1 [OF d] conjunct2 [OF d] by (intro disjI1 exI [of _ d] conjI)
  next
    case False
    have all: "?at d \<noteq> None" if len: "d < length ps" for d
    proof
      assume "?at d = None"
      with len have "\<exists>d < length ps. ?at d = None" by (intro exI [of _ d] conjI)
      with False show False by (rule notE)
    qed
    have "passes ps k (hkey k) (length ps)" unfolding passes_def
    proof (intro allI impI)
      fix i assume i: "i < length ps"
      from all [OF i] i show "\<exists>k' v. ?at i = Some (k', v) \<and> k' \<noteq> k" by (rule other)
    qed
    moreover have "ps ! p \<noteq> None" if p: "p < length ps" for p
    proof -
      obtain d where "d < length ps" "(hkey k + d) mod length ps = p" using probe_reaches [OF p, of "hkey k"] by blast
      then show ?thesis using all by metis
    qed
    ultimately show ?thesis by (intro disjI2 conjI allI impI)
  qed
qed

lemma passes_update:
  assumes "passes ps k j d" "ps ! p = None"
  shows "passes (ps[p := x]) k j d"
  unfolding passes_def length_list_update
proof (intro allI impI)
  fix i assume "i < d"
  then obtain k' v where kv: "ps ! ((j + i) mod length ps) = Some (k', v)" "k' \<noteq> k" using assms(1) unfolding passes_def by blast
  then have "(j + i) mod length ps \<noteq> p" using assms(2) by auto
  then have "ps[p := x] ! ((j + i) mod length ps) = Some (k', v)" using kv(1) by simp
  then show "\<exists>k' v. ps[p := x] ! ((j + i) mod length ps) = Some (k', v) \<and> k' \<noteq> k" using kv(2) by blast
qed

lemma probed_insert:
  assumes "probed ps" "d < length ps" "passes ps k (hkey k) d" "p = (hkey k + d) mod length ps" "ps ! p = None"
  shows "probed (ps[p := Some (k, v)])"
  unfolding probed_def length_list_update
proof (intro allI impI)
  fix q k' v' assume q: "q < length ps" "ps[p := Some (k, v)] ! q = Some (k', v')"
  show "\<exists>d < length ps. (hkey k' + d) mod length ps = q \<and> passes (ps[p := Some (k, v)]) k' (hkey k') d"
  proof (cases "q = p")
    case True
    then have "k' = k" using q by simp
    then show ?thesis using assms True passes_update by blast
  next
    case False
    then have "ps ! q = Some (k', v')" using q by simp
    then obtain e where "e < length ps" "(hkey k' + e) mod length ps = q" "passes ps k' (hkey k') e"
      using assms(1) q(1) unfolding probed_def by blast
    then show ?thesis using passes_update assms(5) by blast
  qed
qed

lemma holds_insert:
  assumes "p < length ps" "ps ! p = None"
  shows "holds (ps[p := Some (k, v)]) k' v' \<longleftrightarrow> holds ps k' v' \<or> k' = k \<and> v' = v"
proof
  assume "holds (ps[p := Some (k, v)]) k' v'"
  then obtain q where q: "q < length ps" "ps[p := Some (k, v)] ! q = Some (k', v')" by (auto simp: holds_def)
  show "holds ps k' v' \<or> k' = k \<and> v' = v"
  proof (cases "q = p")
    case False
    then have "ps ! q = Some (k', v')" using q(2) by simp
    then show ?thesis using q(1) by (auto simp: holds_def)
  qed (use q in simp)
next
  assume "holds ps k' v' \<or> k' = k \<and> v' = v"
  then show "holds (ps[p := Some (k, v)]) k' v'"
  proof
    assume "holds ps k' v'"
    then obtain q where q: "q < length ps" "ps ! q = Some (k', v')" by (auto simp: holds_def)
    then have "ps[p := Some (k, v)] ! q = Some (k', v')" using assms by (cases "q = p") simp_all
    then show ?thesis using q(1) unfolding holds_def length_list_update by blast
  next
    assume "k' = k \<and> v' = v"
    then have "ps[p := Some (k, v)] ! p = Some (k', v')" using assms by simp
    then show ?thesis using assms(1) unfolding holds_def length_list_update by blast
  qed
qed

lemma get_holds:
  assumes "hm_shape m" "holds (hm_pairs m) k v"
  shows "shard_hashmap_get m k = Some v"
proof -
  obtain p where p: "p < length (hm_pairs m)" "hm_pairs m ! p = Some (k, v)" using assms(2) unfolding holds_def by blast
  have m: "sized m" "probed (hm_pairs m)" using assms(1) by (simp_all add: hm_shape_def)
  show ?thesis using find_pair_probe [OF m(1), of k False] probed_find [OF m(2) p, of False] p(2)
    by (simp add: shard_hashmap_get_def)
qed

lemma get_absent:
  assumes "hm_shape m" "\<nexists>v. holds (hm_pairs m) k v"
  shows "shard_hashmap_get m k = Some None"
proof -
  have "probe_find (length (hm_pairs m)) (hm_pairs m) k (hkey k) False = None"
    using probe_absent [OF assms(2)]
  proof
    assume "\<exists>d < length (hm_pairs m). passes (hm_pairs m) k (hkey k) d \<and> hm_pairs m ! ((hkey k + d) mod length (hm_pairs m)) = None"
    then obtain d where "d < length (hm_pairs m)" "passes (hm_pairs m) k (hkey k) d"
      "hm_pairs m ! ((hkey k + d) mod length (hm_pairs m)) = None" by blast
    then show ?thesis using probe_empty [of "hm_pairs m" k "hkey k" d "length (hm_pairs m)" False] by simp
  qed (use probe_full in blast)
  then show ?thesis using assms(1) find_pair_probe [of m k False] by (simp add: shard_hashmap_get_def hm_shape_def)
qed

lemma get_cong:
  assumes "hm_shape m" "hm_shape m'" "\<And>v. holds (hm_pairs m') k v \<longleftrightarrow> holds (hm_pairs m) k v"
  shows "shard_hashmap_get m' k = shard_hashmap_get m k"
proof (cases "\<exists>v. holds (hm_pairs m) k v")
  case True
  then obtain v where "holds (hm_pairs m) k v" "holds (hm_pairs m') k v" using assms(3) by blast
  then show ?thesis using get_holds assms by simp
next
  case False
  then have "\<nexists>v. holds (hm_pairs m') k v" using assms(3) by blast
  then show ?thesis using get_absent [OF assms(1) False] get_absent [OF assms(2)] by simp
qed

subsection \<open>Insertion\<close>

text \<open>A key that is absent is put into an empty place, unless the table is full.\<close>

lemma find_pair_absent:
  assumes "hm_shape m" "\<nexists>v. holds (hm_pairs m) k v"
  shows "find_pair m k True = Some None \<and> (\<forall>p < length (hm_pairs m). hm_pairs m ! p \<noteq> None) \<or>
    (\<exists>p < length (hm_pairs m). find_pair m k True = Some (Some p) \<and> hm_pairs m ! p = None \<and>
      (\<forall>v sz. hm_shape (m\<lparr>hm_pairs := (hm_pairs m)[p := Some (k, v)], hm_size := sz\<rparr>)))"
proof -
  have m: "sized m" "probed (hm_pairs m)" using assms(1) by (simp_all add: hm_shape_def)
  let ?ps = "hm_pairs m"
  from probe_absent [OF assms(2)] show ?thesis
  proof
    assume "\<exists>d < length ?ps. passes ?ps k (hkey k) d \<and> ?ps ! ((hkey k + d) mod length ?ps) = None"
    then obtain d p where d: "d < length ?ps" "passes ?ps k (hkey k) d" "p = (hkey k + d) mod length ?ps" "?ps ! p = None" by blast
    have "p < length ?ps" using d(1) unfolding d(3) by (intro mod_less_divisor) linarith
    moreover have "find_pair m k True = Some (Some p)"
      using find_pair_probe [OF m(1), of k True] probe_empty [OF d(2,1), of True] d(3,4) by simp
    moreover have "hm_shape (m\<lparr>hm_pairs := ?ps[p := Some (k, v)], hm_size := sz\<rparr>)" for v sz
      using m(1) probed_insert [OF m(2) d] by (simp add: hm_shape_def sized_def)
    ultimately show ?thesis using d(4) by blast
  next
    assume "passes ?ps k (hkey k) (length ?ps) \<and> (\<forall>p < length ?ps. ?ps ! p \<noteq> None)"
    then show ?thesis using find_pair_probe [OF m(1), of k True] probe_full by simp
  qed
qed

definition used :: "(u8 list \<times> nat option) option list \<Rightarrow> nat set" where
  "used ps = {p. p < length ps \<and> ps ! p \<noteq> None}"

lemma used_insert: "p < length ps \<Longrightarrow> used (ps[p := Some x]) = insert p (used ps)"
  by (auto simp: used_def nth_list_update)

lemma finite_used: "finite (used ps)"
  by (simp add: used_def)

lemma card_used_insert: "p < length ps \<Longrightarrow> ps ! p = None \<Longrightarrow> card (used (ps[p := Some x])) = Suc (card (used ps))"
  by (simp add: used_insert finite_used) (simp add: used_def)

lemma card_used_le: "card (used ps) \<le> length ps"
  using card_mono [of "{..<length ps}" "used ps"] by (auto simp: used_def)

lemma used_full: "(\<forall>p < length ps. ps ! p \<noteq> None) \<Longrightarrow> card (used ps) = length ps"
proof -
  assume "\<forall>p < length ps. ps ! p \<noteq> None"
  then have "used ps = {..<length ps}" by (auto simp: used_def)
  then show ?thesis by simp
qed

lemma used_room: "card (used ps) < length ps \<Longrightarrow> \<exists>p < length ps. ps ! p = None"
proof (rule ccontr)
  assume less: "card (used ps) < length ps" and "\<not> (\<exists>p < length ps. ps ! p = None)"
  then have "used ps = {..<length ps}" by (auto simp: used_def)
  then show False using less by simp
qed

text \<open>Moving the pairs over: after \<open>j\<close> places of the old table the new one holds exactly their pairs.\<close>

lemma rehash_loop_holds:
  assumes "probed old" "length old < length (hm_pairs m)" "j \<le> length old" "hm_shape m" "card (used (hm_pairs m)) = card (used (take j old))"
    and "\<forall>k v. holds (hm_pairs m) k v \<longleftrightarrow> (\<exists>i < j. old ! i = Some (k, v))"
  shows "\<exists>m'. rehash_loop (drop j old) m = Some m' \<and> hm_shape m' \<and> hm_size m' = hm_size m \<and>
    hm_alloc m' = hm_alloc m \<and> card (used (hm_pairs m')) = card (used old) \<and> (\<forall>k v. holds (hm_pairs m') k v \<longleftrightarrow> holds old k v)"
  using assms(2-)
proof (induction "length old - j" arbitrary: j m)
  case 0
  then have "j = length old" by simp
  then show ?case using 0 by (simp add: holds_def)
next
  case (Suc n)
  have j: "j < length old" "n = length old - Suc j" "Suc j \<le> length old" using Suc.hyps(2) by simp_all
  have step: "drop j old = old ! j # drop (Suc j) old" using j(1) by (simp add: Cons_nth_drop_Suc)
  have take: "take (Suc j) old = take j old @ [old ! j]" using j(1) by (rule take_Suc_conv_app_nth)
  have len: "length (take j old) = j" using j(1) by simp
  have less_Suc: "(\<exists>i < Suc j. old ! i = x) \<longleftrightarrow> (\<exists>i < j. old ! i = x) \<or> old ! j = x" for x using less_Suc_eq by auto
  show ?case
  proof (cases "old ! j")
    case None
    then have "\<forall>k v. holds (hm_pairs m) k v \<longleftrightarrow> (\<exists>i < Suc j. old ! i = Some (k, v))" using Suc.prems(5) less_Suc by simp
    moreover have "used (take (Suc j) old) = used (take j old)"
      unfolding take used_def using None len by (auto simp: nth_append less_Suc_eq)
    then have "card (used (hm_pairs m)) = card (used (take (Suc j) old))" using Suc.prems(4) by simp
    ultimately show ?thesis using Suc.hyps(1) [OF j(2) Suc.prems(1) j(3) Suc.prems(3)] step None by simp
  next
    case (Some kv)
    then obtain k v where kv: "old ! j = Some (k, v)" by (cases kv) auto
    have absent: "\<nexists>w. holds (hm_pairs m) k w"
    proof
      assume "\<exists>w. holds (hm_pairs m) k w"
      then obtain i w where i: "i < j" "old ! i = Some (k, w)" using Suc.prems(5) by blast
      then show False using probed_unique [OF assms(1) _ i(2) j(1) kv] j(1) by simp
    qed
    have "\<exists>p < length (hm_pairs m). hm_pairs m ! p = None" using Suc.prems(1,2,4) card_used_le [of "take j old"] len by (intro used_room) linarith
    then obtain p where p: "p < length (hm_pairs m)" "find_pair m k True = Some (Some p)" "hm_pairs m ! p = None"
      "\<forall>v sz. hm_shape (m\<lparr>hm_pairs := (hm_pairs m)[p := Some (k, v)], hm_size := sz\<rparr>)"
      using find_pair_absent [OF Suc.prems(3) absent] by blast
    define m1 where "m1 = m\<lparr>hm_pairs := (hm_pairs m)[p := Some (k, v)]\<rparr>"
    have "hm_shape (m\<lparr>hm_pairs := (hm_pairs m)[p := Some (k, v)], hm_size := hm_size m\<rparr>)" using p(4) by blast
    then have inv: "hm_shape m1" by (simp add: m1_def hm_shape_def sized_def)
    have "used (take (Suc j) old) = insert j (used (take j old))" "j \<notin> used (take j old)"
      unfolding take used_def using kv len by (auto simp: nth_append less_Suc_eq)
    then have "card (used (take (Suc j) old)) = Suc (card (used (take j old)))" by (simp add: finite_used)
    then have "card (used (hm_pairs m1)) = card (used (take (Suc j) old))"
      using card_used_insert [OF p(1,3)] Suc.prems(4) by (simp add: m1_def)
    moreover have "holds (hm_pairs m1) k' v' \<longleftrightarrow> (\<exists>i < Suc j. old ! i = Some (k', v'))" for k' v'
      using holds_insert [OF p(1,3), of k v k' v'] Suc.prems(5) less_Suc [of "Some (k', v')"] kv by (auto simp: m1_def)
    moreover have "length old < length (hm_pairs m1)" using Suc.prems(1) by (simp add: m1_def)
    ultimately show ?thesis using Suc.hyps(1) [OF j(2) _ j(3) inv] step kv p(2) by (simp add: m1_def)
  qed
qed

lemma bit_len_bound: "n < 2 ^ k \<Longrightarrow> bit_len n \<le> k"
proof (induction k arbitrary: n)
  case (Suc k)
  then have "n div 2 < 2 ^ k" by (simp add: div_less_iff_less_mult mult.commute)
  then show ?case using Suc.IH [of "n div 2"] by (cases "n = 0") (simp_all add: bit_len.simps [of n] bit_len.simps [of 0])
qed (simp add: bit_len.simps [of 0])

lemma bit_len_above: "n < 2 ^ bit_len n"
proof (induction n rule: bit_len.induct)
  case (1 n)
  show ?case
  proof (cases "n = 0")
    case False
    then have "n div 2 < 2 ^ bit_len (n div 2)" using 1 by simp
    then show ?thesis using False by (subst bit_len.simps) (simp add: div_less_iff_less_mult mult.commute)
  qed (simp add: bit_len.simps)
qed

lemma bit_len_pos: "n \<noteq> 0 \<Longrightarrow> 1 \<le> bit_len n"
  by (simp add: bit_len.simps [of n])

lemma pow2_above_size:
  assumes "2 \<le> unat x" "unat x \<le> 2 ^ 30"
  shows "\<exists>c. 1 \<le> c \<and> c \<le> 30 \<and> pow2_above x = Some (2 ^ c) \<and> unat x \<le> 2 ^ c"
proof -
  have u: "unat (x - 1) = unat x - 1" using assms by (simp add: unat_sub word_le_nat_alt)
  then have "unat (x - 1) < 2 ^ 30" "unat (x - 1) \<noteq> 0" using assms by linarith+
  then have "bit_len (unat (x - 1)) \<le> 30" "1 \<le> bit_len (unat (x - 1))" by (simp_all only: bit_len_bound bit_len_pos not_False_eq_True)
  moreover have "x - 1 \<noteq> 0" using \<open>unat (x - 1) \<noteq> 0\<close> by (metis unat_0)
  moreover have "unat x \<le> 2 ^ bit_len (unat (x - 1))" using bit_len_above [of "unat (x - 1)"] u by linarith
  ultimately show ?thesis unfolding pow2_above_def by auto
qed

lemma calc_size_pow2:
  assumes "sized m" "unat (hm_size m) < 2 ^ 29"
  shows "\<exists>sz c. calc_size m = Some sz \<and> 1 \<le> c \<and> c \<le> 30 \<and> sz = 2 ^ c \<and>
    (unat (hm_size m) + unat (hm_size m) div 3 < unat (hm_alloc m) \<and> sz = hm_alloc m \<or>
     unat (hm_size m) + unat (hm_size m) div 3 \<le> unat sz)"
proof -
  define x where "x = hm_size m + hm_size m div 3"
  have "unat (hm_size m div 3) = unat (hm_size m) div 3" by (simp add: unat_div_distrib)
  then have x: "unat x = unat (hm_size m) + unat (hm_size m) div 3"
    unfolding x_def using assms(2) by (subst unat_add_lem') auto
  show ?thesis
  proof (cases "x < hm_alloc m")
    case True
    then have "calc_size m = Some (hm_alloc m)" "unat x < unat (hm_alloc m)"
      by (simp_all add: calc_size_def x_def Let_def word_less_nat_alt)
    then show ?thesis using assms(1) x unfolding sized_def by auto
  next
    case False
    have "2 \<le> unat (hm_alloc m)" using sizedD [OF assms(1)] assms(1) by (simp add: sized_def)
    then have "2 \<le> unat x" using False by (simp add: word_less_nat_alt)
    moreover have "unat x \<le> 2 ^ 30" using x assms(2) by simp
    ultimately obtain c where c: "1 \<le> c" "c \<le> 30" "pow2_above x = Some (2 ^ c)" "unat x \<le> 2 ^ c"
      using pow2_above_size [of x] by blast
    moreover have "calc_size m = pow2_above x" using False by (simp add: calc_size_def x_def Let_def)
    ultimately show ?thesis using x unat_pow2 [of c] by (intro exI [of _ "2 ^ c"] exI [of _ c]) simp
  qed
qed

text \<open>The invariant of the map: the shape of the table, and a size that counts its pairs.\<close>

definition hm_inv :: "hashmap \<Rightarrow> bool" where
  "hm_inv m \<longleftrightarrow> hm_shape m \<and> unat (hm_size m) = card (used (hm_pairs m))"

lemma rehash_holds:
  assumes "hm_inv m" "sz = 2 ^ c" "1 \<le> c" "c \<le> 30" "sz > hm_alloc m"
  shows "\<exists>m'. rehash True m sz = Some m' \<and> hm_inv m' \<and> hm_size m' = hm_size m \<and> hm_alloc m' = sz \<and>
    (\<forall>k v. holds (hm_pairs m') k v \<longleftrightarrow> holds (hm_pairs m) k v)"
proof -
  have m: "sized m" "probed (hm_pairs m)" "unat (hm_size m) = card (used (hm_pairs m))"
    using assms(1) by (simp_all add: hm_inv_def hm_shape_def)
  define m0 where "m0 = m\<lparr>hm_alloc := sz, hm_pairs := replicate (unat sz) None\<rparr>"
  have none: "\<not> holds (hm_pairs m0) k v" for k v by (simp add: m0_def holds_def)
  have "sized m0" using assms(2-4) by (auto simp: sized_def m0_def)
  moreover have "probed (hm_pairs m0)" by (simp add: m0_def probed_def)
  ultimately have inv: "hm_shape m0" by (simp add: hm_shape_def)
  have more: "length (hm_pairs m) < unat sz" using m(1) assms(5) by (simp add: sized_def word_less_nat_alt)
  then have "\<not> sz < hm_size m" using m(3) card_used_le [of "hm_pairs m"] by (simp add: word_less_nat_alt)
  then have re: "rehash True m sz = rehash_loop (hm_pairs m) m0" by (simp add: rehash_def m0_def)
  have "used (hm_pairs m0) = {}" "used [] = {}" by (simp_all add: used_def m0_def)
  then have "\<exists>m'. rehash_loop (drop 0 (hm_pairs m)) m0 = Some m' \<and> hm_shape m' \<and> hm_size m' = hm_size m0 \<and> hm_alloc m' = hm_alloc m0 \<and>
      card (used (hm_pairs m')) = card (used (hm_pairs m)) \<and> (\<forall>k v. holds (hm_pairs m') k v \<longleftrightarrow> holds (hm_pairs m) k v)"
    using m(2) none inv more by (intro rehash_loop_holds) (simp_all add: m0_def)
  then show ?thesis using re m(3) by (auto simp: hm_inv_def m0_def)
qed

text \<open>Before a put the table has room, except when it has two places and both are taken: \<open>calc_size\<close> does not grow it then.\<close>

lemma grow:
  assumes "hm_inv m" "unat (hm_size m) < 2 ^ 29"
  shows "\<exists>sz m1. calc_size m = Some sz \<and> (if sz > hm_alloc m then rehash True m sz else Some m) = Some m1 \<and> hm_inv m1 \<and>
    hm_size m1 = hm_size m \<and> (\<forall>k v. holds (hm_pairs m1) k v \<longleftrightarrow> holds (hm_pairs m) k v) \<and>
    (card (used (hm_pairs m1)) = length (hm_pairs m1) \<longleftrightarrow> hm_alloc m = 2 \<and> hm_size m = 2)"
proof -
  have m: "sized m" "unat (hm_size m) = card (used (hm_pairs m))" "length (hm_pairs m) = unat (hm_alloc m)"
    using assms(1) by (auto simp: hm_inv_def hm_shape_def sized_def)
  have le: "unat (hm_size m) \<le> unat (hm_alloc m)" "2 \<le> unat (hm_alloc m)"
    using m card_used_le [of "hm_pairs m"] sizedD [OF m(1)] by simp_all
  have two: "hm_alloc m = 2 \<and> hm_size m = 2 \<longleftrightarrow> unat (hm_alloc m) = 2 \<and> unat (hm_size m) = 2" by (simp add: word_unat_eq_iff)
  obtain sz c where sz: "calc_size m = Some sz" "1 \<le> c" "c \<le> 30" "sz = 2 ^ c"
    "unat (hm_size m) + unat (hm_size m) div 3 < unat (hm_alloc m) \<and> sz = hm_alloc m \<or>
     unat (hm_size m) + unat (hm_size m) div 3 \<le> unat sz"
    using calc_size_pow2 [OF m(1) assms(2)] by blast
  show ?thesis
  proof (cases "sz > hm_alloc m")
    case True
    then obtain m1 where m1: "rehash True m sz = Some m1" "hm_inv m1" "hm_size m1 = hm_size m" "hm_alloc m1 = sz"
      "\<forall>k v. holds (hm_pairs m1) k v \<longleftrightarrow> holds (hm_pairs m) k v" using rehash_holds [OF assms(1) sz(4,2,3)] by blast
    have "card (used (hm_pairs m1)) = unat (hm_size m)" "length (hm_pairs m1) = unat sz"
      using m1 by (auto simp: hm_inv_def hm_shape_def sized_def)
    moreover have "unat (hm_alloc m) < unat sz" using True by (simp add: word_less_nat_alt)
    moreover have "\<not> (hm_alloc m = 2 \<and> hm_size m = 2)"
    proof
      assume "hm_alloc m = 2 \<and> hm_size m = 2"
      then have "calc_size m = pow2_above 2" by (simp add: calc_size_def)
      moreover have "bit_len (Suc 0) = 1" by (simp add: bit_len.simps [of "Suc 0"] bit_len.simps [of 0])
      ultimately have "sz = 2" using sz(1) by (simp add: pow2_above_def)
      then show False using True \<open>hm_alloc m = 2 \<and> hm_size m = 2\<close> by simp
    qed
    ultimately show ?thesis using sz(1) m1 True le by auto
  next
    case False
    then have "unat sz \<le> unat (hm_alloc m)" by (simp add: word_less_nat_alt)
    then have "unat (hm_size m) = unat (hm_alloc m) \<longleftrightarrow> unat (hm_alloc m) = 2 \<and> unat (hm_size m) = 2"
      using sz(5) le by linarith
    then show ?thesis using sz(1) assms(1) False m(2,3) two by auto
  qed
qed

text \<open>C28. The hash map is a finite map that counts its pairs. A put of a key returns and keeps the invariant, also when the table is
  rebuilt. It reports \<open>EEXIST\<close> exactly for a key that is present and \<open>ENOMEM\<close> exactly for a new key in a table of two places
  that are both taken, which \<open>calc_size\<close> does not grow. In every other case it succeeds: the key then maps to the value and the
  size grows by one. No other key changes what it maps to, and after an error no key does.\<close>

theorem shard_hashmap_put_get:
  assumes "hm_inv m" "unat (hm_size m) < 2 ^ 29"
  shows "\<exists>e m'. shard_hashmap_put True m (Some k) v = Some (e, m') \<and> hm_inv m' \<and>
    e = (if \<exists>w. holds (hm_pairs m) k w then EEXIST else if hm_alloc m = 2 \<and> hm_size m = 2 then ENOMEM else 0) \<and>
    hm_size m' = hm_size m + (if e = 0 then 1 else 0) \<and>
    (\<forall>k'. shard_hashmap_get m' k' = (if e = 0 \<and> k' = k then Some v else shard_hashmap_get m k'))"
proof -
  obtain sz m1 where m1: "calc_size m = Some sz" "(if sz > hm_alloc m then rehash True m sz else Some m) = Some m1" "hm_inv m1"
    "hm_size m1 = hm_size m" "\<forall>k v. holds (hm_pairs m1) k v \<longleftrightarrow> holds (hm_pairs m) k v"
    "card (used (hm_pairs m1)) = length (hm_pairs m1) \<longleftrightarrow> hm_alloc m = 2 \<and> hm_size m = 2" using grow [OF assms] by blast
  have shape: "hm_shape m" "hm_shape m1" using assms(1) m1(3) by (simp_all add: hm_inv_def)
  have same: "shard_hashmap_get m1 k' = shard_hashmap_get m k'" for k' using get_cong [OF shape] m1(5) by blast
  show ?thesis
  proof (cases "\<exists>w. holds (hm_pairs m1) k w")
    case True
    then obtain p w where p: "p < length (hm_pairs m1)" "hm_pairs m1 ! p = Some (k, w)" by (auto simp: holds_def)
    have "find_pair m1 k True = Some (Some p)"
      using find_pair_probe probed_find [OF _ p] shape(2) by (simp add: hm_shape_def)
    then have "shard_hashmap_put True m (Some k) v = Some (EEXIST, m1)"
      using m1(1,2) p by (simp add: shard_hashmap_put_def)
    then show ?thesis using m1(3,4,5) same True by auto
  next
    case False
    then have absent: "\<nexists>w. holds (hm_pairs m) k w" using m1(5) by blast
    from find_pair_absent [OF shape(2) False] show ?thesis
    proof
      assume full: "find_pair m1 k True = Some None \<and> (\<forall>p < length (hm_pairs m1). hm_pairs m1 ! p \<noteq> None)"
      then have "hm_alloc m = 2 \<and> hm_size m = 2" using m1(6) used_full by blast
      moreover have "shard_hashmap_put True m (Some k) v = Some (ENOMEM, m1)" using m1(1,2) full by (simp add: shard_hashmap_put_def)
      ultimately show ?thesis using m1(3,4) same absent by (intro exI [of _ ENOMEM] exI [of _ m1]) simp
    next
      assume "\<exists>p < length (hm_pairs m1). find_pair m1 k True = Some (Some p) \<and> hm_pairs m1 ! p = None \<and>
        (\<forall>v sz. hm_shape (m1\<lparr>hm_pairs := (hm_pairs m1)[p := Some (k, v)], hm_size := sz\<rparr>))"
      then obtain p where p: "p < length (hm_pairs m1)" "find_pair m1 k True = Some (Some p)" "hm_pairs m1 ! p = None"
        "\<forall>v sz. hm_shape (m1\<lparr>hm_pairs := (hm_pairs m1)[p := Some (k, v)], hm_size := sz\<rparr>)" by blast
      define m2 where "m2 = m1\<lparr>hm_pairs := (hm_pairs m1)[p := Some (k, v)], hm_size := hm_size m1 + 1\<rparr>"
      have shape2: "hm_shape m2" using p(4) by (simp add: m2_def)
      have "unat (hm_size m1 + 1) = Suc (unat (hm_size m1))" using assms(2) m1(4) by (simp add: unat_word_ariths)
      then have inv: "hm_inv m2"
        using shape2 m1(3) card_used_insert [OF p(1,3)] by (simp add: hm_inv_def m2_def)
      have "card (used (hm_pairs m1)) \<noteq> length (hm_pairs m1)"
        using card_used_insert [OF p(1,3), of "(k, v)"] card_used_le [of "(hm_pairs m1)[p := Some (k, v)]"] by simp
      then have room: "\<not> (hm_alloc m = 2 \<and> hm_size m = 2)" using m1(6) by simp
      have put: "shard_hashmap_put True m (Some k) v = Some (0, m2)"
        using m1(1,2) p by (simp add: shard_hashmap_put_def m2_def)
      have holds2: "holds (hm_pairs m2) k' v' \<longleftrightarrow> holds (hm_pairs m1) k' v' \<or> k' = k \<and> v' = v" for k' v'
        unfolding m2_def using holds_insert [OF p(1,3)] by simp
      have "shard_hashmap_get m2 k' = (if k' = k then Some v else shard_hashmap_get m k')" for k'
        using get_holds [OF shape2] get_cong [OF shape(2) shape2, of k'] holds2 same [of k'] by auto
      moreover have "hm_size m2 = hm_size m + 1" using m1(4) by (simp add: m2_def)
      ultimately show ?thesis using put inv absent room by (intro exI [of _ 0] exI [of _ m2]) simp
    qed
  qed
qed

lemma init_inv: "hm_inv \<lparr>hm_size = 0, hm_alloc = 4, hm_pairs = replicate (unat (4 :: u64)) None\<rparr>"
proof -
  have "(4 :: u64) = 2 ^ 2" by simp
  then have "sized \<lparr>hm_size = 0, hm_alloc = 4, hm_pairs = replicate (unat (4 :: u64)) None\<rparr>"
    unfolding sized_def by (intro conjI exI [of _ 2]) simp_all
  moreover have "probed (replicate n None)" "used (replicate n None) = {}" for n by (simp_all add: probed_def used_def)
  ultimately show ?thesis by (simp add: hm_inv_def hm_shape_def)
qed

text \<open>The first put into a new map of four places succeeds, and the key is then found.\<close>

theorem shard_hashmap_put_get_witness:
  "\<exists>m'. shard_hashmap_put True \<lparr>hm_size = 0, hm_alloc = 4, hm_pairs = replicate (unat (4 :: u64)) None\<rparr> (Some [97]) (Some 7)
     = Some (0, m') \<and> hm_inv m' \<and> hm_size m' = 1 \<and> shard_hashmap_get m' [97] = Some (Some 7)"
proof -
  define m where "m = \<lparr>hm_size = 0, hm_alloc = 4, hm_pairs = replicate (unat (4 :: u64)) None\<rparr>"
  have "hm_inv m" "unat (hm_size m) < 2 ^ 29" "\<not> (\<exists>w. holds (hm_pairs m) [97] w)" "\<not> (hm_alloc m = 2 \<and> hm_size m = 2)"
    unfolding m_def by (rule init_inv, simp, simp add: holds_def, simp)
  then obtain e m' where "shard_hashmap_put True m (Some [97]) (Some 7) = Some (e, m')" "hm_inv m'" "e = 0"
    "hm_size m' = hm_size m + (if e = 0 then 1 else 0)"
    "\<forall>k'. shard_hashmap_get m' k' = (if e = 0 \<and> k' = [97] then Some (Some 7) else shard_hashmap_get m k')"
    using shard_hashmap_put_get [of m "[97]" "Some 7"] by auto
  moreover have "hm_size m = 0" by (simp add: m_def)
  ultimately have "shard_hashmap_put True m (Some [97]) (Some 7) = Some (0, m') \<and> hm_inv m' \<and> hm_size m' = 1 \<and>
    shard_hashmap_get m' [97] = Some (Some 7)" by simp
  then show ?thesis unfolding m_def by (rule exI)
qed

end
