(* ===== verification/LibTime.thy ===== *)
theory LibTime
  imports Prelude "HOL-Library.Signed_Division"
begin

text \<open>
  Calendar time (\<^verbatim>\<open>kernel/lib/time.c\<close>) and the pseudo-random generator (\<^verbatim>\<open>kernel/lib/rand.c\<close>). Values of \<open>int\<close> and \<open>long long\<close> are
  integers; \<open>to_int\<close> is the conversion to \<open>int\<close>, \<open>sdiv\<close> and \<open>smod\<close> are the truncating division of C, and the one unsigned
  comparison has its wrap-around written out. With \<open>int\<close> fields every other intermediate value is within its type.
  \<open>mktime\<close> is shown equivalent to counting the days of the Gregorian calendar; \<open>srand\<close> is shown to ignore its seed.
\<close>

subsection \<open>Seconds of a broken-down time\<close>

definition to_int :: "int \<Rightarrow> int" where
  "to_int x = (x + 2 ^ 31) mod 2 ^ 32 - 2 ^ 31"

text \<open>\<open>*is_leap\<close>, \<open>centuries\<close> and \<open>leaps\<close> of the year \<open>rem\<close> of a cycle of 400.\<close>

definition cycle_leaps :: "int \<Rightarrow> bool \<times> int \<times> int" where
  "cycle_leaps rem =
     (if rem = 0 then (True, 0, 0)
      else
        let (centuries, rem) =
          (if rem \<ge> 200 then (if rem \<ge> 300 then (3, rem - 300) else (2, rem - 200))
           else if rem \<ge> 100 then (1, rem - 100) else (0, rem)) in
        if rem = 0 then (False, centuries, 0)
        else (rem mod 4 = 0, centuries, rem div 4))"

text \<open>The result and \<open>*is_leap\<close>.\<close>

definition year_to_secs :: "int \<Rightarrow> int \<times> bool" where
  "year_to_secs year =
     (if (year - 2) mod 2 ^ 64 \<le> 136 then
        let y = to_int year; leaps = (y - 68) div 4 in
        if (y - 68) mod 4 = 0 then (31536000 * (y - 70) + 86400 * (leaps - 1), True)
        else (31536000 * (y - 70) + 86400 * leaps, False)
      else
        let cycles = to_int ((year - 100) sdiv 400); rem = to_int ((year - 100) smod 400);
            (cycles, rem) = (if rem < 0 then (cycles - 1, rem + 400) else (cycles, rem));
            (is_leap, centuries, leaps) = cycle_leaps rem;
            leaps = leaps + 97 * cycles + 24 * centuries - of_bool is_leap in
        ((year - 100) * 31536000 + leaps * 86400 + 946684800 + 86400, is_leap))"

definition secs_through_month :: "int list" where
  "secs_through_month = [0, 31*86400, 59*86400, 90*86400, 120*86400, 151*86400, 181*86400, 212*86400,
     243*86400, 273*86400, 304*86400, 334*86400]"

definition month_to_secs :: "int \<Rightarrow> bool \<Rightarrow> int option" where
  "month_to_secs month is_leap =
     (if 0 \<le> month \<and> month < 12 then
        let t = secs_through_month ! nat month in
        Some (if is_leap \<and> month \<ge> 2 then t + 86400 else t)
      else None)"

record tm =
  tm_sec :: int
  tm_min :: int
  tm_hour :: int
  tm_mday :: int
  tm_mon :: int
  tm_year :: int

text \<open>The fields are \<open>int\<close>; all the arithmetic is done in \<open>long long\<close> except \<open>tm_mday - 1\<close>, which overflows for the least \<open>int\<close>.\<close>

definition tm_to_secs :: "tm \<Rightarrow> int option" where
  "tm_to_secs tm = do {
     let year = tm_year tm;
     let month = tm_mon tm;
     let (year, month) =
       (if month \<ge> 12 \<or> month < 0 then
          let adj = month sdiv 12; month = month smod 12;
              (adj, month) = (if month < 0 then (adj - 1, month + 12) else (adj, month)) in
          (year + adj, month)
        else (year, month));
     let (t, is_leap) = year_to_secs year;
     m \<leftarrow> month_to_secs month is_leap;
     kassert (tm_mday tm \<noteq> - (2 ^ 31));
     Some (t + m + 86400 * (tm_mday tm - 1) + 3600 * tm_hour tm + 60 * tm_min tm + tm_sec tm)
   }"

definition mktime :: "tm \<Rightarrow> int option" where
  "mktime tm = tm_to_secs tm"

text \<open>\<open>time\<close> reports the seconds of the clock, twice when it is given a place to store them.\<close>

definition time :: "int \<Rightarrow> int option \<Rightarrow> int \<times> int option" where
  "time ts_s tloc = (ts_s, map_option (\<lambda>_. ts_s) tloc)"

subsection \<open>The calendar\<close>

text \<open>The reference: the lengths of the Gregorian years and months, and the days from 1 January 1970 by adding them up.\<close>

definition gregorian_leap :: "int \<Rightarrow> bool" where
  "gregorian_leap y \<longleftrightarrow> 4 dvd y \<and> (\<not> 100 dvd y \<or> 400 dvd y)"

definition year_days :: "int \<Rightarrow> int" where
  "year_days y = (if gregorian_leap y then 366 else 365)"

definition month_days :: "bool \<Rightarrow> int list" where
  "month_days leap = [31, if leap then 29 else 28, 31, 30, 31, 30, 31, 31, 30, 31, 30, 31]"

definition days_to_year :: "int \<Rightarrow> int" where
  "days_to_year y = (if 1970 \<le> y then sum year_days {1970..<y} else - sum year_days {y..<1970})"

definition days_to_month :: "bool \<Rightarrow> nat \<Rightarrow> int" where
  "days_to_month leap m = sum_list (take m (month_days leap))"

text \<open>A closed form of the reference: one day for each multiple of 4, less those of 100, plus those of 400.\<close>

definition leap_count :: "int \<Rightarrow> int" where
  "leap_count y = (y - 1) div 4 - (y - 1) div 100 + (y - 1) div 400"

lemma div_pred:
  fixes k :: int
  assumes "0 < k"
  shows "y div k = (y - 1) div k + of_bool (k dvd y)"
proof (cases "y mod k = 0")
  case True
  have "(y - 1) div k = y div k - 1"
    using assms True mult_div_mod_eq [of k y]
    by (intro int_div_pos_eq [of _ _ _ "k - 1"]) (auto simp: algebra_simps)
  then show ?thesis using True by (simp add: dvd_eq_mod_eq_0)
next
  case False
  have "(y - 1) div k = y div k"
    using assms False mult_div_mod_eq [of k y] pos_mod_sign [of k y] pos_mod_bound [of k y]
    by (intro int_div_pos_eq [of _ _ _ "y mod k - 1"]) linarith+
  then show ?thesis using False by (simp add: dvd_eq_mod_eq_0)
qed

lemma inclusion_exclusion:
  "(c \<longrightarrow> b) \<Longrightarrow> (b \<longrightarrow> a) \<Longrightarrow> of_bool (a \<and> (\<not> b \<or> c)) = (of_bool a - of_bool b + of_bool c :: int)"
  by (cases a; cases b; cases c) simp_all

lemma leap_count_step: "leap_count (y + 1) = leap_count y + of_bool (gregorian_leap y)"
proof -
  have "(4 :: int) dvd 100" "(100 :: int) dvd 400" by simp_all
  then have dvd: "400 dvd y \<longrightarrow> 100 dvd y" "100 dvd y \<longrightarrow> 4 dvd y" by (blast intro: dvd_trans)+
  have "y div 4 = (y - 1) div 4 + of_bool (4 dvd y)" "y div 100 = (y - 1) div 100 + of_bool (100 dvd y)"
    "y div 400 = (y - 1) div 400 + of_bool (400 dvd y)" by (rule div_pred; simp)+
  then show ?thesis
    unfolding leap_count_def gregorian_leap_def inclusion_exclusion [OF dvd] add_diff_cancel_right'
    by (simp only: algebra_simps)
qed

lemma days_to_year_closed: "days_to_year y = 365 * (y - 1970) + leap_count y - leap_count 1970"
proof -
  have step: "year_days y = 365 + leap_count (y + 1) - leap_count y" for y
    using leap_count_step [of y] by (simp add: year_days_def)
  have tele: "sum year_days {a..<b} = 365 * (b - a) + leap_count b - leap_count a" if "a \<le> b" for a b
    using that
  proof (induction b rule: int_ge_induct)
    case (step i)
    have "{a..<i + 1} = insert i {a..<i}" using step.hyps by auto
    then show ?case using step.IH \<open>\<And>y. year_days y = 365 + leap_count (y + 1) - leap_count y\<close> [of i] by simp
  qed simp
  show ?thesis using tele [of 1970 y] tele [of y 1970] by (auto simp: days_to_year_def)
qed

lemma to_int_small: "- (2 ^ 31) \<le> x \<Longrightarrow> x < 2 ^ 31 \<Longrightarrow> to_int x = x"
  by (simp add: to_int_def)

text \<open>The early branch: years 1902 to 2038, of which only 2000 ends a century.\<close>

lemma year_to_secs_near:
  assumes "2 \<le> y" "y \<le> 138"
  shows "year_to_secs y = (86400 * days_to_year (1900 + y), gregorian_leap (1900 + y))"
proof -
  have early: "(y - 2) mod 2 ^ 64 \<le> 136" "to_int y = y" using assms by (auto simp: to_int_small)
  have four: "4 dvd 1900 + y \<longleftrightarrow> (y - 68) mod 4 = 0" by presburger
  have "400 dvd 1900 + y" if cent: "100 dvd 1900 + y"
  proof -
    obtain k where k: "1900 + y = 100 * k" using cent by (elim dvdE)
    then have "k = 20" using assms by presburger
    then show ?thesis using k by simp
  qed
  then have leap: "gregorian_leap (1900 + y) \<longleftrightarrow> (y - 68) mod 4 = 0" by (auto simp: gregorian_leap_def four)
  have hundreds: "(1899 + y) div 100 - (1899 + y) div 400 = 15"
  proof (cases "y \<le> 100")
    case True
    have "(1899 + y) div 100 = 19" using assms True by (intro int_div_pos_eq [of _ _ _ "y - 1"]) auto
    moreover have "(1899 + y) div 400 = 4" using assms True by (intro int_div_pos_eq [of _ _ _ "y + 299"]) auto
    ultimately show ?thesis by simp
  next
    case False
    have "(1899 + y) div 100 = 20" using assms False by (intro int_div_pos_eq [of _ _ _ "y - 101"]) auto
    moreover have "(1899 + y) div 400 = 5" using assms False by (intro int_div_pos_eq [of _ _ _ "y - 101"]) auto
    ultimately show ?thesis by simp
  qed
  have "(1899 + y) div 4 = (y - 68) div 4 + 492 - of_bool (4 dvd 1900 + y)" 
    using div_pred [of 4 "1900 + y"] div_mult_self1 [of 4 "y - 68" 492] by (simp add: algebra_simps)
  then have "leap_count (1900 + y) - leap_count 1970 = (y - 68) div 4 - of_bool ((y - 68) mod 4 = 0)"
    using hundreds unfolding four by (simp add: leap_count_def algebra_simps)
  then show ?thesis using early leap by (auto simp: year_to_secs_def days_to_year_closed Let_def)
qed


text \<open>The general branch works in cycles of 400 years.\<close>

lemma trunc_div:
  fixes x k :: int
  assumes "0 < k"
  shows "(if x smod k < 0 then (x sdiv k - 1, x smod k + k) else (x sdiv k, x smod k)) = (x div k, x mod k)"
proof (cases "0 \<le> x")
  case True
  then have "x sdiv k = x div k" "x smod k = x mod k" using assms
    by (simp_all add: signed_divide_int_def signed_modulo_int_def sgn_if minus_div_mult_eq_mod [symmetric])
  then show ?thesis using assms pos_mod_sign [of k x] by (simp add: not_less)
next
  case False
  have sd: "x sdiv k = - ((- x) div k)" using False assms by (simp add: signed_divide_int_def sgn_if)
  have "x smod k = - ((- x) mod k)"
    using False assms by (simp add: signed_modulo_int_def sgn_if)
  moreover have "0 \<le> (- x) mod k" "(- x) mod k < k" using assms by simp_all
  moreover have "x div k = (if (- x) mod k = 0 then - ((- x) div k) else - ((- x) div k) - 1)"
    "x mod k = (if (- x) mod k = 0 then 0 else k - (- x) mod k)"
    using zdiv_zminus1_eq_if [of k "- x"] zmod_zminus1_eq_if [of "- x" k] assms by simp_all
  ultimately show ?thesis using sd by auto
qed

lemma cycle_leaps_count:
  assumes "0 \<le> r" "r < 400"
  shows "case cycle_leaps r of (l, c, n) \<Rightarrow>
    n + 24 * c - of_bool l + 1 = (r + 3) div 4 - (r + 99) div 100 + (r + 399) div 400 \<and> l = gregorian_leap r"
proof -
  have "list_all (\<lambda>r. case cycle_leaps r of (l, c, n) \<Rightarrow>
    n + 24 * c - of_bool l + 1 = (r + 3) div 4 - (r + 99) div 100 + (r + 399) div 400 \<and> l = gregorian_leap r) [0..399]"
    by code_simp
  then show ?thesis using assms unfolding list_all_iff set_upto by (elim ballE [of _ _ r]) auto
qed

lemma leap_count_cycle:
  "leap_count (2000 + 400 * c + r) = 484 + 97 * c + ((r + 3) div 4 - (r + 99) div 100 + (r + 399) div 400)"
proof -
  have "(1999 + 400 * c + r) div 4 = 499 + 100 * c + (r + 3) div 4"
    using div_mult_self2 [of 4 "r + 3" "499 + 100 * c"] by (simp add: algebra_simps)
  moreover have "(1999 + 400 * c + r) div 100 = 19 + 4 * c + (r + 99) div 100"
    using div_mult_self2 [of 100 "r + 99" "19 + 4 * c"] by (simp add: algebra_simps)
  moreover have "(1999 + 400 * c + r) div 400 = 4 + c + (r + 399) div 400"
    using div_mult_self2 [of 400 "r + 399" "4 + c"] by (simp add: algebra_simps)
  moreover have "leap_count (2000 + 400 * c + r) =
    (1999 + 400 * c + r) div 4 - (1999 + 400 * c + r) div 100 + (1999 + 400 * c + r) div 400"
    by (simp add: leap_count_def add.assoc)
  ultimately show ?thesis by simp
qed

lemma gregorian_leap_cycle: "gregorian_leap (2000 + 400 * c + r) \<longleftrightarrow> gregorian_leap r"
proof -
  have "k dvd 2000 + 400 * c + r \<longleftrightarrow> k dvd r" if "k dvd 2000" "k dvd 400" for k :: int
    using that by (simp add: dvd_add_right_iff dvd_add)
  from this [of 4] this [of 100] this [of 400] show ?thesis by (simp add: gregorian_leap_def)
qed

lemma year_to_secs_far:
  assumes "\<not> (2 \<le> y \<and> y \<le> 138)" "\<bar>y\<bar> < 2 ^ 33"
  shows "year_to_secs y = (86400 * days_to_year (1900 + y), gregorian_leap (1900 + y))"
proof -
  define c r where "c = (y - 100) div 400" and "r = (y - 100) mod 400"
  have r: "0 \<le> r" "r < 400" by (simp_all add: r_def)
  have y: "1900 + y = 2000 + 400 * c + r" using mult_div_mod_eq [of 400 "y - 100"] by (simp add: c_def r_def)
  have late: "\<not> (y - 2) mod 2 ^ 64 \<le> 136"
  proof (cases "y < 2")
    case True
    then have "(y - 2) mod 2 ^ 64 = y - 2 + 2 ^ 64" using assms(2) mod_add_self2 [of "y - 2" "2 ^ 64"]
      by (simp add: mod_pos_pos_trivial del: mod_add_self2)
    then show ?thesis using assms(2) by simp
  qed (use assms in simp)
  have bounds: "\<bar>(y - 100) sdiv 400\<bar> < 2 ^ 31" "\<bar>(y - 100) smod 400\<bar> < 2 ^ 31"
  proof -
    have small: "\<bar>y - 100\<bar> < 2 ^ 33 + 100" using assms(2) by linarith
    have "\<bar>y - 100\<bar> div 400 \<le> \<bar>y - 100\<bar> div 8" by (rule zdiv_mono2) simp_all
    also have "\<dots> \<le> (2 ^ 33 + 100) div 8" using small by (intro zdiv_mono1) simp_all
    finally show "\<bar>(y - 100) sdiv 400\<bar> < 2 ^ 31"
      by (simp add: signed_divide_int_def abs_mult abs_sgn_eq)
    have "\<bar>y - 100\<bar> mod 400 < 400" by simp
    then have "\<bar>y - 100\<bar> mod 400 < 2 ^ 31" by (rule less_trans) simp
    then show "\<bar>(y - 100) smod 400\<bar> < 2 ^ 31" by (simp add: signed_modulo_int_def abs_mult abs_sgn_eq)
  qed
  obtain l n k where cl: "cycle_leaps r = (l, n, k)" by (cases "cycle_leaps r") auto
  have count: "k + 24 * n - of_bool l + 1 = (r + 3) div 4 - (r + 99) div 100 + (r + 399) div 400" "l = gregorian_leap r"
    using cycle_leaps_count [OF r] cl by auto
  have "year_to_secs y = ((y - 100) * 31536000 + (k + 97 * c + 24 * n - of_bool l) * 86400 + 946684800 + 86400, l)"
    using late bounds trunc_div [of 400 "y - 100"] cl
    by (simp add: year_to_secs_def to_int_small Let_def c_def [symmetric] r_def [symmetric] split: if_splits)
  moreover have "days_to_year (1900 + y) = 365 * (y - 70) + (484 + 97 * c + (k + 24 * n - of_bool l + 1)) - 477"
    unfolding days_to_year_closed y leap_count_cycle count(1) using y by (simp add: leap_count_def)
  moreover have "gregorian_leap (1900 + y) = l" unfolding y gregorian_leap_cycle count(2) ..
  ultimately show ?thesis by (simp add: algebra_simps)
qed

lemma year_to_secs_calendar:
  "\<bar>y\<bar> < 2 ^ 33 \<Longrightarrow> year_to_secs y = (86400 * days_to_year (1900 + y), gregorian_leap (1900 + y))"
  using year_to_secs_near year_to_secs_far by blast

lemma month_to_secs_calendar:
  assumes "0 \<le> m" "m < 12"
  shows "month_to_secs m leap = Some (86400 * days_to_month leap (nat m))"
proof -
  have "list_all (\<lambda>m. \<forall>leap \<in> {True, False}. month_to_secs m leap = Some (86400 * days_to_month leap (nat m))) [0..11]"
    by code_simp
  then show ?thesis using assms unfolding list_all_iff set_upto by (cases leap; elim ballE [of _ _ m]; auto)
qed

text \<open>C30. For every broken-down time with \<open>int\<close> fields, months outside 0 to 11 and days before 1970 included, \<open>mktime\<close> returns
  the seconds one gets by adding up the lengths of the Gregorian years and months since 1 January 1970. The one exception is a
  day of the month that is the least \<open>int\<close>, for which the subtraction of 1 overflows.\<close>

theorem mktime_counts_days:
  assumes "\<bar>tm_year tm\<bar> \<le> 2 ^ 31" "\<bar>tm_mon tm\<bar> \<le> 2 ^ 31"
  shows "mktime tm = (if tm_mday tm = - (2 ^ 31) then None else let year = 1900 + tm_year tm + tm_mon tm div 12 in
     Some (86400 * (days_to_year year + days_to_month (gregorian_leap year) (nat (tm_mon tm mod 12)) + (tm_mday tm - 1))
       + 3600 * tm_hour tm + 60 * tm_min tm + tm_sec tm))"
proof -
  define y m where "y = tm_year tm + tm_mon tm div 12" and "m = tm_mon tm mod 12"
  have m: "0 \<le> m" "m < 12" by (simp_all add: m_def)
  have "\<bar>tm_mon tm div 12\<bar> \<le> 2 ^ 31"
  proof -
    have "- (2 ^ 31) div 12 \<le> tm_mon tm div 12" "tm_mon tm div 12 \<le> 2 ^ 31 div 12"
      using assms(2) by (intro zdiv_mono1; simp add: abs_le_iff)+
    then show ?thesis by simp
  qed
  then have "\<bar>y\<bar> < 2 ^ 33" using assms(1) unfolding y_def by simp
  note calendar = year_to_secs_calendar [OF this] month_to_secs_calendar [OF m]
  have "(if tm_mon tm \<ge> 12 \<or> tm_mon tm < 0 then
      let adj = tm_mon tm sdiv 12; month = tm_mon tm smod 12;
          (adj, month) = (if month < 0 then (adj - 1, month + 12) else (adj, month)) in (tm_year tm + adj, month)
     else (tm_year tm, tm_mon tm)) = (y, m)"
    using trunc_div [of 12 "tm_mon tm"] by (auto simp: y_def m_def Let_def split: if_splits)
  then have "mktime tm = (if tm_mday tm = - (2 ^ 31) then None else Some (86400 * days_to_year (1900 + y) + 86400 * days_to_month (gregorian_leap (1900 + y)) (nat m)
      + 86400 * (tm_mday tm - 1) + 3600 * tm_hour tm + 60 * tm_min tm + tm_sec tm))"
    by (simp add: mktime_def tm_to_secs_def calendar)
  moreover have "1900 + tm_year tm + tm_mon tm div 12 = 1900 + y" by (simp add: y_def)
  ultimately show ?thesis by (simp only: Let_def m_def [symmetric] algebra_simps)
qed

theorem mktime_counts_days_witness:
  "mktime \<lparr>tm_sec = 0, tm_min = 0, tm_hour = 12, tm_mday = 29, tm_mon = 1, tm_year = 100\<rparr> = Some 951825600"
  using mktime_counts_days [of "\<lparr>tm_sec = 0, tm_min = 0, tm_hour = 12, tm_mday = 29, tm_mon = 1, tm_year = 100\<rparr>"]
  by (simp add: days_to_year_closed leap_count_def days_to_month_def month_days_def gregorian_leap_def)

end
