(* ===== verification/Rand.thy ===== *)
theory Rand
  imports Prelude
begin

text \<open>
  The additive pseudo-random generator of \<^verbatim>\<open>kernel/lib/rand.c\<close>: its static variables as a record, \<open>None\<close> for an index outside
  the 31 words \<open>x\<close> points to. It never leaves its table; but seeding it has no effect.
\<close>

record rand_state =
  rx :: "u32 list"
  rn :: u32
  ri :: u32
  rj :: u32

definition rand_init :: "u32 list" where
  "rand_init = [
    0x00000000,0x5851f42d,0xc0b18ccf,0xcbb5f646,
    0xc7033129,0x30705b04,0x20fd5db4,0x9a8b7f78,
    0x502959d8,0xab894868,0x6c0356a7,0x88cdb7ff,
    0xb477d43f,0x70a3a52b,0xa8e4baf1,0xfd8341fc,
    0x8ae16fd9,0x742d2f7a,0x0d1f0796,0x76035e09,
    0x40f7702c,0x6fa72ca5,0xaaa84157,0x58a0df74,
    0xc74a0364,0xae533cc4,0x04185faf,0x6de3b115,
    0x0cab8628,0xf043bfa4,0x398150e9,0x37521657]"

definition rand_start :: rand_state where
  "rand_start = \<lparr>rx = drop 1 rand_init, rn = 31, ri = 3, rj = 0\<rparr>"

definition lcg32 :: "u32 \<Rightarrow> u32" where
  "lcg32 x = (1103515245 * x + 12345) AND 0x7fffffff"

definition lcg64 :: "u64 \<Rightarrow> u64" where
  "lcg64 x = (1103515245 * x + 12345) AND 0x7fffffff"

definition in_table :: "rand_state \<Rightarrow> u32 \<Rightarrow> nat option" where
  "in_table st k = (if unat k < length (rx st) then Some (unat k) else None)"

definition rand :: "rand_state \<Rightarrow> (u32 \<times> rand_state) option" where
  "rand st =
     (if rn st = 0 then do {
        a \<leftarrow> in_table st 0;
        let k = lcg32 (rx st ! a);
        Some (k, st\<lparr>rx := (rx st)[a := k]\<rparr>)
      } else do {
        a \<leftarrow> in_table st (ri st);
        b \<leftarrow> in_table st (rj st);
        let v = rx st ! a + rx st ! b;
        let k = drop_bit 1 v;
        let i = (if ri st + 1 = rn st then 0 else ri st + 1);
        let j = (if rj st + 1 = rn st then 0 else rj st + 1);
        Some (k, st\<lparr>rx := (rx st)[a := v], ri := i, rj := j\<rparr>)
      })"

text \<open>The loop of \<open>srand\<close>: \<open>s = lcg64(s); x[k] = s >> 32\<close> for \<open>k\<close> up to \<open>n\<close>, here with the number of rounds left.\<close>

primrec srand_loop :: "nat \<Rightarrow> nat \<Rightarrow> u64 \<Rightarrow> u32 list \<Rightarrow> u32 list option" where
  "srand_loop 0 k s xs = Some xs"
| "srand_loop (Suc m) k s xs =
     (let s = lcg64 s in
      if k < length xs then srand_loop m (k + 1) s (xs[k := ucast (drop_bit 32 s)]) else None)"

definition srand :: "rand_state \<Rightarrow> u32 \<Rightarrow> rand_state option" where
  "srand st seed =
     (let s = ucast seed :: u64 in
      if rn st = 0 then do {
        a \<leftarrow> in_table st 0;
        Some (st\<lparr>rx := (rx st)[a := ucast s]\<rparr>)
      } else do {
        xs \<leftarrow> srand_loop (unat (rn st)) 0 s (rx st);
        a \<leftarrow> in_table (st\<lparr>rx := xs\<rparr>) 0;
        Some (st\<lparr>rx := xs[a := xs ! a OR 1], ri := (if rn st = 31 \<or> rn st = 7 then 3 else 1), rj := 0\<rparr>)
      })"

subsection \<open>The table is never left\<close>

definition rand_wf :: "rand_state \<Rightarrow> bool" where
  "rand_wf st \<longleftrightarrow> rn st = 31 \<and> length (rx st) = 31 \<and> unat (ri st) < 31 \<and> unat (rj st) < 31"

lemma next_index: "unat (i :: u32) < 31 \<Longrightarrow> unat (if i + 1 = 31 then 0 else i + 1) < 31"
proof -
  assume i: "unat i < 31"
  then have "unat (i + 1) = unat i + 1" by (simp add: unat_plus_simple [THEN iffD1] word_le_nat_alt unat_word_ariths)
  then show ?thesis using i by (auto simp: word_unat_eq_iff)
qed

lemma rand_step:
  assumes "rand_wf st"
  shows "\<exists>k st'. rand st = Some (k, st') \<and> rand_wf st' \<and> unat k < 2 ^ 31"
proof -
  have "unat (drop_bit 1 v :: u32) < 2 ^ 31" for v
  proof -
    have "unat v < 2 ^ LENGTH(32)" by (rule unsigned_less)
    then show ?thesis by (simp add: drop_bit_eq_div unat_div_distrib)
  qed
  then show ?thesis using assms next_index [of "ri st"] next_index [of "rj st"]
    by (simp add: rand_def rand_wf_def in_table_def Let_def)
qed

lemma lcg64_high: "drop_bit 32 (lcg64 s) = 0"
proof (rule bit_word_eqI)
  fix n
  have "bit (0x7fffffff :: u64) m \<longleftrightarrow> m < 31" for m
  proof -
    have "(0x7fffffff :: u64) = mask 31" by (simp add: mask_eq_exp_minus_1)
    then have "bit (0x7fffffff :: u64) m \<longleftrightarrow> bit (mask 31 :: u64) m" by (rule arg_cong)
    also have "\<dots> \<longleftrightarrow> m < 31" unfolding bit_mask_iff by auto
    finally show ?thesis .
  qed
  then show "bit (drop_bit 32 (lcg64 s)) n \<longleftrightarrow> bit 0 n" by (simp add: bit_drop_bit_eq bit_and_iff lcg64_def)
qed

lemma srand_loop_zeros:
  "k + m = length xs \<Longrightarrow> srand_loop m k s xs = Some (take k xs @ replicate m 0)"
proof (induction m arbitrary: k s xs)
  case (Suc m)
  then show ?case
    by (simp add: Let_def lcg64_high take_Suc_conv_app_nth take_update_swap list_update_append)
qed simp

lemma srand_state:
  assumes "rand_wf st"
  shows "srand st seed = Some (st\<lparr>rx := 1 # replicate 30 0, ri := 3, rj := 0\<rparr>)"
  using assms srand_loop_zeros [of 0 31 "rx st" "ucast seed"]
  by (simp add: srand_def rand_wf_def in_table_def Let_def replicate_Suc [of 30, simplified])

datatype rand_op = Rand | Srand u32

fun rand_run :: "rand_op list \<Rightarrow> rand_state \<Rightarrow> (u32 list \<times> rand_state) option" where
  "rand_run [] st = Some ([], st)"
| "rand_run (Rand # ops) st = do { (k, st) \<leftarrow> rand st; (ks, st) \<leftarrow> rand_run ops st; Some (k # ks, st) }"
| "rand_run (Srand s # ops) st = do { st \<leftarrow> srand st s; rand_run ops st }"

text \<open>C32. Whatever sequence of \<open>rand\<close> and \<open>srand\<close> calls the kernel makes, no access leaves the table, and every number
  returned is a non-negative \<open>int\<close>.\<close>

theorem rand_bounds: "\<exists>ks st. rand_run ops rand_start = Some (ks, st) \<and> list_all (\<lambda>k. 0 \<le> sint k) ks"
proof -
  have pos: "0 \<le> sint k" if "unat k < 2 ^ 31" for k :: u32
  proof -
    have "k < 0x80000000" using that by (simp add: word_less_nat_alt)
    then have "uint k < 2 ^ 31" by (simp add: word_less_def)
    moreover have "- (2 ^ 31) \<le> uint k" by (rule order_trans [of _ 0]) simp_all
    ultimately have "sint k = uint k" unfolding sint_uint by (simp add: signed_take_bit_int_eq_self)
    then show ?thesis by (simp only: unsigned_greater_eq)
  qed
  have "\<exists>ks st'. rand_run ops st = Some (ks, st') \<and> list_all (\<lambda>k. 0 \<le> sint k) ks" if "rand_wf st" for st
    using that
  proof (induction ops st rule: rand_run.induct)
    case (2 ops st)
    then show ?case using rand_step [of st] pos by fastforce
  next
    case (3 s ops st)
    then show ?case using srand_state [of st s] by (simp add: rand_wf_def)
  qed simp
  moreover have "rand_wf rand_start" by (simp add: rand_wf_def rand_start_def rand_init_def)
  ultimately show ?thesis by blast
qed

text \<open>C33. \<open>srand\<close> ignores its seed: \<open>lcg64\<close> keeps 31 bits of its state, of which \<open>s >> 32\<close> leaves nothing, so two different
  seeds give the same numbers for ever.\<close>

theorem srand_ignores_seed: "rand_run (Srand s1 # ops) rand_start = rand_run (Srand s2 # ops) rand_start"
proof -
  have "rand_wf rand_start" by (simp add: rand_wf_def rand_start_def rand_init_def)
  then show ?thesis by (simp add: srand_state)
qed

end
