(* ===== verification/Memory.thy ===== *)
theory Memory
  imports Prelude
begin

text \<open>
  The memory primitives of \<^verbatim>\<open>kernel/lib/memory.c\<close> on a flat memory of bytes. Addresses are natural numbers below \<open>2^64\<close>;
  where the code computes with them as integers, the wrap-around is written out. \<open>memmove\<close> copies machine words when both
  pointers have the same alignment; it is shown equivalent to copying through a temporary buffer.
\<close>

type_synonym mem = "nat \<Rightarrow> u8"

subsection \<open>Model\<close>

primrec memset_loop :: "nat \<Rightarrow> nat \<Rightarrow> u8 \<Rightarrow> mem \<Rightarrow> mem" where
  "memset_loop 0 p c m = m"
| "memset_loop (Suc n) p c m = memset_loop n (p + 1) c (m(p := c))"

definition memset :: "nat \<Rightarrow> u32 \<Rightarrow> nat \<Rightarrow> mem \<Rightarrow> nat \<times> mem" where
  "memset s c n m = (s, memset_loop n s (ucast c) m)"

text \<open>The loop \<open>cdst[i] = csrc[i]\<close>, with \<open>n\<close> rounds left.\<close>

primrec memcpy_loop :: "nat \<Rightarrow> nat \<Rightarrow> nat \<Rightarrow> nat \<Rightarrow> mem \<Rightarrow> mem" where
  "memcpy_loop 0 i dst src m = m"
| "memcpy_loop (Suc n) i dst src m = memcpy_loop n (i + 1) dst src (m(dst + i := m (src + i)))"

definition memcpy :: "nat \<Rightarrow> nat \<Rightarrow> nat \<Rightarrow> mem \<Rightarrow> nat \<times> mem" where
  "memcpy dst src n m = (dst, memcpy_loop n 0 dst src m)"

text \<open>\<open>*(size_t*) d = *(size_t*) s\<close>: eight bytes are read, then written.\<close>

definition copy_word :: "nat \<Rightarrow> nat \<Rightarrow> mem \<Rightarrow> mem" where
  "copy_word d s m = (\<lambda>a. if d \<le> a \<and> a < d + 8 then m (s + (a - d)) else m a)"

text \<open>The branch for \<open>d < s\<close>: bytes until \<open>d\<close> is aligned (\<open>Inl\<close> when the count runs out), words, then bytes.\<close>

primrec forward_align :: "nat \<Rightarrow> nat \<Rightarrow> nat \<Rightarrow> mem \<Rightarrow> mem + (nat \<times> nat \<times> nat \<times> mem)" where
  "forward_align 0 d s m = (if d mod 8 = 0 then Inr (0, d, s, m) else Inl m)"
| "forward_align (Suc n) d s m =
     (if d mod 8 = 0 then Inr (Suc n, d, s, m) else forward_align n (d + 1) (s + 1) (m(d := m s)))"

fun forward_words :: "nat \<Rightarrow> nat \<Rightarrow> nat \<Rightarrow> mem \<Rightarrow> nat \<times> nat \<times> nat \<times> mem" where
  "forward_words n d s m = (if 8 \<le> n then forward_words (n - 8) (d + 8) (s + 8) (copy_word d s m) else (n, d, s, m))"

declare forward_words.simps [simp del]

primrec forward_bytes :: "nat \<Rightarrow> nat \<Rightarrow> nat \<Rightarrow> mem \<Rightarrow> mem" where
  "forward_bytes 0 d s m = m"
| "forward_bytes (Suc n) d s m = forward_bytes n (d + 1) (s + 1) (m(d := m s))"

definition move_forward :: "nat \<Rightarrow> nat \<Rightarrow> nat \<Rightarrow> mem \<Rightarrow> mem" where
  "move_forward d s n m =
     (if s mod 8 = d mod 8 then
        (case forward_align n d s m of
           Inl m1 \<Rightarrow> m1
         | Inr (n1, d1, s1, m1) \<Rightarrow> let (n2, d2, s2, m2) = forward_words n1 d1 s1 m1 in forward_bytes n2 d2 s2 m2)
      else forward_bytes n d s m)"

text \<open>The other branch goes down from the end.\<close>

primrec backward_align :: "nat \<Rightarrow> nat \<Rightarrow> nat \<Rightarrow> mem \<Rightarrow> mem + (nat \<times> mem)" where
  "backward_align 0 d s m = (if (d + 0) mod 8 = 0 then Inr (0, m) else Inl m)"
| "backward_align (Suc n) d s m =
     (if (d + Suc n) mod 8 = 0 then Inr (Suc n, m) else backward_align n d s (m(d + n := m (s + n))))"

fun backward_words :: "nat \<Rightarrow> nat \<Rightarrow> nat \<Rightarrow> mem \<Rightarrow> nat \<times> mem" where
  "backward_words n d s m =
     (if 8 \<le> n then backward_words (n - 8) d s (copy_word (d + (n - 8)) (s + (n - 8)) m) else (n, m))"

declare backward_words.simps [simp del]

primrec backward_bytes :: "nat \<Rightarrow> nat \<Rightarrow> nat \<Rightarrow> mem \<Rightarrow> mem" where
  "backward_bytes 0 d s m = m"
| "backward_bytes (Suc n) d s m = backward_bytes n d s (m(d + n := m (s + n)))"

definition move_backward :: "nat \<Rightarrow> nat \<Rightarrow> nat \<Rightarrow> mem \<Rightarrow> mem" where
  "move_backward d s n m =
     (if s mod 8 = d mod 8 then
        (case backward_align n d s m of
           Inl m1 \<Rightarrow> m1
         | Inr (n1, m1) \<Rightarrow> let (n2, m2) = backward_words n1 d s m1 in backward_bytes n2 d s m2)
      else backward_bytes n d s m)"

definition memmove :: "nat \<Rightarrow> nat \<Rightarrow> nat \<Rightarrow> mem \<Rightarrow> nat \<times> mem" where
  "memmove dest src n m =
     (if dest = src then (dest, m)
      else if (int src - int dest - int n) mod 2 ^ 64 \<le> (- 2 * int n) mod 2 ^ 64 then memcpy dest src n m
      else if dest < src then (dest, move_forward dest src n m)
      else (dest, move_backward dest src n m))"

primrec memcmp :: "nat \<Rightarrow> nat \<Rightarrow> nat \<Rightarrow> mem \<Rightarrow> int" where
  "memcmp l r 0 m = 0"
| "memcmp l r (Suc n) m = (if m l = m r then memcmp (l + 1) (r + 1) n m else uint (m l) - uint (m r))"

primrec memrchr :: "nat \<Rightarrow> u32 \<Rightarrow> nat \<Rightarrow> mem \<Rightarrow> nat option" where
  "memrchr s c 0 m = None"
| "memrchr s c (Suc n) m = (if m (s + n) = ucast c then Some (s + n) else memrchr s c n m)"

subsection \<open>Copying\<close>

text \<open>The specification: \<open>n\<close> bytes from \<open>s\<close>, all read before the first is written.\<close>

definition copied :: "nat \<Rightarrow> nat \<Rightarrow> nat \<Rightarrow> mem \<Rightarrow> mem" where
  "copied d s n m = (\<lambda>a. if d \<le> a \<and> a < d + n then m (s + (a - d)) else m a)"

lemma copied_0 [simp]: "copied d s 0 m = m"
  by (auto simp: copied_def fun_eq_iff)

lemma copied_1: "m(d := m s) = copied d s (Suc 0) m"
  by (auto simp: copied_def fun_eq_iff)

lemma copy_word_copied: "copy_word d s m = copied d s 8 m"
  by (simp add: copy_word_def copied_def)

lemma copied_up: "d \<le> s \<Longrightarrow> copied (d + k) (s + k) n (copied d s k m) = copied d s (k + n) m"
  by (auto simp: copied_def fun_eq_iff)

lemma copied_down: "s \<le> d \<Longrightarrow> copied d s n (copied (d + n) (s + n) k m) = copied d s (n + k) m"
  by (auto simp: copied_def fun_eq_iff)

lemma copied_apart: "s + (k + n) \<le> d \<Longrightarrow> copied (d + k) (s + k) n (copied d s k m) = copied d s (k + n) m"
  by (auto simp: copied_def fun_eq_iff)

lemma forward_bytes_copied: "d \<le> s \<Longrightarrow> forward_bytes n d s m = copied d s n m"
proof (induction n arbitrary: d s m)
  case (Suc n)
  then show ?case using copied_up [of d s 1 n m] by (simp add: copied_1)
qed simp

lemma backward_bytes_copied: "s \<le> d \<Longrightarrow> backward_bytes n d s m = copied d s n m"
proof (induction n arbitrary: m)
  case (Suc n)
  then show ?case using copied_down [of s d n 1 m] by (simp add: copied_1)
qed simp

lemma forward_words_copied:
  "d \<le> s \<Longrightarrow> forward_words n d s m = (n', d', s', m') \<Longrightarrow> \<exists>k. n = k + n' \<and> d' = d + k \<and> s' = s + k \<and> m' = copied d s k m"
proof (induction n d s m arbitrary: n' d' s' m' rule: forward_words.induct)
  case (1 n d s m)
  show ?case
  proof (cases "8 \<le> n")
    case True
    obtain k where k: "n - 8 = k + n'" "d' = d + 8 + k" "s' = s + 8 + k" "m' = copied (d + 8) (s + 8) k (copied d s 8 m)"
      using "1.IH" [OF True _ "1.prems"(2) [unfolded forward_words.simps [of n] if_P [OF True]]] "1.prems"(1) by (auto simp: copy_word_copied)
    then show ?thesis using True copied_up [OF "1.prems"(1), of 8 k m] by (intro exI [of _ "8 + k"]) auto
  qed (use "1.prems" in \<open>simp add: forward_words.simps [of n]\<close>)
qed

lemma forward_align_copied:
  assumes "d \<le> s"
  shows "case forward_align n d s m of
      Inl m' \<Rightarrow> m' = copied d s n m
    | Inr (n', d', s', m') \<Rightarrow> \<exists>k. n = k + n' \<and> d' = d + k \<and> s' = s + k \<and> m' = copied d s k m"
  using assms
proof (induction n arbitrary: d s m)
  case 0
  then show ?case by simp
next
  case (Suc n)
  show ?case
  proof (cases "d mod 8 = 0")
    case True
    then show ?thesis by simp
  next
    case False
    have up: "copied (d + 1) (s + 1) k (m(d := m s)) = copied d s (1 + k) m" for k
      using copied_up [OF Suc.prems, of 1 k m] by (simp add: copied_1)
    show ?thesis using Suc.IH [of "d + 1" "s + 1" "m(d := m s)"] False Suc.prems up
      by (fastforce split: sum.splits prod.splits)
  qed
qed


lemma move_forward_copied:
  assumes "d \<le> s"
  shows "move_forward d s n m = copied d s n m"
proof (cases "s mod 8 = d mod 8")
  case True
  show ?thesis
  proof (cases "forward_align n d s m")
    case (Inr r)
    then obtain n1 d1 s1 m1 where r: "forward_align n d s m = Inr (n1, d1, s1, m1)" by (cases r) auto
    then obtain k where k: "n = k + n1" "d1 = d + k" "s1 = s + k" "m1 = copied d s k m"
      using forward_align_copied [OF assms, of n m] by auto
    obtain n2 d2 s2 m2 where w: "forward_words n1 d1 s1 m1 = (n2, d2, s2, m2)" by (cases "forward_words n1 d1 s1 m1") auto
    then obtain j where j: "n1 = j + n2" "d2 = d1 + j" "s2 = s1 + j" "m2 = copied d1 s1 j m1"
      using forward_words_copied [OF _ w] assms k by auto
    have "m2 = copied d s (k + j) m" using j(4) k copied_up [OF assms, of k j m] by simp
    then show ?thesis
      using True r w j k assms copied_up [OF assms, of "k + j" n2 m]
      by (simp add: move_forward_def forward_bytes_copied add.assoc)
  qed (use True forward_align_copied [OF assms, of n m] in \<open>simp add: move_forward_def\<close>)
qed (simp add: move_forward_def forward_bytes_copied assms)

lemma backward_words_copied:
  "s \<le> d \<Longrightarrow> backward_words n d s m = (n', m') \<Longrightarrow> \<exists>k. n = n' + k \<and> m' = copied (d + n') (s + n') k m"
proof (induction n d s m arbitrary: n' m' rule: backward_words.induct)
  case (1 n d s m)
  show ?case
  proof (cases "8 \<le> n")
    case True
    obtain k where k: "n - 8 = n' + k" "m' = copied (d + n') (s + n') k (copied (d + (n - 8)) (s + (n - 8)) 8 m)"
      using "1.IH" [OF True "1.prems"(1) "1.prems"(2) [unfolded backward_words.simps [of n] if_P [OF True]]]
      by (auto simp: copy_word_copied)
    then show ?thesis using True "1.prems"(1) copied_down [of "s + n'" "d + n'" k 8 m]
      by (intro exI [of _ "k + 8"]) (auto simp: add.assoc)
  qed (use "1.prems" in \<open>simp add: backward_words.simps [of n]\<close>)
qed

lemma backward_align_copied:
  assumes "s \<le> d"
  shows "case backward_align n d s m of
      Inl m' \<Rightarrow> m' = copied d s n m
    | Inr (n', m') \<Rightarrow> \<exists>k. n = n' + k \<and> m' = copied (d + n') (s + n') k m"
proof (induction n arbitrary: m)
  case 0
  then show ?case by simp
next
  case (Suc n)
  have down: "copied (d + n') (s + n') k (m(d + n := m (s + n))) = copied (d + n') (s + n') (k + 1) m" if "n = n' + k" for n' k
    using copied_down [of "s + n'" "d + n'" k 1 m] that assms by (simp add: copied_1 add.assoc)
  have all: "copied d s n (m(d + n := m (s + n))) = copied d s (Suc n) m" using down [of 0 n] by simp
  show ?case
  proof (cases "(d + Suc n) mod 8 = 0")
    case False
    show ?thesis
    proof (cases "backward_align n d s (m(d + n := m (s + n)))")
      case (Inl m')
      then show ?thesis using False Suc.IH [of "m(d + n := m (s + n))", unfolded Inl] all by simp
    next
      case (Inr r)
      then obtain n' k where "r = (n', copied (d + n') (s + n') k (m(d + n := m (s + n))))" "n = n' + k"
        using Suc.IH [of "m(d + n := m (s + n))", unfolded Inr] by (cases r) auto
      then show ?thesis using False Inr down [of n' k] by auto
    qed
  qed simp
qed

lemma move_backward_copied:
  assumes "s \<le> d"
  shows "move_backward d s n m = copied d s n m"
proof (cases "s mod 8 = d mod 8")
  case True
  show ?thesis
  proof (cases "backward_align n d s m")
    case (Inr r)
    then obtain n1 m1 where r: "backward_align n d s m = Inr (n1, m1)" by (cases r) auto
    then obtain k where k: "n = n1 + k" "m1 = copied (d + n1) (s + n1) k m"
      using backward_align_copied [OF assms, of n m] by auto
    obtain n2 m2 where w: "backward_words n1 d s m1 = (n2, m2)" by (cases "backward_words n1 d s m1") auto
    then obtain j where j: "n1 = n2 + j" "m2 = copied (d + n2) (s + n2) j m1"
      using backward_words_copied [OF assms w] by auto
    have "m2 = copied (d + n2) (s + n2) (j + k) m"
      using j k assms copied_down [of "s + n2" "d + n2" j k m] by (simp add: add.assoc)
    then show ?thesis
      using True r w j k assms copied_down [OF assms, of n2 "j + k" m]
      by (simp add: move_backward_def backward_bytes_copied add.assoc)
  qed (use True backward_align_copied [OF assms, of n m] in \<open>simp add: move_backward_def\<close>)
qed (simp add: move_backward_def backward_bytes_copied assms)

lemma memcpy_loop_copied:
  "dst \<le> src \<or> src + (i + n) \<le> dst \<Longrightarrow> memcpy_loop n i dst src m = copied (dst + i) (src + i) n m"
proof (induction n arbitrary: i m)
  case (Suc n)
  then have "memcpy_loop (Suc n) i dst src m = copied (dst + i + 1) (src + i + 1) n (copied (dst + i) (src + i) 1 m)"
    by (simp add: copied_1)
  also have "\<dots> = copied (dst + i) (src + i) (1 + n) m"
    using Suc.prems copied_up [of "dst + i" "src + i" 1 n m] copied_apart [of "src + i" 1 n "dst + i" m] by auto
  finally show ?case by simp
qed simp

lemma memcpy_copied: "dst \<le> src \<or> src + n \<le> dst \<Longrightarrow> memcpy dst src n m = (dst, copied dst src n m)"
  using memcpy_loop_copied [of dst src 0 n m] by (simp add: memcpy_def)

text \<open>The test for disjoint ranges is sound: it never sends a range that overlaps upwards to \<open>memcpy\<close>.\<close>

lemma disjoint_test:
  assumes test: "(int src - int dest - int n) mod 2 ^ 64 \<le> (- 2 * int n) mod 2 ^ 64" and n: "n < 2 ^ 63"
  shows "dest \<le> src \<or> src + n \<le> dest"
proof (rule ccontr)
  assume "\<not> ?thesis"
  then have less: "src < dest" "dest < src + n" by auto
  have wrap: "x mod 2 ^ 64 = x + 2 ^ 64" if "- (2 ^ 64) \<le> x" "x < 0" for x :: int
    using that mod_add_self2 [of x "2 ^ 64 :: int"] by (simp add: mod_pos_pos_trivial del: mod_add_self2)
  have "(int src - int dest - int n) mod 2 ^ 64 = int src - int dest - int n + 2 ^ 64"
    using less n by (intro wrap) auto
  moreover have "(- 2 * int n) mod 2 ^ 64 = - 2 * int n + 2 ^ 64"
    using less n by (intro wrap) auto
  ultimately show False using test less by auto
qed

lemma memcmp_equal: "memcmp l r n m = 0 \<longleftrightarrow> (\<forall>i < n. m (l + i) = m (r + i))"
proof (induction n arbitrary: l r)
  case (Suc n)
  have "(\<forall>i < Suc n. m (l + i) = m (r + i)) \<longleftrightarrow> m l = m r \<and> (\<forall>i < n. m (l + 1 + i) = m (r + 1 + i))"
    by (auto simp: less_Suc_eq_0_disj)
  then show ?case using Suc.IH [of "l + 1" "r + 1"] by (auto simp: word_uint_eq_iff)
qed simp

lemma memset_fills: "memset s c n m = (s, \<lambda>a. if s \<le> a \<and> a < s + n then ucast c else m a)"
proof -
  have "memset_loop n p b m = (\<lambda>a. if p \<le> a \<and> a < p + n then b else m a)" for p b
  proof (induction n arbitrary: p m)
    case (Suc n)
    then show ?case by (auto simp: fun_eq_iff)
  qed (auto simp: fun_eq_iff)
  then show ?thesis by (simp add: memset_def)
qed

text \<open>C29. Whatever the alignment and the overlap of the two ranges, and whichever of its four copying loops it takes,
  \<open>memmove\<close> has the effect of reading the whole source range before writing the first byte of the destination.\<close>

theorem memmove_through_buffer:
  assumes "n < 2 ^ 63"
  shows "memmove dest src n m = (dest, \<lambda>a. if dest \<le> a \<and> a < dest + n then m (src + (a - dest)) else m a)"
proof -
  consider "dest = src" | "dest \<noteq> src" "(int src - int dest - int n) mod 2 ^ 64 \<le> (- 2 * int n) mod 2 ^ 64"
    | "dest \<noteq> src" "\<not> (int src - int dest - int n) mod 2 ^ 64 \<le> (- 2 * int n) mod 2 ^ 64" by blast
  then have "memmove dest src n m = (dest, copied dest src n m)"
  proof cases
    case 1
    then show ?thesis by (auto simp: memmove_def copied_def fun_eq_iff)
  next
    case 2
    then show ?thesis using memcpy_copied disjoint_test [OF 2(2) assms] by (simp add: memmove_def)
  next
    case 3
    then show ?thesis by (simp add: memmove_def move_forward_copied move_backward_copied)
  qed
  then show ?thesis by (simp add: copied_def)
qed

theorem memmove_through_buffer_witness:
  "snd (memmove 9 1 24 (\<lambda>a. of_nat a)) 20 = 12 \<and> (24 :: nat) < 2 ^ 63"
  using memmove_through_buffer [of 24 9 1 "\<lambda>a. of_nat a"] by simp

end
