(* ===== verification/Ctype.thy ===== *)
theory Ctype
  imports Prelude
begin

text \<open>
  The character classes of \<^verbatim>\<open>kernel/lib/ctype.c\<close>. An \<open>int\<close> argument is its 32-bit pattern: the range tests of the code subtract
  in \<open>unsigned\<close> and rely on the wrap-around, which the word type has. They are shown to be the ASCII ranges.
\<close>

subsection \<open>Model\<close>

definition isctrl :: "u32 \<Rightarrow> bool" where
  "isctrl c \<longleftrightarrow> sint c < 32 \<and> c \<noteq> 10 \<and> c \<noteq> 13 \<and> c \<noteq> 8 \<and> c \<noteq> 9 \<and> c \<noteq> 27"

definition isalpha :: "u32 \<Rightarrow> bool" where
  "isalpha ch \<longleftrightarrow> (ch OR 32) - 97 < 26"

definition islower :: "u32 \<Rightarrow> bool" where
  "islower ch \<longleftrightarrow> ch - 97 < 26"

definition isupper :: "u32 \<Rightarrow> bool" where
  "isupper ch \<longleftrightarrow> ch - 65 < 26"

definition isdigit :: "u32 \<Rightarrow> bool" where
  "isdigit ch \<longleftrightarrow> ch - 48 < 10"

definition isalnum :: "u32 \<Rightarrow> bool" where
  "isalnum ch \<longleftrightarrow> isalpha ch \<or> isdigit ch"

definition isxdigit :: "u32 \<Rightarrow> bool" where
  "isxdigit ch \<longleftrightarrow> isdigit ch \<or> (ch OR 32) - 97 < 6"

definition iscntrl :: "u32 \<Rightarrow> bool" where
  "iscntrl ch \<longleftrightarrow> ch < 0x20 \<or> ch = 0x7f"

definition isgraph :: "u32 \<Rightarrow> bool" where
  "isgraph ch \<longleftrightarrow> ch - 0x21 < 0x5e"

definition isspace :: "u32 \<Rightarrow> bool" where
  "isspace ch \<longleftrightarrow> ch = 32 \<or> ch - 9 < 5"

definition isblank :: "u32 \<Rightarrow> bool" where
  "isblank ch \<longleftrightarrow> ch = 32 \<or> ch = 9"

definition isprint :: "u32 \<Rightarrow> bool" where
  "isprint ch \<longleftrightarrow> ch - 0x20 < 0x5f"

definition ispunct :: "u32 \<Rightarrow> bool" where
  "ispunct ch \<longleftrightarrow> isgraph ch \<and> \<not> isalnum ch"

definition tolower :: "u32 \<Rightarrow> u32" where
  "tolower ch = (if isupper ch then ch OR 32 else ch)"

definition toupper :: "u32 \<Rightarrow> u32" where
  "toupper ch = (if islower ch then ch AND 0x5f else ch)"

subsection \<open>Ranges\<close>

text \<open>A subtraction that wraps turns two comparisons into one.\<close>

lemma word_range:
  fixes x lo k :: "'a::len word"
  assumes "unat lo + unat k < 2 ^ LENGTH('a)"
  shows "x - lo < k \<longleftrightarrow> unat lo \<le> unat x \<and> unat x < unat lo + unat k"
proof (cases "lo \<le> x")
  case True
  then show ?thesis by (auto simp: word_less_nat_alt word_le_nat_alt unat_sub)
next
  case False
  then have x: "unat x < unat lo" by (simp add: word_le_nat_alt)
  have "unat (x - lo) = unat x + 2 ^ LENGTH('a) - unat lo"
    using x unat_sub_if_size [of x lo] by (simp add: word_size)
  then show ?thesis using assms x by (auto simp: word_less_nat_alt)
qed

lemma islower_iff: "islower c \<longleftrightarrow> unat c \<in> {97..122}"
  by (auto simp: islower_def word_range)

lemma isupper_iff: "isupper c \<longleftrightarrow> unat c \<in> {65..90}"
  by (auto simp: isupper_def word_range)

lemma isdigit_iff: "isdigit c \<longleftrightarrow> unat c \<in> {48..57}"
  by (auto simp: isdigit_def word_range)

lemma isgraph_iff: "isgraph c \<longleftrightarrow> unat c \<in> {33..126}"
  by (auto simp: isgraph_def word_range)

lemma isprint_iff: "isprint c \<longleftrightarrow> unat c \<in> {32..126}"
  by (auto simp: isprint_def word_range)

lemma isspace_iff: "isspace c \<longleftrightarrow> unat c \<in> {9..13} \<union> {32}"
  by (auto simp: isspace_def word_range word_unat_eq_iff)

text \<open>Setting bit 5 adds 32 unless the bit is there: it folds the two letter ranges into one.\<close>

lemma unat_or_32: "unat (c OR 32 :: u32) = (if odd (unat c div 32) then unat c else unat c + 32)"
proof -
  have "unat (c OR 32) = set_bit 5 (unat c)" by (simp add: unsigned_or_eq set_bit_eq_or)
  then show ?thesis by (simp add: set_bit_eq bit_iff_odd)
qed

lemma or_32_range:
  fixes n :: nat
  assumes "97 \<le> lo" "hi \<le> 122" "32 \<le> hi"
  shows "(if odd (n div 32) then n else n + 32) \<in> {lo..hi} \<longleftrightarrow> n \<in> {lo - 32..hi - 32} \<or> n \<in> {lo..hi}"
proof -
  have "n \<in> {65..90} \<Longrightarrow> n div 32 = 2" "n \<in> {97..122} \<Longrightarrow> n div 32 = 3" by auto
  moreover have "n \<in> {lo - 32..hi - 32} \<Longrightarrow> n \<in> {65..90}" "n \<in> {lo..hi} \<Longrightarrow> n \<in> {97..122}" using assms by auto
  ultimately show ?thesis using assms by (cases "odd (n div 32)") auto
qed

lemma isalpha_iff: "isalpha c \<longleftrightarrow> isupper c \<or> islower c"
proof -
  have "isalpha c \<longleftrightarrow> unat (c OR 32) \<in> {97..122}" by (auto simp: isalpha_def word_range)
  then show ?thesis using or_32_range [of 97 122 "unat c"] by (simp add: unat_or_32 isupper_iff islower_iff)
qed

lemma and_5f: "n \<in> {97..122} \<Longrightarrow> n AND 95 = n - (32 :: nat)"
proof -
  have "\<forall>n \<in> set [97..<123]. n AND 95 = n - (32 :: nat)" by (simp add: upt_rec_numeral del: set_upt)
  moreover assume "n \<in> {97..122}"
  then have "n \<in> set [97..<123]" unfolding set_upt by auto
  ultimately show "n AND 95 = n - 32" by blast
qed

lemma case_conversion:
  "islower c \<Longrightarrow> unat (toupper c) = unat c - 32" "isupper c \<Longrightarrow> unat (tolower c) = unat c + 32"
proof -
  have "unat c \<in> {65..90} \<Longrightarrow> unat c div 32 = 2" by auto
  then show "islower c \<Longrightarrow> unat (toupper c) = unat c - 32" "isupper c \<Longrightarrow> unat (tolower c) = unat c + 32"
    using and_5f [of "unat c"] unat_or_32 [of c]
    by (auto simp: toupper_def tolower_def islower_iff isupper_iff unsigned_and_eq)
qed

lemma isxdigit_iff: "isxdigit c \<longleftrightarrow> unat c \<in> {48..57} \<union> {65..70} \<union> {97..102}"
proof -
  have "(c OR 32) - 97 < 6 \<longleftrightarrow> unat (c OR 32) \<in> {97..102}" by (auto simp: word_range)
  then show ?thesis using or_32_range [of 97 102 "unat c"] by (simp add: isxdigit_def isdigit_iff unat_or_32)
qed

lemma isalpha_range: "isalpha c \<longleftrightarrow> unat c \<in> {65..90} \<union> {97..122}"
  by (simp add: isalpha_iff isupper_iff islower_iff)

lemma ispunct_iff: "ispunct c \<longleftrightarrow> unat c \<in> {33..47} \<union> {58..64} \<union> {91..96} \<union> {123..126}"
  unfolding ispunct_def isalnum_def isgraph_iff isalpha_range isdigit_iff by auto

lemma iscntrl_iff: "iscntrl c \<longleftrightarrow> unat c \<in> {0..31} \<union> {127}"
  by (auto simp: iscntrl_def word_less_nat_alt word_unat_eq_iff)

lemma isblank_iff: "isblank c \<longleftrightarrow> unat c \<in> {9, 32}"
  by (auto simp: isblank_def word_unat_eq_iff)

lemma isctrl_iff: "isctrl c \<longleftrightarrow> sint c < 32 \<and> sint c \<notin> {8, 9, 10, 13, 27}"
proof -
  have "c = w \<longleftrightarrow> sint c = sint w" for w :: u32 by (metis scast_id signed_word_eqI)
  then show ?thesis unfolding isctrl_def by simp blast
qed

text \<open>C31. Each character class is the set of ASCII codes the C standard names for it, on every \<open>int\<close> argument, so also on
  negative ones and on those above 127. \<open>isctrl\<close>, which the standard does not have, takes every value below 32, negative
  ones included, except the codes of backspace, tab, line feed, carriage return and escape. \<open>toupper\<close> and \<open>tolower\<close>
  move the 26 letters of the other case by 32 and leave every other value alone.\<close>

theorem ctype_ascii:
  "(isupper c \<longleftrightarrow> unat c \<in> {65..90}) \<and> (islower c \<longleftrightarrow> unat c \<in> {97..122}) \<and> (isdigit c \<longleftrightarrow> unat c \<in> {48..57}) \<and>
   (isalpha c \<longleftrightarrow> unat c \<in> {65..90} \<union> {97..122}) \<and>
   (isalnum c \<longleftrightarrow> unat c \<in> {48..57} \<union> {65..90} \<union> {97..122}) \<and>
   (isxdigit c \<longleftrightarrow> unat c \<in> {48..57} \<union> {65..70} \<union> {97..102}) \<and>
   (isgraph c \<longleftrightarrow> unat c \<in> {33..126}) \<and> (isprint c \<longleftrightarrow> unat c \<in> {32..126}) \<and>
   (ispunct c \<longleftrightarrow> unat c \<in> {33..47} \<union> {58..64} \<union> {91..96} \<union> {123..126}) \<and>
   (isspace c \<longleftrightarrow> unat c \<in> {9..13} \<union> {32}) \<and> (isblank c \<longleftrightarrow> unat c \<in> {9, 32}) \<and>
   (iscntrl c \<longleftrightarrow> unat c \<in> {0..31} \<union> {127}) \<and> (isctrl c \<longleftrightarrow> sint c < 32 \<and> sint c \<notin> {8, 9, 10, 13, 27}) \<and>
   unat (toupper c) = (if unat c \<in> {97..122} then unat c - 32 else unat c) \<and>
   unat (tolower c) = (if unat c \<in> {65..90} then unat c + 32 else unat c)"
proof (intro conjI)
  show "isalnum c \<longleftrightarrow> unat c \<in> {48..57} \<union> {65..90} \<union> {97..122}"
    unfolding isalnum_def isalpha_range isdigit_iff by blast
  show "unat (toupper c) = (if unat c \<in> {97..122} then unat c - 32 else unat c)"
    using case_conversion(1) [of c] unfolding islower_iff [symmetric] by (auto simp: toupper_def)
  show "unat (tolower c) = (if unat c \<in> {65..90} then unat c + 32 else unat c)"
    using case_conversion(2) [of c] unfolding isupper_iff [symmetric] by (auto simp: tolower_def)
qed (rule isupper_iff islower_iff isdigit_iff isalpha_range isxdigit_iff isgraph_iff isprint_iff ispunct_iff isspace_iff
      isblank_iff iscntrl_iff isctrl_iff)+

end
