(* ===== verification/CString.thy ===== *)
theory CString
  imports Memory Ctype
begin

text \<open>
  The string functions of \<^verbatim>\<open>kernel/lib/string.c\<close>. A pointer into a character array is the list of bytes from there to the end of
  the array, so that incrementing it drops the head and reading past the end is \<open>None\<close>; a result pointer is an offset. Functions
  that write take the array and return it updated. Signed overflow and a failed \<open>assert\<close> are \<open>None\<close> as well. \<open>pretty_size_toa\<close>,
  which computes in \<open>long double\<close>, is not modelled.
\<close>

subsection \<open>Conversion of numbers\<close>

function reverse_loop :: "nat \<Rightarrow> nat \<Rightarrow> u8 list \<Rightarrow> u8 list" where
  "reverse_loop i len str =
     (if i < len div 2 then reverse_loop (i + 1) len (str[i := str ! (len - i - 1), len - i - 1 := str ! i]) else str)"
  by pat_completeness auto

termination reverse_loop
  by (relation "measure (\<lambda>(i, len, str). len div 2 - i)") auto

declare reverse_loop.simps [simp del]

definition reverse :: "u8 list \<Rightarrow> nat \<Rightarrow> u8 list option" where
  "reverse str len = (if len \<le> length str then Some (reverse_loop 0 len str) else None)"

definition put_char :: "u8 list \<Rightarrow> nat \<Rightarrow> u8 \<Rightarrow> u8 list option" where
  "put_char str i c = (if i < length str then Some (str[i := c]) else None)"

definition digit_char :: "u64 \<Rightarrow> u8" where
  "digit_char rem = (if rem > 9 then ucast (rem - 10 + 97) else ucast (rem + 48))"

text \<open>The loop \<open>while(num != 0)\<close>; a zero divisor traps.\<close>

function utoa_loop :: "u64 \<Rightarrow> u64 \<Rightarrow> nat \<Rightarrow> u8 list \<Rightarrow> (nat \<times> u8 list) option" where
  "utoa_loop num base i str =
     (if num = 0 then Some (i, str)
      else if base = 0 \<or> length str \<le> i then None
      else utoa_loop (num div base) base (i + 1) (str[i := digit_char (num mod base)]))"
  by pat_completeness auto

termination utoa_loop
  by (relation "measure (\<lambda>(num, base, i, str). length str - i)") auto

declare utoa_loop.simps [simp del]

definition utoa :: "u64 \<Rightarrow> u8 list \<Rightarrow> u32 \<Rightarrow> (nat \<times> u8 list) option" where
  "utoa num str base =
     (if num = 0 then do {
        str \<leftarrow> put_char str 0 48;
        str \<leftarrow> put_char str 1 0;
        Some (0, str)
      } else do {
        (i, str) \<leftarrow> utoa_loop num (scast base) 0 str;
        str \<leftarrow> put_char str i 0;
        str \<leftarrow> reverse str i;
        Some (0, str)
      })"

text \<open>For a negative number \<open>str\<close> itself is advanced past the sign, and returned so; negating the least number overflows.\<close>

definition itoa :: "u64 \<Rightarrow> u8 list \<Rightarrow> u32 \<Rightarrow> (nat \<times> u8 list) option" where
  "itoa inum str base =
     (if inum = 0 then do {
        str \<leftarrow> put_char str 0 48;
        str \<leftarrow> put_char str 1 0;
        Some (0, str)
      } else if sint inum < 0 then do {
        kassert (sint inum \<noteq> - (2 ^ 63));
        str \<leftarrow> put_char str 0 45;
        (i, s) \<leftarrow> utoa_loop (- inum) (scast base) 0 (drop 1 str);
        s \<leftarrow> put_char s i 0;
        s \<leftarrow> reverse s i;
        Some (1, take 1 str @ s)
      } else do {
        (i, str) \<leftarrow> utoa_loop inum (scast base) 0 str;
        str \<leftarrow> put_char str i 0;
        str \<leftarrow> reverse str i;
        Some (0, str)
      })"

definition in_int :: "int \<Rightarrow> int option" where
  "in_int x = (if - (2 ^ 31) \<le> x \<and> x < 2 ^ 31 then Some x else None)"

definition in_llong :: "int \<Rightarrow> int option" where
  "in_llong x = (if - (2 ^ 63) \<le> x \<and> x < 2 ^ 63 then Some x else None)"

fun atoi_spaces :: "u8 list \<Rightarrow> u8 list option" where
  "atoi_spaces [] = None"
| "atoi_spaces (c # s) = (if isspace (scast c) then atoi_spaces s else Some (c # s))"

fun atoi_loop :: "u8 list \<Rightarrow> int \<Rightarrow> int option" where
  "atoi_loop [] res = None"
| "atoi_loop (c # s) res =
     (if c = 0 then Some res
      else do {
        a \<leftarrow> in_int (res * 10);
        b \<leftarrow> in_int (a + sint c);
        res \<leftarrow> in_int (b - 48);
        atoi_loop s res
      })"

definition atoi :: "u8 list \<Rightarrow> int option" where
  "atoi s = do {
     s \<leftarrow> atoi_spaces s;
     let (sign, s) = (if hd s = 45 then (- 1, tl s) else if hd s = 43 then (1, tl s) else (1, s));
     res \<leftarrow> atoi_loop s 0;
     in_int (res * sign)
   }"

text \<open>The value and the number of characters read, where \<open>*endptr\<close> points.\<close>

fun strtoll_loop :: "u8 list \<Rightarrow> int \<Rightarrow> nat \<Rightarrow> (int \<times> nat) option" where
  "strtoll_loop [] v k = None"
| "strtoll_loop (c # s) v k =
     (if isdigit (scast c) then do {
        a \<leftarrow> in_llong (v * 10);
        v \<leftarrow> in_llong (a + (sint c - 48));
        strtoll_loop s v (k + 1)
      } else Some (v, k))"

definition strtoll :: "u8 list \<Rightarrow> u32 \<Rightarrow> (int \<times> nat) option" where
  "strtoll nptr base = do { kassert (base = 10); strtoll_loop nptr 0 0 }"

subsection \<open>Length and copying\<close>

fun strlen :: "u8 list \<Rightarrow> nat option" where
  "strlen [] = None"
| "strlen (c # s) = (if c = 0 then Some 0 else map_option Suc (strlen s))"

fun strnlen :: "u8 list \<Rightarrow> nat \<Rightarrow> nat option" where
  "strnlen s 0 = Some 0"
| "strnlen [] (Suc n) = None"
| "strnlen (c # s) (Suc n) = (if c = 0 then Some 0 else map_option Suc (strnlen s n))"

text \<open>The pointer returned is \<open>dest\<close> after the loop.\<close>

fun strcpy :: "u8 list \<Rightarrow> u8 list \<Rightarrow> (nat \<times> u8 list) option" where
  "strcpy (d # dest) (c # src) =
     (if c = 0 then Some (0, 0 # dest) else do { (k, dest) \<leftarrow> strcpy dest src; Some (Suc k, c # dest) })"
| "strcpy dest src = None"

fun strncat_loop :: "u8 list \<Rightarrow> u8 list \<Rightarrow> nat \<Rightarrow> u8 list option" where
  "strncat_loop d s 0 = put_char d 0 0"
| "strncat_loop d [] (Suc n) = None"
| "strncat_loop d (c # s) (Suc n) =
     (if c = 0 then put_char d 0 0
      else case d of [] \<Rightarrow> None | _ # d' \<Rightarrow> map_option ((#) c) (strncat_loop d' s n))"

definition strncat :: "u8 list \<Rightarrow> u8 list \<Rightarrow> nat \<Rightarrow> (nat \<times> u8 list) option" where
  "strncat d s n = do {
     k \<leftarrow> strlen d;
     d' \<leftarrow> strncat_loop (drop k d) s n;
     Some (0, take k d @ d')
   }"

text \<open>\<open>memcpy\<close> between two arrays that do not overlap.\<close>

definition mempcpy :: "u8 list \<Rightarrow> u8 list \<Rightarrow> nat \<Rightarrow> (nat \<times> u8 list) option" where
  "mempcpy dst src n = do {
     bs \<leftarrow> slice_at src 0 n;
     dst \<leftarrow> blit_at dst 0 bs;
     Some (n, dst)
   }"

definition stpncpy :: "u8 list \<Rightarrow> u8 list \<Rightarrow> nat \<Rightarrow> (nat \<times> u8 list) option" where
  "stpncpy dst src dsize = do {
     dlen \<leftarrow> strnlen src dsize;
     (k, dst) \<leftarrow> mempcpy dst src dlen;
     dst \<leftarrow> blit_at dst k (replicate (dsize - dlen) 0);
     Some (k, dst)
   }"

definition strncpy :: "u8 list \<Rightarrow> u8 list \<Rightarrow> nat \<Rightarrow> (nat \<times> u8 list) option" where
  "strncpy dst src dsize = do {
     (_, dst) \<leftarrow> stpncpy dst src dsize;
     Some (0, dst)
   }"

definition strcat :: "u8 list \<Rightarrow> u8 list \<Rightarrow> (nat \<times> u8 list) option" where
  "strcat dest src = do {
     k \<leftarrow> strlen dest;
     (_, d) \<leftarrow> strcpy (drop k dest) src;
     Some (0, take k dest @ d)
   }"

subsection \<open>Comparing\<close>

fun strcmp :: "u8 list \<Rightarrow> u8 list \<Rightarrow> int option" where
  "strcmp (a # l) (b # r) = (if a = b \<and> a \<noteq> 0 then strcmp l r else Some (uint a - uint b))"
| "strcmp l r = None"

fun strncmp_loop :: "u8 list \<Rightarrow> u8 list \<Rightarrow> nat \<Rightarrow> int option" where
  "strncmp_loop (a # l) (b # r) n =
     (if a \<noteq> 0 \<and> b \<noteq> 0 \<and> n \<noteq> 0 \<and> a = b then strncmp_loop l r (n - 1) else Some (uint a - uint b))"
| "strncmp_loop l r n = None"

definition strncmp :: "u8 list \<Rightarrow> u8 list \<Rightarrow> nat \<Rightarrow> int option" where
  "strncmp l r n = (if n = 0 then Some 0 else strncmp_loop l r (n - 1))"

fun strcasecmp :: "u8 list \<Rightarrow> u8 list \<Rightarrow> int option" where
  "strcasecmp (a # l) (b # r) =
     (if toupper (scast a) = toupper (scast b) \<and> a \<noteq> 0 then strcasecmp l r else Some (uint a - uint b))"
| "strcasecmp l r = None"

subsection \<open>Searching\<close>

text \<open>The inner loop of \<open>strstr\<close>: \<open>found\<close>, for the haystack from \<open>i\<close>.\<close>

fun strstr_here :: "u8 list \<Rightarrow> u8 list \<Rightarrow> bool option" where
  "strstr_here haystack [] = None"
| "strstr_here haystack (n # needle) =
     (if n = 0 then Some True
      else case haystack of
        [] \<Rightarrow> None
      | c # haystack \<Rightarrow> if c = n then strstr_here haystack needle else Some False)"

fun strstr :: "u8 list \<Rightarrow> u8 list \<Rightarrow> nat option option" where
  "strstr [] needle = None"
| "strstr (c # haystack) needle =
     (if c = 0 then Some None
      else do {
        found \<leftarrow> strstr_here (c # haystack) needle;
        if found then Some (Some 0) else map_option (map_option Suc) (strstr haystack needle)
      })"

fun strchrnul_loop :: "u8 list \<Rightarrow> u8 \<Rightarrow> nat option" where
  "strchrnul_loop [] c = None"
| "strchrnul_loop (a # s) c = (if a \<noteq> 0 \<and> a \<noteq> c then map_option Suc (strchrnul_loop s c) else Some 0)"

definition strchrnul :: "u8 list \<Rightarrow> u32 \<Rightarrow> nat option" where
  "strchrnul s c = (let c = ucast c :: u8 in if c = 0 then strlen s else strchrnul_loop s c)"

definition strchr :: "u8 list \<Rightarrow> u32 \<Rightarrow> nat option option" where
  "strchr s c = do {
     r \<leftarrow> strchrnul s c;
     Some (if s ! r = ucast c then Some r else None)
   }"

definition strrchr :: "u8 list \<Rightarrow> u32 \<Rightarrow> nat option option" where
  "strrchr s c = do {
     n \<leftarrow> strlen s;
     Some (memrchr 0 c (n + 1) (\<lambda>a. s ! a))
   }"

fun strspn :: "u8 list \<Rightarrow> u8 list \<Rightarrow> nat option" where
  "strspn [] accept = None"
| "strspn (c # s) accept =
     (if c = 0 then Some 0
      else do {
        r \<leftarrow> strchr accept (scast c);
        if r = None then Some 0 else map_option Suc (strspn s accept)
      })"

fun strcspn :: "u8 list \<Rightarrow> u8 list \<Rightarrow> nat option" where
  "strcspn [] reject = None"
| "strcspn (c # s) reject =
     (if c = 0 then Some 0
      else do {
        r \<leftarrow> strchr reject (scast c);
        if r \<noteq> None then Some 0 else map_option Suc (strcspn s reject)
      })"

text \<open>All calls of one iteration work on one array: \<open>s\<close> and \<open>*saveptr\<close> are offsets in it, \<open>None\<close> the null pointer. The result
  is the token, \<open>*saveptr\<close> and the array.\<close>

definition strtok_r :: "u8 list \<Rightarrow> nat option \<Rightarrow> u8 list \<Rightarrow> nat option \<Rightarrow> (nat option \<times> nat option \<times> u8 list) option" where
  "strtok_r buf s delim saveptr =
     (case (if s = None then saveptr else s) of
        None \<Rightarrow> Some (None, saveptr, buf)
      | Some s \<Rightarrow> do {
          k \<leftarrow> strspn (drop s buf) delim;
          let s = s + k;
          if buf ! s = 0 then Some (None, None, buf)
          else do {
            e \<leftarrow> strcspn (drop s buf) delim;
            if buf ! (s + e) \<noteq> 0 then Some (Some s, Some (s + e + 1), buf[s + e := 0])
            else Some (Some s, None, buf)
          }
        })"

text \<open>\<open>strtok\<close> keeps \<open>saveptr\<close> in a static variable, which the caller passes along here.\<close>

definition strtok :: "u8 list \<Rightarrow> nat option \<Rightarrow> u8 list \<Rightarrow> nat option \<Rightarrow> (nat option \<times> nat option \<times> u8 list) option" where
  "strtok buf str delim static_saveptr = strtok_r buf str delim static_saveptr"

subsection \<open>Error messages\<close>

definition strerror :: "int \<Rightarrow> string" where
  "strerror errnum = (case map_of [
     (0, ''Success''),
     (88, ''Illegal byte sequence''),
     (33, ''Domain error''),
     (34, ''Result not representable''),
     (25, ''Not a tty''),
     (13, ''Permission denied''),
     (1, ''Operation not permitted''),
     (2, ''No such file or directory''),
     (3, ''No such process''),
     (17, ''File exists''),
     (79, ''Value too large for data type''),
     (28, ''No space left on device''),
     (12, ''Out of memory''),
     (16, ''Resource busy''),
     (4, ''Interrupted system call''),
     (11, ''Resource temporarily unavailable''),
     (29, ''Invalid seek''),
     (18, ''Cross-device link''),
     (30, ''Read-only file system''),
     (93, ''Directory not empty''),
     (131, ''Connection reset by peer''),
     (145, ''Operation timed out''),
     (146, ''Connection refused''),
     (147, ''Host is down''),
     (148, ''Host is unreachable''),
     (125, ''Address in use''),
     (32, ''Broken pipe''),
     (5, ''I/O error''),
     (6, ''No such device or address''),
     (15, ''Block device required''),
     (19, ''No such device''),
     (20, ''Not a directory''),
     (21, ''Is a directory''),
     (26, ''Text file busy''),
     (8, ''Exec format error''),
     (22, ''Invalid argument''),
     (7, ''Argument list too long''),
     (90, ''Symbolic link loop''),
     (78, ''Filename too long''),
     (23, ''Too many open files in system''),
     (24, ''No file descriptors available''),
     (9, ''Bad file descriptor''),
     (10, ''No child process''),
     (14, ''Bad address''),
     (27, ''File too large''),
     (31, ''Too many links''),
     (46, ''No locks available''),
     (45, ''Resource deadlock would occur''),
     (166, ''State not recoverable''),
     (165, ''Previous owner died''),
     (158, ''Operation canceled''),
     (89, ''Function not implemented''),
     (35, ''No message of desired type''),
     (36, ''Identifier removed''),
     (60, ''Device not a stream''),
     (61, ''No data available''),
     (62, ''Device timeout''),
     (63, ''Out of streams resources''),
     (67, ''Link has been severed''),
     (71, ''Protocol error''),
     (77, ''Bad message''),
     (81, ''File descriptor in bad state''),
     (95, ''Not a socket''),
     (96, ''Destination address required''),
     (97, ''Message too large''),
     (98, ''Protocol wrong type for socket''),
     (99, ''Protocol not available''),
     (120, ''Protocol not supported''),
     (121, ''Socket type not supported''),
     (122, ''Not supported''),
     (123, ''Protocol family not supported''),
     (124, ''Address family not supported by protocol''),
     (126, ''Address not available''),
     (127, ''Network is down''),
     (128, ''Network unreachable''),
     (129, ''Connection reset by network''),
     (130, ''Connection aborted''),
     (132, ''No buffer space available''),
     (133, ''Socket is connected''),
     (134, ''Socket not connected''),
     (143, ''Cannot send after socket shutdown''),
     (149, ''Operation already in progress''),
     (150, ''Operation in progress''),
     (151, ''Stale file handle''),
     (140, ''Remote I/O error''),
     (1133, ''Quota exceeded''),
     (159, ''No medium found''),
     (160, ''Wrong medium type''),
     (74, ''Multihop attempted''),
     (161, ''Required key not available''),
     (162, ''Key has expired''),
     (163, ''Key has been revoked''),
     (164, ''Key was rejected by service'')] errnum of
     Some text \<Rightarrow> text
   | None \<Rightarrow> ''Unknown error'')"

end
