(* ===== verification/CStringLaws.thy ===== *)
theory CStringLaws
  imports CString "HOL-Library.Sublist"
begin

text \<open>
  What the string functions compute on terminated strings: an array \<open>body @ 0 # rest\<close> with no zero byte in \<open>body\<close> holds the string
  \<open>body\<close>. Comparison is the lexicographic order, \<open>strstr\<close> finds the first occurrence, a run of \<open>strtok\<close> calls yields the maximal
  pieces between delimiters, and the decimal conversions are inverse to each other.
\<close>

subsection \<open>Length, comparison and search\<close>

lemma strlen_body: "0 \<notin> set body \<Longrightarrow> strlen (body @ 0 # rest) = Some (length body)"
  by (induction body) auto

text \<open>C36. \<open>strcmp\<close> orders strings lexicographically by unsigned byte: the result is zero exactly for equal strings and negative
  exactly when the first is the smaller one.\<close>

theorem strcmp_lexicographic:
  assumes "0 \<notin> set l" "0 \<notin> set r"
  shows "\<exists>k. strcmp (l @ 0 # x) (r @ 0 # y) = Some k \<and> (k = 0 \<longleftrightarrow> l = r) \<and> (k < 0 \<longleftrightarrow> (l, r) \<in> lexord {(a, b). a < b})"
  using assms
proof (induction l arbitrary: r)
  case Nil
  then show ?case by (cases r) (auto simp: uint_0_iff order_less_le)
next
  case (Cons a l)
  have a: "0 < uint a" using Cons.prems(1) by (simp add: uint_0_iff order_less_le)
  show ?case
  proof (cases r)
    case Nil
    then show ?thesis using a Cons.prems(1) by auto
  next
    case (Cons b r')
    then show ?thesis using Cons.IH [of r'] Cons.prems by (auto simp: word_less_def word_uint_eq_iff)
  qed
qed

theorem strcmp_lexicographic_witness:
  "\<exists>k. strcmp ([97, 98] @ 0 # []) ([97, 200] @ 0 # []) = Some k \<and> k < 0 \<and> (0 :: u8) \<notin> set [97, 98]"
  using strcmp_lexicographic [of "[97, 98]" "[97, 200]" "[]" "[]"] by simp

lemma strstr_here_prefix:
  "0 \<notin> set h \<Longrightarrow> 0 \<notin> set n \<Longrightarrow> strstr_here (h @ 0 # x) (n @ 0 # y) = Some (prefix n h)"
proof (induction n arbitrary: h)
  case (Cons c n)
  then show ?case by (cases h) auto
qed simp

lemma find_upt_Suc:
  "List.find P [0..<Suc n] = (if P 0 then Some 0 else map_option Suc (List.find (\<lambda>i. P (Suc i)) [0..<n]))"
proof -
  have "List.find P (map Suc xs) = map_option Suc (List.find (\<lambda>i. P (Suc i)) xs)" for xs by (induction xs) auto
  then show ?thesis by (simp add: upt_conv_Cons flip: map_Suc_upt del: upt_Suc)
qed

text \<open>C37. \<open>strstr\<close> returns the first position of the haystack at which the needle occurs, and NULL when there is none; a
  position is tried only while a character is left, so the empty needle is not found in the empty string.\<close>

theorem strstr_first_occurrence:
  assumes "0 \<notin> set h" "0 \<notin> set n"
  shows "strstr (h @ 0 # x) (n @ 0 # y) = Some (List.find (\<lambda>i. prefix n (drop i h)) [0..<length h])"
  using assms(1)
proof (induction h)
  case (Cons c h)
  then have "strstr_here ((c # h) @ 0 # x) (n @ 0 # y) = Some (prefix n (c # h))"
    using strstr_here_prefix [of "c # h" n x y] assms(2) by simp
  then show ?case using Cons by (simp add: find_upt_Suc del: upt_Suc)
qed simp

theorem strstr_first_occurrence_witness:
  "strstr ([97, 98, 97, 98, 99] @ 0 # []) ([97, 98, 99] @ 0 # []) = Some (Some 2) \<and> (0 :: u8) \<notin> set [97, 98, 97, 98, 99]"
  using strstr_first_occurrence [of "[97, 98, 97, 98, 99]" "[97, 98, 99]" "[]" "[]"] by (simp add: upt_rec)

subsection \<open>Tokens\<close>

lemma char_promotion: "ucast (scast (c :: u8) :: u32) = c"
  by (rule bit_word_eqI) (simp add: bit_unsigned_iff bit_signed_iff)

lemma strchrnul_loop_body:
  "c \<noteq> 0 \<Longrightarrow> 0 \<notin> set s \<Longrightarrow> strchrnul_loop (s @ 0 # y) c = Some (length (takeWhile (\<lambda>a. a \<noteq> c) s))"
  by (induction s) auto

lemma strchr_body:
  assumes "c \<noteq> 0" "0 \<notin> set s"
  shows "\<exists>r. strchr (s @ 0 # y) (scast c) = Some r \<and> (r \<noteq> None \<longleftrightarrow> c \<in> set s)"
proof -
  have "(s @ 0 # y) ! length (takeWhile (\<lambda>a. a \<noteq> c) s) = c \<longleftrightarrow> c \<in> set s"
    using assms by (induction s) auto
  then show ?thesis using assms by (simp add: strchr_def strchrnul_def char_promotion strchrnul_loop_body)
qed

lemma strspn_body:
  "0 \<notin> set s \<Longrightarrow> 0 \<notin> set d \<Longrightarrow> strspn (s @ 0 # x) (d @ 0 # y) = Some (length (takeWhile (\<lambda>c. c \<in> set d) s))"
proof (induction s)
  case (Cons c s)
  then obtain r where "strchr (d @ 0 # y) (scast c) = Some r" "r \<noteq> None \<longleftrightarrow> c \<in> set d" using strchr_body [of c d y] by auto
  then show ?case using Cons by (cases r) auto
qed simp

lemma strcspn_body:
  "0 \<notin> set s \<Longrightarrow> 0 \<notin> set d \<Longrightarrow> strcspn (s @ 0 # x) (d @ 0 # y) = Some (length (takeWhile (\<lambda>c. c \<notin> set d) s))"
proof (induction s)
  case (Cons c s)
  then obtain r where "strchr (d @ 0 # y) (scast c) = Some r" "r \<noteq> None \<longleftrightarrow> c \<in> set d" using strchr_body [of c d y] by auto
  then show ?case using Cons by (cases r) auto
qed simp

text \<open>The reference: cut at the delimiters, keep the pieces that are not empty.\<close>

fun split_words :: "u8 set \<Rightarrow> u8 list \<Rightarrow> u8 list \<Rightarrow> u8 list list" where
  "split_words D [] w = (if w = [] then [] else [w])"
| "split_words D (c # s) w =
     (if c \<in> D then (if w = [] then split_words D s [] else w # split_words D s []) else split_words D s (w @ [c]))"

lemma split_words_skip: "split_words D s [] = split_words D (dropWhile (\<lambda>c. c \<in> D) s) []"
  by (induction s) auto

lemma split_words_word:
  "w \<noteq> [] \<Longrightarrow> split_words D s w = (w @ takeWhile (\<lambda>c. c \<notin> D) s) # split_words D (dropWhile (\<lambda>c. c \<notin> D) s) []"
  by (induction s arbitrary: w) auto

text \<open>The usual iteration: the first call gets the string, the others NULL, until NULL is returned; each token is read after
  its call.\<close>

primrec strtok_all :: "nat \<Rightarrow> u8 list \<Rightarrow> nat option \<Rightarrow> u8 list \<Rightarrow> nat option \<Rightarrow> u8 list list option" where
  "strtok_all 0 buf s delim save = None"
| "strtok_all (Suc n) buf s delim save = do {
     (t, save, buf) \<leftarrow> strtok buf s delim save;
     case t of
       None \<Rightarrow> Some []
     | Some p \<Rightarrow> do {
         ts \<leftarrow> strtok_all n buf None delim save;
         Some (takeWhile (\<lambda>c. c \<noteq> 0) (drop p buf) # ts)
       }
   }"

lemma drop_nth:
  assumes "drop p xs = y # ys"
  shows "xs ! p = y \<and> p < length xs"
proof -
  have "p < length xs" using assms by (cases "p < length xs") auto
  then show ?thesis using Cons_nth_drop_Suc [of p xs] assms by simp
qed

lemma drop_further: "drop p xs = ys @ zs \<Longrightarrow> drop (p + length ys) xs = zs"
  using drop_drop [of "length ys" p xs] by (simp add: add.commute)

lemma strtok_all_tokens:
  assumes "drop p buf = body @ 0 # rest" "0 \<notin> set body" "0 \<notin> set dl" "length body < n" "(if s = None then save else s) = Some p"
  shows "strtok_all n buf s (dl @ 0 # y) save = Some (split_words (set dl) body [])"
  using assms
proof (induction n arbitrary: p buf body s save)
  case (Suc n)
  let ?D = "set dl"
  define k b where "k = length (takeWhile (\<lambda>c. c \<in> ?D) body)" and "b = dropWhile (\<lambda>c. c \<in> ?D) body"
  have at: "drop (p + k) buf = b @ 0 # rest"
  proof -
    have "body @ 0 # rest = takeWhile (\<lambda>c. c \<in> ?D) body @ (b @ 0 # rest)" unfolding b_def append_assoc [symmetric] takeWhile_dropWhile_id ..
    then show ?thesis unfolding k_def using Suc.prems(1) by (intro drop_further) simp
  qed
  have b0: "0 \<notin> set b" using Suc.prems(2) by (auto simp: b_def dest: set_dropWhileD)
  have span: "strspn (drop p buf) (dl @ 0 # y) = Some k" using Suc.prems strspn_body by (simp add: k_def)
  show ?case
  proof (cases b)
    case Nil
    then have "buf ! (p + k) = 0" using at drop_nth by fastforce
    moreover have "split_words ?D body [] = []" unfolding split_words_skip [of ?D body] b_def [symmetric] Nil by simp
    ultimately show ?thesis using span Suc.prems(5) by (simp add: strtok_def strtok_r_def)
  next
    case (Cons c b')
    have cD: "c \<notin> ?D" using hd_dropWhile [of "\<lambda>c. c \<in> ?D" body] unfolding b_def [symmetric] Cons by simp
    define e w b2 where "e = length (takeWhile (\<lambda>c. c \<notin> ?D) b)" and "w = takeWhile (\<lambda>c. c \<notin> ?D) b"
      and "b2 = dropWhile (\<lambda>c. c \<notin> ?D) b"
    have c0: "buf ! (p + k) \<noteq> 0" using drop_nth [of "p + k" buf c "b' @ 0 # rest"] at Cons b0 by auto
    have cspan: "strcspn (drop (p + k) buf) (dl @ 0 # y) = Some e" using at b0 Suc.prems(3) strcspn_body by (simp add: e_def)
    have wb: "b = w @ b2" by (simp add: w_def b2_def)
    have ew: "e = length w" by (simp add: e_def w_def)
    have at2: "drop (p + k + e) buf = b2 @ 0 # rest"
      using drop_further [of "p + k" buf w "b2 @ 0 # rest"] at unfolding wb ew by simp
    have words: "split_words ?D body [] = w # split_words ?D b2 []"
      unfolding split_words_skip [of ?D body] b_def [symmetric] w_def b2_def unfolding Cons
      using split_words_word [of "[c]" ?D b'] cD by simp
    have w0: "0 \<notin> set w" "0 \<notin> set b2" using b0 wb by auto
    have short: "length b \<le> length body" by (simp add: b_def length_dropWhile_le)
    show ?thesis
    proof (cases b2)
      case Nil
      then have end0: "buf ! (p + k + e) = 0" using at2 drop_nth by fastforce
      obtain m where n: "n = Suc m" using Suc.prems(4) short Cons by (cases n) auto
      have "takeWhile (\<lambda>c. c \<noteq> 0) (drop (p + k) buf) = w" using at wb Nil w0 by (auto simp: takeWhile_append)
      then show ?thesis using span c0 cspan end0 Suc.prems(5) words Nil n
        by (simp add: strtok_def strtok_r_def add.assoc)
    next
      case (Cons d b3)
      have dD: "d \<in> ?D" using hd_dropWhile [of "\<lambda>c. c \<notin> ?D" b] unfolding b2_def [symmetric] Cons by simp
      have nz: "buf ! (p + k + e) \<noteq> 0" "p + k + e < length buf" using drop_nth [of "p + k + e" buf d "b3 @ 0 # rest"] at2 Cons w0 by auto
      define buf' where "buf' = buf[p + k + e := 0]"
      have rest': "drop (p + k + e + 1) buf' = b3 @ 0 # rest"
        using at2 Cons drop_further [of "p + k + e" buf "[d]" "b3 @ 0 # rest"] by (simp add: buf'_def)
      have "drop (p + k) buf' = (w @ d # b3 @ 0 # rest)[e := 0]" using at wb Cons by (simp add: buf'_def drop_update_swap add.assoc)
      then have tok: "takeWhile (\<lambda>c. c \<noteq> 0) (drop (p + k) buf') = w" using w0 by (simp add: ew takeWhile_append)
      have "length b3 < n" using Suc.prems(4) short wb Cons by simp
      then have "strtok_all n buf' None (dl @ 0 # y) (Some (p + k + e + 1)) = Some (split_words ?D b3 [])"
        using Suc.IH [OF rest' _ Suc.prems(3)] w0 Cons by simp
      then show ?thesis using span c0 cspan nz Suc.prems(5) words Cons tok dD
        by (simp add: strtok_def strtok_r_def Let_def buf'_def [symmetric])
    qed
  qed
qed simp

text \<open>C34. Iterating \<open>strtok\<close> over a string yields, in order, exactly the maximal non-empty pieces between delimiters.\<close>

theorem strtok_splits:
  assumes "0 \<notin> set body" "0 \<notin> set dl"
  shows "strtok_all (length body + 1) (body @ 0 # rest) (Some 0) (dl @ 0 # y) save = Some (split_words (set dl) body [])"
  using strtok_all_tokens [of 0 "body @ 0 # rest" body rest dl "length body + 1" "Some 0" save y] assms by simp

theorem strtok_splits_witness:
  "strtok_all (length [47, 97, 47, 47, 98, 99 :: u8] + 1) ([47, 97, 47, 47, 98, 99] @ 0 # []) (Some 0) ([47] @ 0 # []) None
   = Some [[97], [98, 99]]"
proof -
  have words: "split_words (set [47]) [47, 97, 47, 47, 98, 99] [] = [[97], [98, 99]]" by simp
  show ?thesis unfolding words [symmetric] by (rule strtok_splits) simp_all
qed

subsection \<open>Decimal numbers\<close>

definition mirror :: "nat \<Rightarrow> nat \<Rightarrow> u8 list \<Rightarrow> u8 list" where
  "mirror i len str = map (\<lambda>k. if i \<le> k \<and> k < len - i then str ! (len - 1 - k) else str ! k) [0..<length str]"

lemma mirror_step:
  assumes "2 * i + 2 \<le> len" "len \<le> length str"
  shows "mirror (i + 1) len (str[i := str ! (len - i - 1), len - i - 1 := str ! i]) = mirror i len str"
proof (rule nth_equalityI)
  let ?str = "str[i := str ! (len - i - 1), len - i - 1 := str ! i]"
  fix k assume "k < length (mirror (i + 1) len ?str)"
  then have k: "k < length str" by (simp add: mirror_def)
  consider "i + 1 \<le> k" "k < len - (i + 1)" | "k = i" | "k = len - i - 1" | "k < i" | "len - i \<le> k" using assms by linarith
  then show "mirror (i + 1) len ?str ! k = mirror i len str ! k"
  proof cases
    case 1
    then have "len - 1 - k \<noteq> i" "len - 1 - k \<noteq> len - i - 1" "k < len - i" "i \<le> k" by linarith+
    then show ?thesis using k 1 by (simp add: mirror_def)
  next
    case 2
    then have "k \<noteq> len - i - 1" "i \<le> k" "k < len - i" "\<not> i + 1 \<le> k" "i < length str" using assms by linarith+
    then show ?thesis using k 2 by (simp add: mirror_def nth_list_update)
  next
    case 3
    then have "len - 1 - k = i" "k \<noteq> i" "i \<le> k" "k < len - i" "\<not> k < len - (i + 1)" using assms by linarith+
    then show ?thesis using k 3 assms by (simp add: mirror_def nth_list_update)
  next
    case 4
    then have "k \<noteq> len - i - 1" using assms by linarith
    then show ?thesis using k 4 by (simp add: mirror_def nth_list_update)
  next
    case 5
    then have "k \<noteq> len - i - 1" "k \<noteq> i" "\<not> k < len - i" "\<not> k < len - (i + 1)" using assms by linarith+
    then show ?thesis using k by (simp add: mirror_def nth_list_update)
  qed
qed (simp add: mirror_def)

lemma reverse_loop_mirror: "len \<le> length str \<Longrightarrow> reverse_loop i len str = mirror i len str"
proof (induction i len str rule: reverse_loop.induct)
  case (1 i len str)
  show ?case
  proof (cases "i < len div 2")
    case True
    then have "2 * i + 2 \<le> len" by linarith
    then show ?thesis using "1.IH" [OF True] "1.prems" mirror_step [of i len str] True
      by (subst reverse_loop.simps) simp
  next
    case False
    then have mid: "len - 1 - k = k" if "i \<le> k" "k < len - i" for k using that by linarith
    have "mirror i len str = str" unfolding mirror_def
      by (rule nth_equalityI) (use mid in \<open>simp_all\<close>)
    then show ?thesis using False by (subst reverse_loop.simps) simp
  qed
qed

lemma reverse_rev:
  assumes "len \<le> length str"
  shows "reverse str len = Some (rev (take len str) @ drop len str)"
proof -
  have "reverse_loop 0 len str = rev (take len str) @ drop len str"
    unfolding reverse_loop_mirror [OF assms] mirror_def using assms
    by (intro nth_equalityI) (simp_all add: nth_append rev_nth min_def)
  then show ?thesis using assms by (simp add: reverse_def)
qed

text \<open>The digits of a number, least significant first.\<close>

fun digits10 :: "nat \<Rightarrow> u8 list" where
  "digits10 n = (if n = 0 then [] else of_nat (48 + n mod 10) # digits10 (n div 10))"

declare digits10.simps [simp del]

lemma digit_char_10: "digit_char (num mod 10) = of_nat (48 + unat num mod 10)"
proof -
  have u: "unat (num mod 10) = unat num mod 10" by (simp add: unat_mod_distrib)
  then have "\<not> num mod 10 > 9" by (simp add: word_less_nat_alt)
  then have "digit_char (num mod 10) = ucast (num mod 10 + 48)" by (simp add: digit_char_def)
  moreover have "num mod 10 + 48 = of_nat (48 + unat num mod 10)" by (simp flip: u)
  moreover have "take_bit 64 (48 + unat num mod 10) = 48 + unat num mod 10" by (simp add: take_bit_nat_eq_self)
  ultimately show ?thesis by (simp add: unsigned_of_nat del: of_nat_add)
qed

lemma utoa_loop_10:
  assumes "i + length (digits10 (unat num)) \<le> length str"
  shows "utoa_loop num 10 i str = Some (i + length (digits10 (unat num)),
    take i str @ digits10 (unat num) @ drop (i + length (digits10 (unat num))) str)"
  using assms
proof (induction "unat num" arbitrary: num i str rule: less_induct)
  case less
  show ?case
  proof (cases "num = 0")
    case True
    then show ?thesis by (simp add: utoa_loop.simps [of 0] digits10.simps [of 0])
  next
    case False
    then have pos: "unat num \<noteq> 0" by (simp add: unat_eq_zero)
    have step: "digits10 (unat num) = digit_char (num mod 10) # digits10 (unat (num div 10))"
      using pos by (simp add: digits10.simps [of "unat num"] digit_char_10 unat_div_distrib)
    have small: "unat (num div 10) < unat num" using pos by (simp add: unat_div_distrib)
    let ?str = "str[i := digit_char (num mod 10)]"
    have "utoa_loop num 10 i str = utoa_loop (num div 10) 10 (i + 1) ?str"
      using False less.prems by (simp add: utoa_loop.simps [of num] step)
    also have "\<dots> = Some (i + 1 + length (digits10 (unat (num div 10))),
        take (i + 1) ?str @ digits10 (unat (num div 10)) @ drop (i + 1 + length (digits10 (unat (num div 10)))) ?str)"
      using less.prems step by (intro less.hyps [OF small]) simp
    finally show ?thesis using less.prems step by (simp add: take_Suc_conv_app_nth)
  qed
qed

lemma digit_facts:
  assumes "d < 10"
  shows "isdigit (scast (of_nat (48 + d) :: u8))" "sint (of_nat (48 + d) :: u8) = 48 + int d" "(of_nat (48 + d) :: u8) \<noteq> 0"
proof -
  have "d = 0 \<or> d = 1 \<or> d = 2 \<or> d = 3 \<or> d = 4 \<or> d = 5 \<or> d = 6 \<or> d = 7 \<or> d = 8 \<or> d = 9"
    using assms by presburger
  then show "isdigit (scast (of_nat (48 + d) :: u8))" "sint (of_nat (48 + d) :: u8) = 48 + int d" "(of_nat (48 + d) :: u8) \<noteq> 0"
    by (elim disjE; simp add: isdigit_def)+
qed

lemma strtoll_digits:
  "n < 2 ^ 63 \<Longrightarrow> strtoll_loop (rev (digits10 n) @ s) 0 k = strtoll_loop s (int n) (k + length (digits10 n))"
proof (induction n arbitrary: s rule: digits10.induct)
  case (1 n)
  show ?case
  proof (cases "n = 0")
    case False
    let ?c = "of_nat (48 + n mod 10) :: u8"
    have c: "isdigit (scast ?c)" "sint ?c = 48 + int (n mod 10)" using digit_facts [of "n mod 10"] by simp_all
    have n: "int (n div 10) * 10 + int (n mod 10) = int n" using arg_cong [OF div_mult_mod_eq [of n 10], of int] by (simp only: of_nat_add of_nat_mult of_nat_numeral)
    have "strtoll_loop (rev (digits10 n) @ s) 0 k = strtoll_loop (?c # s) (int (n div 10)) (k + length (digits10 (n div 10)))"
      using "1.IH" [OF False] "1.prems" False by (simp add: digits10.simps [of n] del: of_nat_add strtoll_loop.simps)
    also have "\<dots> = strtoll_loop s (int n) (k + length (digits10 (n div 10)) + 1)"
    proof -
      have "int n < 2 ^ 63" using "1.prems" by simp
      moreover from this n have "int (n div 10) * 10 < 2 ^ 63" by linarith
      ultimately have "int (n div 10) * 10 < 2 ^ 63" "int n < 2 ^ 63" by blast+
      then show ?thesis using c n by (simp add: in_llong_def del: of_nat_add)
    qed
    finally show ?thesis using False by (simp add: digits10.simps [of n])
  qed (simp add: digits10.simps [of 0])
qed

lemma length_digits10: "n < 10 ^ k \<Longrightarrow> length (digits10 n) \<le> k"
proof (induction k arbitrary: n)
  case (Suc k)
  then have "n div 10 < 10 ^ k" by (simp add: div_less_iff_less_mult mult.commute)
  then show ?case using Suc.IH [of "n div 10"] by (cases "n = 0") (simp_all add: digits10.simps [of n] digits10.simps [of 0])
qed (simp add: digits10.simps [of 0])

lemma length_digits10_u64: "length (digits10 (unat (num :: u64))) \<le> 20"
proof -
  have "unat num < 2 ^ LENGTH(64)" by (rule unsigned_less)
  then have "unat num < 10 ^ 20" by simp
  then show ?thesis by (rule length_digits10)
qed

lemma digits10_nonzero: "0 \<notin> set (digits10 n)"
proof (induction n rule: digits10.induct)
  case (1 n)
  then show ?case using digit_facts(3) [of "n mod 10"] by (cases "n = 0") (simp_all add: digits10.simps [of n] digits10.simps [of 0] del: of_nat_add)
qed

text \<open>The common part of \<open>utoa\<close> and \<open>itoa\<close>: convert, terminate, reverse.\<close>

lemma convert_10:
  assumes "21 \<le> length str"
  shows "\<exists>rest. (do { (i, str) \<leftarrow> utoa_loop num 10 0 str; str \<leftarrow> put_char str i 0; reverse str i })
    = Some (rev (digits10 (unat num)) @ 0 # rest)"
proof -
  let ?ds = "digits10 (unat num)"
  have len: "length ?ds < length str" using length_digits10_u64 [of num] assms by linarith
  then have "utoa_loop num 10 0 str = Some (length ?ds, ?ds @ drop (length ?ds) str)" using utoa_loop_10 [of 0 num str] by simp
  moreover obtain x xs where "drop (length ?ds) str = x # xs" using len by (cases "drop (length ?ds) str") auto
  ultimately show ?thesis by (simp add: put_char_def reverse_rev list_update_append)
qed

lemma read_back:
  assumes "unat num < 2 ^ 63"
  shows "strtoll (rev (digits10 (unat num)) @ 0 # rest) 10 = Some (int (unat num), length (digits10 (unat num)))"
  using strtoll_digits [OF assms, of "0 # rest" 0] by (simp add: strtoll_def isdigit_def)

text \<open>C35. Printing an unsigned number in base 10 and reading the text back gives the number, for every number a \<open>long long\<close>
  can hold and every buffer of 21 bytes or more; the whole text is consumed.\<close>

theorem utoa_strtoll_roundtrip:
  assumes "unat num < 2 ^ 63" "21 \<le> length str"
  shows "\<exists>buf d. utoa num str 10 = Some (0, buf) \<and> strlen buf = Some d \<and> strtoll buf 10 = Some (int (unat num), d)"
proof (cases "num = 0")
  case True
  obtain a b xs where "str = a # b # xs" using assms(2) by (cases str; cases "tl str") auto
  then show ?thesis using True by (simp add: utoa_def put_char_def strtoll_def isdigit_def in_llong_def)
next
  case False
  obtain rest where "(do { (i, str) \<leftarrow> utoa_loop num 10 0 str; str \<leftarrow> put_char str i 0; reverse str i })
    = Some (rev (digits10 (unat num)) @ 0 # rest)" using convert_10 [OF assms(2)] by blast
  then have "utoa num str 10 = Some (0, rev (digits10 (unat num)) @ 0 # rest)"
    using False by (simp add: utoa_def bind_eq_Some_conv split_def)
  then show ?thesis using read_back [OF assms(1)] strlen_body [of "rev (digits10 (unat num))" rest] digits10_nonzero by simp
qed

theorem utoa_strtoll_roundtrip_witness:
  "\<exists>buf d. utoa 4096 (replicate 24 0) 10 = Some (0, buf) \<and> strlen buf = Some d \<and> strtoll buf 10 = Some (4096, d)"
  using utoa_strtoll_roundtrip [of 4096 "replicate 24 0"] by simp

text \<open>C38. For a negative number \<open>itoa\<close> writes the sign but returns the pointer behind it: the string the caller gets is the
  absolute value.\<close>

theorem itoa_returns_absolute_value:
  assumes "sint inum < 0" "sint inum \<noteq> - (2 ^ 63)" "22 \<le> length str"
  shows "\<exists>buf d. itoa inum str 10 = Some (1, buf) \<and> buf ! 0 = 45 \<and> strtoll (drop 1 buf) 10 = Some (- sint inum, d)"
proof -
  have "- (2 ^ 63) \<le> sint inum" using sint_greater_eq [of inum] by simp
  then have "- (2 ^ 63) < sint inum" by (rule le_neq_trans) (rule assms(2) [symmetric])
  then have range: "0 \<le> - sint inum" "- sint inum < 2 ^ 63" using assms(1) by linarith+
  have neg: "- inum = word_of_int (- sint inum)" by simp
  have "take_bit LENGTH(64) (- sint inum) = - sint inum"
    by (rule take_bit_int_eq_self [OF range(1)], rule less_trans [OF range(2)]) simp
  then have "uint (- inum) = - sint inum" by (subst neg) (simp only: uint_word_of_int_eq)
  then have u: "int (unat (- inum)) = - sint inum" by (simp only: uint_nat)
  have nz: "inum \<noteq> 0" using assms(1) by auto
  obtain x xs where str: "str = x # xs" "21 \<le> length xs" using assms(3) by (cases str) auto
  obtain rest where "(do { (i, str) \<leftarrow> utoa_loop (- inum) 10 0 xs; str \<leftarrow> put_char str i 0; reverse str i })
    = Some (rev (digits10 (unat (- inum))) @ 0 # rest)" using convert_10 [OF str(2)] by blast
  moreover have "itoa inum str 10 = do { (i, s) \<leftarrow> utoa_loop (- inum) 10 0 xs; s \<leftarrow> put_char s i 0; s \<leftarrow> reverse s i; Some (1, 45 # s) }"
    unfolding itoa_def str(1) using assms(1,2) nz by (simp add: put_char_def)
  ultimately have "itoa inum str 10 = Some (1, 45 # rev (digits10 (unat (- inum))) @ 0 # rest)"
    by (simp add: bind_eq_Some_conv split_def)
  moreover have "unat (- inum) < 2 ^ 63"
  proof -
    have "int (unat (- inum)) < int (2 ^ 63)" unfolding u using range(2) by simp
    then show ?thesis by (simp only: of_nat_less_iff)
  qed
  ultimately show ?thesis using read_back [of "- inum" rest, unfolded u] by (intro exI conjI) (assumption, simp, simp)
qed

theorem itoa_returns_absolute_value_witness:
  "\<exists>buf d. itoa (- 42) (replicate 24 0) 10 = Some (1, buf) \<and> buf ! 0 = 45 \<and> strtoll (drop 1 buf) 10 = Some (42, d)"
  using itoa_returns_absolute_value [of "- 42" "replicate 24 0"] by simp

end
