(* ===== verification/Libgen.thy ===== *)
theory Libgen
  imports CStringLaws
begin

text \<open>
  \<open>dirname\<close> and \<open>basename\<close> of \<^verbatim>\<open>kernel/lib/libgen.c\<close>. Their search loop may run for ever, so it is a partial function and \<open>None\<close> is
  not returning. Neither returns on a path that ends in a slash.
\<close>

text \<open>The loop \<open>do base = strrchr(path, '/'); while(base && base[1] == 0)\<close> both functions start with.\<close>

partial_function (option) last_slash :: "u8 list \<Rightarrow> nat option option" where
  "last_slash path = do {
     base \<leftarrow> strrchr path 47;
     (case base of
        None \<Rightarrow> Some None
      | Some b \<Rightarrow> if path ! (b + 1) = 0 then last_slash path else Some (Some b))
   }"

text \<open>The string returned: a literal, or \<open>path\<close> cut behind its last slash.\<close>

definition dirname :: "u8 list \<Rightarrow> u8 list option" where
  "dirname path = do {
     base \<leftarrow> last_slash path;
     (case base of
        None \<Rightarrow> Some [46, 0]
      | Some b \<Rightarrow> Some (path[b + 1 := 0]))
   }"

definition basename :: "u8 list \<Rightarrow> nat option" where
  "basename path = do {
     base \<leftarrow> last_slash path;
     (case base of None \<Rightarrow> Some 0 | Some b \<Rightarrow> Some b)
   }"

lemma memrchr_last:
  "b < n \<Longrightarrow> m (s + b) = ucast c \<Longrightarrow> (\<forall>i. b < i \<and> i < n \<longrightarrow> m (s + i) \<noteq> ucast c) \<Longrightarrow> memrchr s c n m = Some (s + b)"
proof (induction n)
  case (Suc n)
  then show ?case by (cases "b = n") auto
qed simp

lemma strrchr_slash:
  assumes "0 \<notin> set a" "0 \<notin> set b" "47 \<notin> set b"
  shows "strrchr (a @ 47 # b @ 0 # rest) 47 = Some (Some (length a))"
proof -
  let ?p = "a @ 47 # b @ 0 # rest"
  have "strlen ?p = Some (length a + 1 + length b)" using strlen_body [of "a @ 47 # b" rest] assms by simp
  moreover have "?p ! i \<noteq> 47" if "length a < i" "i < length a + 1 + length b + 1" for i
  proof -
    have "?p ! i = (b @ [0]) ! (i - length a - 1)" using that by (auto simp: nth_append nth_Cons')
    moreover have "(b @ [0]) ! (i - length a - 1) \<in> set (b @ [0])" using that by (intro nth_mem) auto
    ultimately show ?thesis using assms(3) by auto
  qed
  then have "memrchr 0 47 (length a + 1 + length b + 1) (\<lambda>i. ?p ! i) = Some (0 + length a)"
    by (intro memrchr_last) auto
  ultimately show ?thesis by (simp add: strrchr_def)
qed

lemma last_slash_found:
  assumes "0 \<notin> set a" "0 \<notin> set b" "47 \<notin> set b" "b \<noteq> []"
  shows "last_slash (a @ 47 # b @ 0 # rest) = Some (Some (length a))"
proof -
  have "(a @ 47 # b @ 0 # rest) ! (length a + 1) \<noteq> 0" using assms by (cases b) (auto simp: nth_append)
  then show ?thesis by (subst last_slash.simps) (simp add: strrchr_slash assms)
qed

lemma last_slash_stuck:
  assumes "0 \<notin> set a"
  shows "last_slash (a @ 47 # 0 # rest) = None"
proof -
  let ?p = "a @ 47 # 0 # rest"
  have base: "strrchr ?p 47 = Some (Some (length a))" using strrchr_slash [OF assms, of "[]" rest] by simp
  have "path \<noteq> ?p" if "last_slash path = Some y" for path y
  proof (rule last_slash.raw_induct [where P = "\<lambda>path y. path \<noteq> ?p", OF _ that])
    fix loop path y
    assume loop: "\<And>path y. loop path = Some y \<Longrightarrow> path \<noteq> ?p"
      and body: "strrchr path 47 \<bind> (\<lambda>base. case base of None \<Rightarrow> Some None
        | Some b \<Rightarrow> if path ! (b + 1) = 0 then loop path else Some (Some b)) = Some y"
    show "path \<noteq> ?p"
    proof
      assume p: "path = ?p"
      have "loop ?p = Some y" using body base unfolding p by (simp add: nth_append)
      then show False using loop by blast
    qed
  qed
  then show ?thesis by (cases "last_slash ?p") auto
qed

text \<open>C39. On a path that ends in a slash neither \<open>dirname\<close> nor \<open>basename\<close> returns: the loop looks for the last slash of an
  unchanged string again and again. On a path whose last component is not empty both return.\<close>

theorem libgen_trailing_slash:
  assumes "0 \<notin> set a" "0 \<notin> set b" "47 \<notin> set b"
  shows "if b = [] then dirname (a @ 47 # b @ 0 # rest) = None \<and> basename (a @ 47 # b @ 0 # rest) = None
    else dirname (a @ 47 # b @ 0 # rest) = Some (a @ 47 # 0 # tl b @ 0 # rest) \<and>
      basename (a @ 47 # b @ 0 # rest) = Some (length a)"
proof (cases b)
  case Nil
  then show ?thesis using last_slash_stuck [OF assms(1), of rest] by (simp add: dirname_def basename_def)
next
  case (Cons c b')
  then show ?thesis using last_slash_found [OF assms, of rest]
    by (simp add: dirname_def basename_def list_update_append)
qed

theorem libgen_trailing_slash_witness:
  "dirname ([97] @ 47 # [] @ 0 # []) = None \<and> (0 :: u8) \<notin> set [97]"
  using libgen_trailing_slash [of "[97]" "[]" "[]"] by simp

end
