(* ===== verification/Spec2Isabelle.thy ===== *)
theory Spec2Isabelle
  imports Pmm Buffers SwitchInv ShardGrammar ShardMap LibTime Rand Libgen
begin

text \<open>
  Verification of Amethyst, a small operating system: a kernel for x86-64 (\<^verbatim>\<open>src/kernel\<close>, \<^verbatim>\<open>src/arch\<close>, \<^verbatim>\<open>src/drivers\<close>) and the shard
  language with its tools (\<^verbatim>\<open>src/shard\<close>).

  \<^bold>\<open>Parts and how they interact.\<close> Physical memory is managed by \<^verbatim>\<open>kernel/mem/pmm.c\<close>, which keeps one bit per page in the block bitmap
  of \<^verbatim>\<open>kernel/lib/bitmap.c\<close> and the counts of shared pages in the hash table of \<^verbatim>\<open>kernel/lib/hashtable.c\<close>. Threads are run by
  \<^verbatim>\<open>kernel/sys/scheduler.c\<close>: one set of priority queues for all processors, a current thread and an idle thread per processor, and
  the timer interrupt, sleeping, waking and exit as the events that switch threads. Drivers and the terminal pass bytes through the
  ring buffer and the dynamic array. The C library of the kernel (\<^verbatim>\<open>kernel/lib\<close>) serves all of them. In the shard language, the
  lexer hands tokens to the recursive-descent parser, which builds the tree the evaluator runs.

  \<^bold>\<open>Conventions\<close> (theory \<^verbatim>\<open>Prelude\<close>). Machine integers are words of their width. Structures are records, pointers into a store are
  optional numbers, and a computation that panics, fails an assertion, follows a null pointer, leaves an array, spins on a lock that
  nobody releases or runs out of fuel is \<open>None\<close>. Error codes are ordinary results. Memory obtained from an allocator is an argument of
  the operation that asks for it, so that every theorem holds for success and failure of the allocation. Signed overflow, which C leaves
  undefined, is \<open>None\<close> where it can happen in \<open>mktime\<close>, and wraps around in the number literals of the lexer.

  \<^bold>\<open>Theories.\<close>

  \<^item> \<^verbatim>\<open>Links\<close>: doubly linked segments in a store, shared by the hash chains and the run queues.

  \<^item> \<^verbatim>\<open>Bitmap\<close> (\<^verbatim>\<open>bitmap.c\<close>): the record \<open>bitmap\<close> with its byte array, and one definition per function. Allocation is first fit, live regions
    are disjoint, and freeing undoes allocation. The locale \<open>block_allocator\<close> states what a client may rely on and is interpreted on the
    operations of the code.

  \<^item> \<^verbatim>\<open>Hashtable\<close> (\<^verbatim>\<open>hashtable.c\<close>): buckets of linked entries in a store. Sequences of operations refine a finite map, also when
    freed entries are used again; failures change nothing. The locale \<open>byte_map\<close> is the contract, interpreted on \<open>hashtable_get\<close>, \<open>hashtable_set\<close> and \<open>hashtable_remove\<close>.

  \<^item> \<^verbatim>\<open>Pmm\<close> (\<^verbatim>\<open>pmm.c\<close>, \<^verbatim>\<open>mmap.c\<close>): the allocator over the two above. Allocation is an exact first fit, a page is freed by exactly the last release,
    and initialisation follows the boot memory map, byte by byte, if the map has no holes; with a hole it is shown to leave the bitmap,
    and the first hold of a page to test the wrong bit.

  \<^item> \<^verbatim>\<open>Buffers\<close> (\<^verbatim>\<open>ringbuffer.c\<close>, \<^verbatim>\<open>dynarray.c\<close>): reading is first in, first out; writing and growing keep what was stored, up to the two
    defects the theorems state.

  \<^item> \<^verbatim>\<open>Sched\<close>, \<^verbatim>\<open>Switch\<close>, \<^verbatim>\<open>SwitchInv\<close> (\<^verbatim>\<open>scheduler.c\<close>, with \<open>thread_create\<close> of \<^verbatim>\<open>thread.c\<close>, \<open>vmm_switch_context\<close> of \<^verbatim>\<open>vmm.c\<close> and the
    timer tick): the run queues refine 64 lists; \<open>sched_step\<close> is the step relation of all operations on one processor, whose critical
    sections run with interrupts disabled and so are single steps. From \<open>scheduler_init\<close> on the invariant holds, and no operation that is
    called within its guard fails. The invariant assigns each thread a place: away, in the queues, or on a processor. It is also kept
    by whole operations of several processors, but the code releases the run queue lock between choosing a thread and switching to it;
    \<open>preempt_race\<close> shows that another processor can come in between there and run the thread that is being left.

  \<^item> \<^verbatim>\<open>ShardTok\<close>, \<^verbatim>\<open>ShardLex\<close>, \<^verbatim>\<open>ShardPrint\<close> (\<^verbatim>\<open>libshard/lex.c\<close>): the lexer on its input buffer. It makes progress, stays inside its buffer,
    terminates on the inputs named by the theorem, and reads back printed tokens.

  \<^item> \<^verbatim>\<open>ShardAst\<close>, \<^verbatim>\<open>ShardParse\<close>, \<^verbatim>\<open>ShardRoundtrip\<close>, \<^verbatim>\<open>ShardGrammar\<close> (\<^verbatim>\<open>libshard/parse.c\<close>): the parser with its error list. Printing and parsing an
    expression gives it back, operators bind by precedence, and on one malformed input the parser never returns.

  \<^item> \<^verbatim>\<open>ShardMap\<close> (\<^verbatim>\<open>libshard/hashmap.c\<close>): the hash map with linear probing is a finite map that counts its pairs, also when a put rebuilds
    the table; a put fails exactly on a present key and in a full table of two places.

  \<^item> \<^verbatim>\<open>Memory\<close> (\<^verbatim>\<open>memory.c\<close>): \<open>memmove\<close> with its alignment and overlap cases equals a copy through a buffer.

  \<^item> \<^verbatim>\<open>Ctype\<close>, \<^verbatim>\<open>CString\<close>, \<^verbatim>\<open>CStringLaws\<close>, \<^verbatim>\<open>Libgen\<close> (\<^verbatim>\<open>ctype.c\<close>, \<^verbatim>\<open>string.c\<close>, \<^verbatim>\<open>libgen.c\<close>): character classes as sets of codes, comparison, search, tokens,
    decimal conversion both ways, and the loop of \<open>dirname\<close> and \<open>basename\<close>, which does not end on a trailing slash.

  \<^item> \<^verbatim>\<open>LibTime\<close>, \<^verbatim>\<open>Rand\<close> (\<^verbatim>\<open>time.c\<close>, \<^verbatim>\<open>rand.c\<close>): \<open>mktime\<close> equals adding up the Gregorian calendar, unless \<open>tm_mday - 1\<close> overflows; the random generator stays in its table,
    and its seed has no effect.

  \<^bold>\<open>Fuel.\<close> Walks along linked chains, the repetition inside \<open>shard_lex\<close>, and the mutually recursive functions of the parser take fuel.
  The round-trip theorems state that enough fuel exists and that more does not change the result; the theorem on the malformed input is
  about every amount of fuel. Loops bounded by an array or a counter are total functions. The loop of \<^verbatim>\<open>libgen.c\<close> is a partial function.

  \<^bold>\<open>Not modelled.\<close> The virtual memory manager, the slab allocator and the heap lay their data out inside the memory they manage and
  work on page tables, which needs a byte-level object store. The file systems and the system calls work through tables of function
  pointers on reference-counted nodes. A semaphore switches stacks in the middle of an operation, which the step relation of whole
  operations does not express. Interleavings of several processors are not explored beyond the one of \<open>preempt_race\<close>. Of the processor context, the scheduler model keeps the fields the code tests; the switch itself is
  assembler. Drivers, terminal output, boot and the command-line programs are input and output. The shard evaluator runs lazily on
  shared values under a garbage collector, and \<open>pretty_size_toa\<close> computes in \<open>long double\<close>. Interrupts arrive between operations of the
  model, at the points where the code enables them, and not inside a section that has them disabled.
\<close>

end
